(* ===== verification/Prelude.thy ===== *)
theory Prelude
  imports Main "HOL-Library.Word"
begin

text \<open>
  Shared vocabulary of the development: the machine integers of include/types.h, the
  byte-addressed physical memory the kernel writes through pointers, C strings as byte
  lists, and the collections of simplification rules the component theories fill.

  Conventions used everywhere.
  \<^item> An address is a 32-bit word and \<open>0\<close> is NULL. Address arithmetic wraps, as in C.
  \<^item> A C function that always returns is a HOL function. A C function that may loop for
    ever, halt the machine or dereference a bad pointer has a result of type
    \<open>'a option\<close>, and \<open>None\<close> means that the call does not return normally.
  \<^item> A static variable of the source is a field of a state record with the same name. The
    records extend one another in the order in which the components call each other, so an
    operation of a lower component applies unchanged to the state of a higher one.
\<close>

unbundle bit_operations_syntax

section \<open>Machine integers\<close>

type_synonym u8 = "8 word"
type_synonym u16 = "16 word"
type_synonym u32 = "32 word"

text \<open>Rule collections: reads of memory after writes, fields an operation leaves alone,
  and preservation of a component's invariant.\<close>

named_theorems mem_simps
named_theorems frame_simps
named_theorems inv_intros

lemma unat_add_lt: "unat (a :: u32) + unat b < 2 ^ 32 \<Longrightarrow> unat (a + b) = unat a + unat b"
  by (simp add: unat_word_ariths)

lemma unat_add_num:
  "unat (a :: u32) + numeral k < 2 ^ 32 \<Longrightarrow> unat (a + numeral k) = unat a + numeral k"
proof -
  assume *: "unat a + numeral k < 2 ^ 32"
  have "unat (numeral k :: u32) = unat (of_nat (numeral k) :: u32)"
    by (simp del: of_nat_eq_iff)
  also have "\<dots> = numeral k"
    by (subst unat_of_nat, rule mod_less, rule order_le_less_trans [of _ "unat a + numeral k"])
      (use * in simp_all)
  finally have "unat (numeral k :: u32) = numeral k" .
  with * show ?thesis by (simp add: unat_add_lt)
qed

lemma unat_add_one: "unat (a :: u32) + 1 < 2 ^ 32 \<Longrightarrow> unat (a + 1) = unat a + 1"
  by (simp add: unat_word_ariths)

lemma unat_sub_le: "b \<le> a \<Longrightarrow> unat (a - b :: u32) = unat a - unat b"
  by (simp add: unat_sub)

lemma unat_bound32: "unat (a :: u32) < 4294967296"
  using unsigned_less [of a] by simp

lemma word_eq_by_unat: "unat (a :: u32) = unat b \<Longrightarrow> a = b"
  by (simp add: word_unat_eq_iff)

lemma unat_bound8: "unat (c :: u8) < 256"
  using unsigned_less [of c] by simp

lemma unat_bound16: "unat (c :: u16) < 65536"
  using unsigned_less [of c] by simp

lemma unat_ucast_8_32 [simp]: "unat (ucast (c :: u8) :: u32) = unat c"
  by (simp add: unsigned_ucast_eq take_bit_nat_eq_self order_less_trans [OF unat_bound8])

lemma unat_ucast_8_16 [simp]: "unat (ucast (c :: u8) :: u16) = unat c"
  by (simp add: unsigned_ucast_eq take_bit_nat_eq_self order_less_trans [OF unat_bound8])

lemma unat_ucast_16_32 [simp]: "unat (ucast (c :: u16) :: u32) = unat c"
  by (simp add: unsigned_ucast_eq take_bit_nat_eq_self order_less_trans [OF unat_bound16])

lemma unat_ucast_32_8: "unat (ucast (c :: u32) :: u8) = unat c mod 256"
  by (simp add: unsigned_ucast_eq take_bit_eq_mod)

lemma unat_ucast_16_8: "unat (ucast (c :: u16) :: u8) = unat c mod 256"
  by (simp add: unsigned_ucast_eq take_bit_eq_mod)

lemma unat_ucast_32_16: "unat (ucast (c :: u32) :: u16) = unat c mod 65536"
  by (simp add: unsigned_ucast_eq take_bit_eq_mod)

text \<open>Signed readings of a word.\<close>

lemma sint32: "sint (n :: u32) = (if uint n < 2 ^ 31 then uint n else uint n - 2 ^ 32)"
proof -
  have s: "sint n = (uint n + 2 ^ 31) mod 2 ^ 32 - 2 ^ 31"
    by (simp add: sint_uint signed_take_bit_eq_take_bit_shift take_bit_eq_mod)
  have b: "uint n < 2 ^ 32" "0 \<le> uint n" using uint_bounded [of n] by simp_all
  show ?thesis
  proof (cases "uint n < 2 ^ 31")
    case True
    with b have "(uint n + 2 ^ 31) mod 2 ^ 32 = uint n + 2 ^ 31"
      by (intro mod_pos_pos_trivial) simp_all
    with s True show ?thesis by simp
  next
    case False
    have "(uint n + 2 ^ 31) mod 2 ^ 32 = (uint n + 2 ^ 31 - 2 ^ 32) mod 2 ^ 32"
      by (rule sym, rule minus_mod_self2)
    also have "\<dots> = uint n + 2 ^ 31 - 2 ^ 32"
      using b False by (intro mod_pos_pos_trivial) simp_all
    finally show ?thesis using s False by simp
  qed
qed

lemma unat_minus32: "n \<noteq> 0 \<Longrightarrow> unat (- n :: u32) = 2 ^ 32 - unat n"
  using unat_sub_if_size [of 0 n] by (simp add: word_size unat_eq_0)

lemma sint_neg_unat: "sint (n :: u32) < 0 \<Longrightarrow> int (unat (- n)) = - sint n"
proof -
  assume n: "sint n < 0"
  then have "n \<noteq> 0" by auto
  moreover have "unat n < 2 ^ 32" using unat_bound32 [of n] by simp
  ultimately have "int (unat (- n)) = int (2 ^ 32) - int (unat n)"
    by (metis unat_minus32 of_nat_diff less_imp_le)
  with n show ?thesis using uint_bounded [of n] by (auto simp: sint32 split: if_splits)
qed

lemma sint_nonneg_unat: "0 \<le> sint (n :: u32) \<Longrightarrow> int (unat n) = sint n"
  using uint_bounded [of n] by (auto simp: sint32 split: if_splits)

text \<open>Masks and shifts of the source read as division and remainder.\<close>

lemma and_not_mask_eq: "(w :: 'a::len word) AND NOT (mask n) = push_bit n (drop_bit n w)"
  by (rule bit_word_eqI) (auto simp: bit_simps)

lemma unat_push_drop: "n \<le> 32 \<Longrightarrow> unat (push_bit n (drop_bit n (w :: u32))) = unat w div 2 ^ n * 2 ^ n"
proof -
  have "unat w div 2 ^ n * 2 ^ n \<le> unat w" by (simp add: div_times_less_eq_dividend)
  also have "\<dots> < 2 ^ 32" using unat_bound32 [of w] by simp
  finally have "unat w div 2 ^ n * 2 ^ n < 2 ^ 32" .
  then show ?thesis
    unfolding unsigned_push_bit_eq unat_drop_bit_eq
    by (simp add: push_bit_eq_mult drop_bit_eq_div take_bit_eq_mod)
qed

lemma unat_and_not_mask: "unat ((w :: u32) AND NOT (mask n)) = unat w div 2 ^ n * 2 ^ n" if "n \<le> 32"
  by (simp only: and_not_mask_eq unat_push_drop [OF that])

lemma unat_and_mask: "unat ((w :: u32) AND mask n) = unat w mod 2 ^ n"
  unfolding take_bit_eq_mask [symmetric] unsigned_take_bit_eq by (rule take_bit_eq_mod)

lemma unat_and_not_3: "unat ((w :: u32) AND NOT 3) = unat w div 4 * 4"
  using unat_and_not_mask [of 2 w] by (simp add: mask_eq_exp_minus_1)

lemma unat_and_not_7: "unat ((w :: u32) AND NOT 7) = unat w div 8 * 8"
  using unat_and_not_mask [of 3 w] by (simp add: mask_eq_exp_minus_1)

lemma unat_and_not_FFF: "unat ((w :: u32) AND NOT 0xFFF) = unat w div 4096 * 4096"
  using unat_and_not_mask [of 12 w] by (simp add: mask_eq_exp_minus_1)

lemma unat_and_FFF: "unat ((w :: u32) AND 0xFFF) = unat w mod 4096"
  using unat_and_mask [of w 12] by (simp add: mask_eq_exp_minus_1)

lemma unat_and_3FF: "unat ((w :: u32) AND 0x3FF) = unat w mod 1024"
  using unat_and_mask [of w 10] by (simp add: mask_eq_exp_minus_1)

lemma unat_drop: "unat (drop_bit n (w :: u32)) = unat w div 2 ^ n"
  unfolding unat_drop_bit_eq by (rule drop_bit_eq_div)

section \<open>Physical memory\<close>

type_synonym mem = "u32 \<Rightarrow> u8"

text \<open>A 32-bit little-endian access, as the i686 target makes it.\<close>

definition load32 :: "mem \<Rightarrow> u32 \<Rightarrow> u32" where
  "load32 m a = ucast (m a) OR push_bit 8 (ucast (m (a + 1)))
     OR push_bit 16 (ucast (m (a + 2))) OR push_bit 24 (ucast (m (a + 3)))"

definition store32 :: "mem \<Rightarrow> u32 \<Rightarrow> u32 \<Rightarrow> mem" where
  "store32 m a v = m(a := ucast v, a + 1 := ucast (drop_bit 8 v),
     a + 2 := ucast (drop_bit 16 v), a + 3 := ucast (drop_bit 24 v))"

text \<open>The \<open>n\<close> bytes from an address: as a list, and written from a list.\<close>

primrec load_bytes :: "mem \<Rightarrow> u32 \<Rightarrow> nat \<Rightarrow> u8 list" where
  "load_bytes m a 0 = []"
| "load_bytes m a (Suc n) = m a # load_bytes m (a + 1) n"

primrec store_bytes :: "mem \<Rightarrow> u32 \<Rightarrow> u8 list \<Rightarrow> mem" where
  "store_bytes m a [] = m"
| "store_bytes m a (b # bs) = store_bytes (m(a := b)) (a + 1) bs"

lemma bytes_of_word32:
  "(ucast (ucast v :: u8) OR push_bit 8 (ucast (ucast (drop_bit 8 v) :: u8))
    OR push_bit 16 (ucast (ucast (drop_bit 16 v) :: u8))
    OR push_bit 24 (ucast (ucast (drop_bit 24 v) :: u8))) = (v :: u32)"
proof (rule bit_word_eqI)
  fix n :: nat
  consider "n < 8" | "8 \<le> n" "n < 16" | "16 \<le> n" "n < 24" | "24 \<le> n" by linarith
  then show "bit (ucast (ucast v :: u8) OR push_bit 8 (ucast (ucast (drop_bit 8 v) :: u8))
    OR push_bit 16 (ucast (ucast (drop_bit 16 v) :: u8))
    OR push_bit 24 (ucast (ucast (drop_bit 24 v) :: u8)) :: u32) n = bit v n"
    if "n < LENGTH(32)"
    using that by cases (auto simp: bit_simps)
qed

lemma load32_store32 [simp]: "load32 (store32 m a v) a = v"
  by (simp add: load32_def store32_def bytes_of_word32)

text \<open>Address ranges are compared as natural numbers; none of them wraps.\<close>

lemma store32_other:
  assumes "unat b < unat a \<or> unat a + 4 \<le> unat b" and "unat a + 4 \<le> 2 ^ 32"
  shows "store32 m a v b = m b"
proof -
  have "unat (a + 1) = unat a + 1" "unat (a + 2) = unat a + 2" "unat (a + 3) = unat a + 3"
    using assms(2) by (simp_all add: unat_add_num unat_add_one)
  then have "b \<noteq> a" "b \<noteq> a + 1" "b \<noteq> a + 2" "b \<noteq> a + 3"
    using assms(1) by auto
  then show ?thesis by (simp add: store32_def)
qed

lemma load32_cong:
  assumes "\<And>x. unat a \<le> unat x \<Longrightarrow> unat x < unat a + 4 \<Longrightarrow> m x = m' x"
    and "unat a + 4 \<le> 2 ^ 32"
  shows "load32 m a = load32 m' a"
proof -
  have "unat (a + 1) = unat a + 1" "unat (a + 2) = unat a + 2" "unat (a + 3) = unat a + 3"
    using assms(2) by (simp_all add: unat_add_num unat_add_one)
  then have "m a = m' a" "m (a + 1) = m' (a + 1)" "m (a + 2) = m' (a + 2)"
    "m (a + 3) = m' (a + 3)"
    by (auto intro!: assms(1))
  then show ?thesis by (simp add: load32_def)
qed

lemma load32_store32_other:
  assumes "unat b + 4 \<le> unat a \<or> unat a + 4 \<le> unat b"
    and "unat a + 4 \<le> 2 ^ 32" and "unat b + 4 \<le> 2 ^ 32"
  shows "load32 (store32 m a v) b = load32 m b"
  by (rule load32_cong) (use assms in \<open>auto intro!: store32_other\<close>)

lemma load32_upd_other:
  assumes "unat a < unat b \<or> unat b + 4 \<le> unat a" and "unat b + 4 \<le> 2 ^ 32"
  shows "load32 (m(a := v)) b = load32 m b"
  by (rule load32_cong) (use assms in auto)

lemma length_load_bytes [simp]: "length (load_bytes m a n) = n"
  by (induction n arbitrary: a) auto

lemma nth_load_bytes: "i < n \<Longrightarrow> load_bytes m a n ! i = m (a + of_nat i)"
proof (induction n arbitrary: a i)
  case 0
  then show ?case by simp
next
  case (Suc n)
  then show ?case by (cases i) (auto simp: algebra_simps)
qed

lemma store_bytes_other:
  assumes "unat x < unat a \<or> unat a + length bs \<le> unat x"
    and "unat a + length bs \<le> 2 ^ 32"
  shows "store_bytes m a bs x = m x"
  using assms
proof (induction bs arbitrary: m a)
  case Nil
  then show ?case by simp
next
  case (Cons b bs)
  show ?case
  proof (cases "bs = []")
    case True
    with Cons.prems show ?thesis by auto
  next
    case False
    then have len: "1 \<le> length bs" by (cases bs) auto
    with Cons.prems have "unat a + 1 < 2 ^ 32" by simp
    then have a1: "unat (a + 1) = unat a + 1" by (rule unat_add_one)
    have "store_bytes (m(a := b)) (a + 1) bs x = (m(a := b)) x"
      by (rule Cons.IH) (use Cons.prems a1 in auto)
    also have "\<dots> = m x" using Cons.prems by auto
    finally show ?thesis by simp
  qed
qed

lemma load_store_bytes:
  "unat a + length bs \<le> 2 ^ 32 \<Longrightarrow> load_bytes (store_bytes m a bs) a (length bs) = bs"
proof (induction bs arbitrary: m a)
  case Nil
  then show ?case by simp
next
  case (Cons b bs)
  show ?case
  proof (cases "bs = []")
    case True
    then show ?thesis by simp
  next
    case False
    then have "1 \<le> length bs" by (cases bs) auto
    with Cons.prems have "unat a + 1 < 2 ^ 32" by simp
    then have a1: "unat (a + 1) = unat a + 1" by (rule unat_add_one)
    have "store_bytes (m(a := b)) (a + 1) bs a = (m(a := b)) a"
      by (rule store_bytes_other) (use Cons.prems a1 in auto)
    moreover have "load_bytes (store_bytes (m(a := b)) (a + 1) bs) (a + 1) (length bs) = bs"
      by (rule Cons.IH) (use Cons.prems a1 in auto)
    ultimately show ?thesis by simp
  qed
qed

lemma load32_store_bytes_other:
  assumes "unat b + 4 \<le> unat a \<or> unat a + length bs \<le> unat b"
    and "unat a + length bs \<le> 2 ^ 32" and "unat b + 4 \<le> 2 ^ 32"
  shows "load32 (store_bytes m a bs) b = load32 m b"
  by (rule load32_cong) (use assms in \<open>auto intro!: store_bytes_other\<close>)

section \<open>C strings\<close>

text \<open>
  A C string is the list of its bytes without the terminator; the byte past the end of the
  list reads as the terminating NUL.
\<close>

type_synonym cstr = "u8 list"

definition str :: "string \<Rightarrow> cstr" where
  "str s = map (\<lambda>c. of_nat (of_char c)) s"

primrec hd0 :: "cstr \<Rightarrow> u8" where
  "hd0 [] = 0"
| "hd0 (c # cs) = c"

text \<open>The string a NUL-terminated byte array holds.\<close>

definition cstr_of :: "u8 list \<Rightarrow> cstr" where
  "cstr_of bs = takeWhile (\<lambda>b. b \<noteq> 0) bs"

end
