(* ===== verification/Port_io.thy ===== *)
theory Port_io
  imports Prelude
begin

text \<open>
  Port output (kernel/arch/io.h). The bytes written to I/O ports are observable, so they
  are kept as a trace, oldest first; this trace is the root of the kernel state record.
\<close>

record port_state =
  ports :: "(u16 \<times> u8) list"

definition outb :: "u16 \<Rightarrow> u8 \<Rightarrow> 'a port_state_scheme \<Rightarrow> 'a port_state_scheme" where
  "outb port val s = s\<lparr>ports := ports s @ [(port, val)]\<rparr>"

definition io_wait :: "'a port_state_scheme \<Rightarrow> 'a port_state_scheme" where
  "io_wait s = outb 0x80 0 s"

text \<open>\<open>debug_print\<close> of kernel/kernel.c: every byte of the string to port 0xE9.\<close>

primrec debug_print :: "cstr \<Rightarrow> 'a port_state_scheme \<Rightarrow> 'a port_state_scheme" where
  "debug_print [] s = s"
| "debug_print (c # cs) s = debug_print cs (outb 0xE9 c s)"

lemma ports_outb [simp]: "ports (outb p v s) = ports s @ [(p, v)]"
  by (simp add: outb_def)

lemma ports_debug_print: "ports (debug_print cs s) = ports s @ map (\<lambda>c. (0xE9, c)) cs"
  by (induction cs arbitrary: s) auto

end
