(* ===== verification/Vga.thy ===== *)
theory Vga
  imports Port_io
begin

text \<open>
  The VGA text-mode driver (kernel/drivers/vga.c, vga.h). The 80x25 buffer at 0xB8000 is the
  list \<open>vga_buf\<close> of its 2000 cells; \<open>vga_col\<close>, \<open>vga_row\<close> and \<open>vga_color\<close> are the driver's
  statics. The invariant \<open>vga_inv\<close> keeps the cursor on the screen, which is what makes
  every buffer access of the driver in range.
\<close>

definition VGA_COLS :: nat where "VGA_COLS = 80"
definition VGA_ROWS :: nat where "VGA_ROWS = 25"

datatype vga_color_t =
    VGA_COLOR_BLACK | VGA_COLOR_BLUE | VGA_COLOR_GREEN | VGA_COLOR_CYAN | VGA_COLOR_RED
  | VGA_COLOR_MAGENTA | VGA_COLOR_BROWN | VGA_COLOR_LIGHT_GREY | VGA_COLOR_DARK_GREY
  | VGA_COLOR_LIGHT_BLUE | VGA_COLOR_LIGHT_GREEN | VGA_COLOR_LIGHT_CYAN
  | VGA_COLOR_LIGHT_RED | VGA_COLOR_LIGHT_MAGENTA | VGA_COLOR_YELLOW | VGA_COLOR_WHITE

primrec vga_color_code :: "vga_color_t \<Rightarrow> u32" where
  "vga_color_code VGA_COLOR_BLACK = 0"
| "vga_color_code VGA_COLOR_BLUE = 1"
| "vga_color_code VGA_COLOR_GREEN = 2"
| "vga_color_code VGA_COLOR_CYAN = 3"
| "vga_color_code VGA_COLOR_RED = 4"
| "vga_color_code VGA_COLOR_MAGENTA = 5"
| "vga_color_code VGA_COLOR_BROWN = 6"
| "vga_color_code VGA_COLOR_LIGHT_GREY = 7"
| "vga_color_code VGA_COLOR_DARK_GREY = 8"
| "vga_color_code VGA_COLOR_LIGHT_BLUE = 9"
| "vga_color_code VGA_COLOR_LIGHT_GREEN = 10"
| "vga_color_code VGA_COLOR_LIGHT_CYAN = 11"
| "vga_color_code VGA_COLOR_LIGHT_RED = 12"
| "vga_color_code VGA_COLOR_LIGHT_MAGENTA = 13"
| "vga_color_code VGA_COLOR_YELLOW = 14"
| "vga_color_code VGA_COLOR_WHITE = 15"

text \<open>Attribute byte and 16-bit cell.\<close>

definition vga_make_color :: "vga_color_t \<Rightarrow> vga_color_t \<Rightarrow> u8" where
  "vga_make_color fg bg = ucast (vga_color_code fg OR push_bit 4 (vga_color_code bg))"

definition vga_entry :: "u8 \<Rightarrow> u8 \<Rightarrow> u16" where
  "vga_entry c color = ucast c OR push_bit 8 (ucast color)"

record vga_state = port_state +
  vga_buf :: "u16 list"
  vga_col :: u8
  vga_row :: u8
  vga_color :: u8

definition vga_update_cursor :: "'a vga_state_scheme \<Rightarrow> 'a vga_state_scheme" where
  "vga_update_cursor s =
     (let pos = ucast (vga_row s) * 80 + ucast (vga_col s) :: u16
      in outb 0x3D5 (ucast (pos AND 0xFF)) (outb 0x3D4 15
           (outb 0x3D5 (ucast (drop_bit 8 pos)) (outb 0x3D4 14 s))))"

text \<open>The two loops of \<open>vga_scroll\<close>: copy row \<open>row\<close> over row \<open>row - 1\<close>, blank the last row.\<close>

definition scroll_row :: "nat \<Rightarrow> u16 list \<Rightarrow> u16 list" where
  "scroll_row row b =
     fold (\<lambda>col b. b[(row - 1) * VGA_COLS + col := b ! (row * VGA_COLS + col)])
       [0..<VGA_COLS] b"

definition blank_last_row :: "u16 \<Rightarrow> u16 list \<Rightarrow> u16 list" where
  "blank_last_row e b = fold (\<lambda>col b. b[(VGA_ROWS - 1) * VGA_COLS + col := e]) [0..<VGA_COLS] b"

definition vga_scroll :: "'a vga_state_scheme \<Rightarrow> 'a vga_state_scheme" where
  "vga_scroll s = s\<lparr>vga_buf := blank_last_row (vga_entry 0x20 (vga_color s))
       (fold scroll_row [1..<VGA_ROWS] (vga_buf s)), vga_row := 24\<rparr>"

definition vga_set_color :: "u8 \<Rightarrow> 'a vga_state_scheme \<Rightarrow> 'a vga_state_scheme" where
  "vga_set_color color s = s\<lparr>vga_color := color\<rparr>"

definition vga_get_default_color :: u8 where
  "vga_get_default_color = vga_make_color VGA_COLOR_LIGHT_GREY VGA_COLOR_BLACK"

definition vga_clear :: "'a vga_state_scheme \<Rightarrow> 'a vga_state_scheme" where
  "vga_clear s = vga_update_cursor
     (s\<lparr>vga_buf := fold (\<lambda>i b. b[i := vga_entry 0x20 (vga_color s)])
          [0..<VGA_ROWS * VGA_COLS] (vga_buf s), vga_row := 0, vga_col := 0\<rparr>)"

definition vga_init :: "'a vga_state_scheme \<Rightarrow> 'a vga_state_scheme" where
  "vga_init s = vga_clear
     (s\<lparr>vga_color := vga_make_color VGA_COLOR_LIGHT_GREY VGA_COLOR_BLACK\<rparr>)"

text \<open>Index of the cell under the cursor.\<close>

definition vga_pos :: "'a vga_state_scheme \<Rightarrow> nat" where
  "vga_pos s = unat (vga_row s) * VGA_COLS + unat (vga_col s)"

text \<open>The character cases of \<open>vga_putchar\<close>, before the scroll check and the cursor update.\<close>

definition vga_wrap_col :: "'a vga_state_scheme \<Rightarrow> 'a vga_state_scheme" where
  "vga_wrap_col s = (if 80 \<le> vga_col s then s\<lparr>vga_col := 0, vga_row := vga_row s + 1\<rparr> else s)"

definition vga_place :: "u8 \<Rightarrow> 'a vga_state_scheme \<Rightarrow> 'a vga_state_scheme" where
  "vga_place c s =
     (if c = 0x0A then s\<lparr>vga_col := 0, vga_row := vga_row s + 1\<rparr>
      else if c = 0x0D then s\<lparr>vga_col := 0\<rparr>
      else if c = 0x09 then
        vga_wrap_col (s\<lparr>vga_col := ucast ((ucast (vga_col s) + 8 :: u32) AND NOT 7)\<rparr>)
      else if c = 0x08 then
        (if 0 < vga_col s
         then let s' = s\<lparr>vga_col := vga_col s - 1\<rparr>
              in s'\<lparr>vga_buf := (vga_buf s')[vga_pos s' := vga_entry 0x20 (vga_color s')]\<rparr>
         else s)
      else vga_wrap_col
        (s\<lparr>vga_buf := (vga_buf s)[vga_pos s := vga_entry c (vga_color s)],
           vga_col := vga_col s + 1\<rparr>))"

definition vga_putchar :: "u8 \<Rightarrow> 'a vga_state_scheme \<Rightarrow> 'a vga_state_scheme" where
  "vga_putchar c s =
     (let s1 = vga_place c s;
          s2 = (if 25 \<le> vga_row s1 then vga_scroll s1 else s1)
      in vga_update_cursor s2)"

primrec vga_puts :: "cstr \<Rightarrow> 'a vga_state_scheme \<Rightarrow> 'a vga_state_scheme" where
  "vga_puts [] s = s"
| "vga_puts (c # cs) s = vga_puts cs (vga_putchar c s)"

section \<open>The invariant\<close>

definition vga_inv :: "'a vga_state_scheme \<Rightarrow> bool" where
  "vga_inv s \<longleftrightarrow> length (vga_buf s) = 2000 \<and> vga_row s < 25 \<and> vga_col s < 80"

lemmas vga_dims = VGA_COLS_def VGA_ROWS_def

lemma vga_pos_in_range: "vga_inv s \<Longrightarrow> vga_pos s < length (vga_buf s)"
  by (simp add: vga_inv_def vga_pos_def vga_dims word_less_nat_alt)

lemma length_fold_update: "length (fold (\<lambda>i b. b[f i := g i b]) is b) = length b"
  by (induction "is" arbitrary: b) auto

lemma length_scroll_row [simp]: "length (scroll_row row b) = length b"
  unfolding scroll_row_def by (rule length_fold_update)

lemma length_blank_last_row [simp]: "length (blank_last_row e b) = length b"
  unfolding blank_last_row_def by (rule length_fold_update)

lemma length_fold_scroll [simp]: "length (fold scroll_row rs b) = length b"
  by (induction rs arbitrary: b) auto

lemma vga_update_cursor_fields [simp]:
  "vga_buf (vga_update_cursor s) = vga_buf s" "vga_row (vga_update_cursor s) = vga_row s"
  "vga_col (vga_update_cursor s) = vga_col s" "vga_color (vga_update_cursor s) = vga_color s"
  by (simp_all add: vga_update_cursor_def outb_def Let_def)

lemma vga_inv_update_cursor [simp]: "vga_inv (vga_update_cursor s) = vga_inv s"
  by (simp add: vga_inv_def)

lemma vga_inv_scroll:
  "length (vga_buf s) = 2000 \<Longrightarrow> vga_col s < 80 \<Longrightarrow> vga_inv (vga_scroll s)"
  by (simp add: vga_inv_def vga_scroll_def)

section \<open>Scrolling and clearing\<close>

lemma fold_copy_nth:
  "d + n \<le> src \<Longrightarrow> src + n \<le> length b \<Longrightarrow> i < length b \<Longrightarrow>
   fold (\<lambda>col b. b[d + col := b ! (src + col)]) [0..<n] b ! i =
    (if d \<le> i \<and> i < d + n then b ! (src + (i - d)) else b ! i)"
proof (induction n arbitrary: i)
  case 0
  then show ?case by auto
next
  case (Suc n)
  then show ?case by (auto simp: nth_list_update length_fold_update)
qed

lemma scroll_row_nth:
  assumes "1 \<le> row" and "(row + 1) * 80 \<le> length b" and "i < length b"
  shows "scroll_row row b ! i =
    (if (row - 1) * 80 \<le> i \<and> i < row * 80 then b ! (i + 80) else b ! i)"
proof -
  obtain r where r: "row = Suc r" using assms(1) by (cases row) auto
  have "scroll_row row b ! i = (if r * 80 \<le> i \<and> i < r * 80 + 80
      then b ! (row * 80 + (i - r * 80)) else b ! i)"
    unfolding scroll_row_def VGA_COLS_def r diff_Suc_1
    by (rule fold_copy_nth) (use assms r in auto)
  then show ?thesis using r by (auto simp: algebra_simps)
qed

lemma fold_scroll_nth:
  "(k + 1) * 80 \<le> length b \<Longrightarrow> i < length b \<Longrightarrow>
   fold scroll_row [1..<Suc k] b ! i = (if i < k * 80 then b ! (i + 80) else b ! i)"
proof (induction k arbitrary: i)
  case 0
  then show ?case by simp
next
  case (Suc k)
  have "fold scroll_row [1..<Suc (Suc k)] b = scroll_row (Suc k) (fold scroll_row [1..<Suc k] b)"
    by (subst upt_Suc_append) auto
  with Suc show ?case by (simp add: scroll_row_nth del: upt_Suc)
qed

lemma fold_fill_nth:
  "d + n \<le> length b \<Longrightarrow> i < length b \<Longrightarrow>
   fold (\<lambda>col b. b[d + col := e]) [0..<n] b ! i = (if d \<le> i \<and> i < d + n then e else b ! i)"
proof (induction n arbitrary: i)
  case 0
  then show ?case by auto
next
  case (Suc n)
  then show ?case by (auto simp: nth_list_update length_fold_update)
qed

lemma blank_last_row_eq:
  assumes "length b = 2000"
  shows "blank_last_row e b = take 1920 b @ replicate 80 e"
proof (rule nth_equalityI)
  show "length (blank_last_row e b) = length (take 1920 b @ replicate 80 e)"
    using assms by simp
next
  fix i
  assume "i < length (blank_last_row e b)"
  then have i: "i < length b" by simp
  have "blank_last_row e b ! i = (if 1920 \<le> i \<and> i < 1920 + 80 then e else b ! i)"
    using fold_fill_nth [of 1920 80 b i e] i assms by (simp add: blank_last_row_def vga_dims)
  then show "blank_last_row e b ! i = (take 1920 b @ replicate 80 e) ! i"
    using i assms by (auto simp: nth_append)
qed

lemma vga_scroll_buf:
  assumes "length (vga_buf s) = 2000"
  shows "vga_buf (vga_scroll s) =
    drop 80 (vga_buf s) @ replicate 80 (vga_entry 0x20 (vga_color s))"
proof -
  let ?b = "vga_buf s"
  have 25: "[1..<VGA_ROWS] = [1..<Suc 24]" by (simp add: VGA_ROWS_def)
  have "fold scroll_row [1..<VGA_ROWS] ?b ! i = ?b ! (80 + i)" if "i < 1920" for i
    unfolding 25 using assms that by (subst fold_scroll_nth) (auto simp: add.commute)
  then have "take 1920 (fold scroll_row [1..<VGA_ROWS] ?b) = drop 80 ?b"
    by (intro nth_equalityI) (use assms in auto)
  then show ?thesis
    by (simp add: vga_scroll_def blank_last_row_eq assms)
qed

lemma vga_clear_buf:
  assumes "length (vga_buf s) = 2000"
  shows "vga_buf (vga_clear s) = replicate 2000 (vga_entry 0x20 (vga_color s))"
proof (rule nth_equalityI)
  show "length (vga_buf (vga_clear s)) = length (replicate 2000 (vga_entry 0x20 (vga_color s)))"
    using assms by (simp add: vga_clear_def length_fold_update)
next
  fix i
  assume "i < length (vga_buf (vga_clear s))"
  then have "i < 2000" using assms by (simp add: vga_clear_def length_fold_update)
  then show "vga_buf (vga_clear s) ! i = replicate 2000 (vga_entry 0x20 (vga_color s)) ! i"
    using fold_fill_nth [of 0 2000 "vga_buf s" i "vga_entry 0x20 (vga_color s)"] assms
    by (simp add: vga_clear_def vga_dims)
qed

lemma vga_inv_clear [inv_intros]: "length (vga_buf s) = 2000 \<Longrightarrow> vga_inv (vga_clear s)"
  by (simp add: vga_inv_def vga_clear_buf) (simp add: vga_clear_def)

lemma vga_inv_init [inv_intros]: "length (vga_buf s) = 2000 \<Longrightarrow> vga_inv (vga_init s)"
  by (simp add: vga_init_def vga_inv_clear)

lemma vga_inv_set_color [inv_intros]: "vga_inv s \<Longrightarrow> vga_inv (vga_set_color c s)"
  by (simp add: vga_inv_def vga_set_color_def)

lemma tab_stop_unat:
  assumes "c < (80 :: u8)"
  shows "unat (ucast ((ucast c + 8 :: u32) AND NOT 7) :: u8) = (unat c + 8) div 8 * 8"
proof -
  have c: "unat c < 80" using assms by (simp add: word_less_nat_alt)
  have "unat (ucast c + 8 :: u32) = unat c + 8"
    using c by (subst unat_add_num) simp_all
  then have "unat ((ucast c + 8 :: u32) AND NOT 7) = (unat c + 8) div 8 * 8"
    by (simp only: unat_and_not_7)
  moreover have "(unat c + 8) div 8 * 8 < 256" using c by simp
  ultimately show ?thesis
    by (simp only: unat_ucast_32_8) simp
qed

lemma vga_place_bounds:
  assumes "vga_inv s"
  shows "length (vga_buf (vga_place c s)) = 2000" and "vga_row (vga_place c s) \<le> 25"
    and "vga_col (vga_place c s) < 80"
proof -
  have b: "length (vga_buf s) = 2000" "unat (vga_row s) < 25" "unat (vga_col s) < 80"
    using assms by (auto simp: vga_inv_def word_less_nat_alt)
  show "length (vga_buf (vga_place c s)) = 2000"
    using b by (simp add: vga_place_def vga_wrap_col_def Let_def)
  have r: "unat (vga_row s + 1) = unat (vga_row s) + 1"
    using b by (simp add: unat_word_ariths)
  show "vga_row (vga_place c s) \<le> 25"
    using b r by (auto simp: vga_place_def vga_wrap_col_def Let_def word_le_nat_alt)
  have "vga_col s - 1 < 80" if "0 < vga_col s"
    using b that by (simp add: word_less_nat_alt unat_sub word_le_nat_alt)
  then show "vga_col (vga_place c s) < 80"
    using assms by (auto simp: vga_place_def vga_wrap_col_def Let_def vga_inv_def not_le)
qed

lemma vga_inv_putchar [inv_intros]: "vga_inv s \<Longrightarrow> vga_inv (vga_putchar c s)"
  using vga_place_bounds [of s c]
  by (auto simp: vga_putchar_def Let_def vga_inv_scroll) (auto simp: vga_inv_def not_le)

section \<open>The console interface\<close>

text \<open>
  What the printing code of the kernel relies on: a sink of bytes that keeps its own
  invariant. Clients print strings, and the invariant survives any of them.
\<close>

locale byte_sink =
  fixes putc :: "u8 \<Rightarrow> 's \<Rightarrow> 's" and sink_inv :: "'s \<Rightarrow> bool"
  assumes inv_putc: "sink_inv s \<Longrightarrow> sink_inv (putc c s)"
begin

lemma inv_print: "sink_inv s \<Longrightarrow> sink_inv (fold putc bs s)"
  by (induction bs arbitrary: s) (auto intro: inv_putc)

end

interpretation screen: byte_sink vga_putchar vga_inv
  by unfold_locales (rule vga_inv_putchar)

lemma vga_puts_fold: "vga_puts cs s = fold vga_putchar cs s"
  by (induction cs arbitrary: s) auto

lemma vga_inv_puts [inv_intros]: "vga_inv s \<Longrightarrow> vga_inv (vga_puts cs s)"
  by (simp add: vga_puts_fold screen.inv_print)

text \<open>The driver changes nothing but its own fields and the port trace.\<close>

lemma vga_putchar_frame:
  obtains p b c' r where
    "vga_putchar c s = s\<lparr>ports := p, vga_buf := b, vga_col := c', vga_row := r\<rparr>"
proof -
  have "vga_putchar c s = s\<lparr>ports := ports (vga_putchar c s), vga_buf := vga_buf (vga_putchar c s),
      vga_col := vga_col (vga_putchar c s), vga_row := vga_row (vga_putchar c s)\<rparr>"
    by (simp add: vga_putchar_def vga_place_def vga_wrap_col_def vga_scroll_def
        vga_update_cursor_def outb_def Let_def)
  then show thesis by (rule that)
qed

section \<open>Properties\<close>

lemma vga_putchar_fields:
  "vga_buf (vga_putchar c s) = (let s1 = vga_place c s in
     vga_buf (if 25 \<le> vga_row s1 then vga_scroll s1 else s1))"
  "vga_pos (vga_putchar c s) = (let s1 = vga_place c s in
     vga_pos (if 25 \<le> vga_row s1 then vga_scroll s1 else s1))"
  by (simp_all add: vga_putchar_def vga_pos_def Let_def)

lemma vga_pos_split:
  assumes "vga_inv s"
  shows "vga_pos s = 80 * unat (vga_row s) + unat (vga_col s)" "unat (vga_row s) < 25"
    "unat (vga_col s) < 80"
  using assms by (auto simp: vga_inv_def vga_pos_def vga_dims word_less_nat_alt)

lemma vga_place_printable:
  assumes "vga_inv s" and "c \<notin> {0x08, 0x09, 0x0A, 0x0D}"
  shows "vga_buf (vga_place c s) = (vga_buf s)[vga_pos s := vga_entry c (vga_color s)]"
    and "vga_pos (vga_place c s) = vga_pos s + 1"
    and "vga_color (vga_place c s) = vga_color s"
proof -
  note b = vga_pos_split [OF assms(1)]
  show "vga_buf (vga_place c s) = (vga_buf s)[vga_pos s := vga_entry c (vga_color s)]"
    and "vga_color (vga_place c s) = vga_color s"
    using assms(2) by (auto simp: vga_place_def vga_wrap_col_def)
  have "unat (vga_row s + 1) = unat (vga_row s) + 1" "unat (vga_col s + 1) = unat (vga_col s) + 1"
    using b by (simp_all add: unat_word_ariths)
  then show "vga_pos (vga_place c s) = vga_pos s + 1"
    using assms(2) b
    by (auto simp: vga_place_def vga_wrap_col_def vga_pos_def vga_dims word_le_nat_alt)
qed

text \<open>
  C5. Printing a character that is not a control character stores its cell, in the current
  colour, at the cursor and moves the cursor one cell on; in the last cell of the screen the
  contents also move up one row, the last row is blanked, and the cursor goes to the start of
  the last row.
\<close>

theorem vga_putchar_printable:
  assumes "vga_inv s" and "c \<notin> {0x08, 0x09, 0x0A, 0x0D}"
  shows "vga_buf (vga_putchar c s) =
      (let b = (vga_buf s)[vga_pos s := vga_entry c (vga_color s)]
       in if vga_pos s = 1999
          then drop 80 b @ replicate 80 (vga_entry 0x20 (vga_color s)) else b) \<and>
    vga_pos (vga_putchar c s) = (if vga_pos s = 1999 then 1920 else vga_pos s + 1)"
proof -
  let ?s = "vga_place c s"
  note pl = vga_place_printable [OF assms]
  note bd = vga_place_bounds [OF assms(1), of c]
  have col: "unat (vga_col ?s) < 80" and row: "unat (vga_row ?s) \<le> 25"
    using bd by (auto simp: word_less_nat_alt word_le_nat_alt)
  have pos: "vga_pos ?s = 80 * unat (vga_row ?s) + unat (vga_col ?s)"
    by (simp add: vga_pos_def vga_dims)
  have p: "vga_pos s < 2000" using vga_pos_in_range [OF assms(1)] assms(1) by (simp add: vga_inv_def)
  have top: "25 \<le> vga_row ?s \<longleftrightarrow> vga_pos s = 1999"
    using pl(2) pos col p unfolding word_le_nat_alt by auto
  have "vga_col ?s = 0" if "vga_pos s = 1999"
  proof -
    have "unat (vga_col ?s) = 0" using that pl(2) pos col by presburger
    then show ?thesis by (simp add: unat_eq_0)
  qed
  then have "vga_pos (vga_scroll ?s) = 1920" if "vga_pos s = 1999"
    using that by (simp add: vga_scroll_def vga_pos_def vga_dims)
  with pl top show ?thesis
    by (simp add: vga_putchar_fields Let_def vga_scroll_buf [OF bd(1)])
qed

theorem vga_putchar_printable_witness:
  "let s = \<lparr>ports = [], vga_buf = replicate 2000 0, vga_col = 79, vga_row = 24, vga_color = 7\<rparr>
   in vga_inv s \<and> vga_pos (vga_putchar 0x41 s) = 1920"
proof -
  let ?s = "\<lparr>ports = [], vga_buf = replicate 2000 0, vga_col = 79, vga_row = 24, vga_color = 7\<rparr>"
  have i: "vga_inv ?s" by (simp add: vga_inv_def)
  have p: "vga_pos ?s = 1999" by (simp add: vga_pos_def vga_dims)
  show ?thesis using vga_putchar_printable [of ?s "0x41", OF i] i p by (simp add: Let_def)
qed

text \<open>
  C6. After every character, whichever it is, the driver's cursor is on the screen (so
  every buffer access is in range) and the last four port writes load the VGA cursor registers
  with exactly the linear position of that cursor.
\<close>

theorem vga_cursor_tracks:
  assumes "vga_inv s"
  shows "\<exists>p hi lo. ports (vga_putchar c s) =
      p @ [(0x3D4, 14), (0x3D5, hi), (0x3D4, 15), (0x3D5, lo)] \<and>
    256 * unat hi + unat lo = vga_pos (vga_putchar c s) \<and> vga_inv (vga_putchar c s)"
proof -
  define t where "t = (if 25 \<le> vga_row (vga_place c s) then vga_scroll (vga_place c s) else vga_place c s)"
  have t: "vga_putchar c s = vga_update_cursor t"
    by (simp add: vga_putchar_def t_def Let_def)
  have inv: "vga_inv (vga_putchar c s)" by (rule vga_inv_putchar [OF assms])
  then have "vga_inv t" by (simp add: t)
  note b = vga_pos_split [OF this]
  define pos :: u16 where "pos = ucast (vga_row t) * 80 + ucast (vga_col t)"
  have pos: "unat pos = vga_pos t"
    using b by (simp add: pos_def unat_word_ariths)
  have "256 * unat (ucast (drop_bit 8 pos) :: u8) + unat (ucast (pos AND 0xFF) :: u8) = unat pos"
  proof -
    have "unat (ucast (drop_bit 8 pos) :: u8) = unat pos div 256"
      using unat_bound16 [of pos] unfolding unat_ucast_16_8 unat_drop_bit_eq
      by (simp add: drop_bit_eq_div)
    moreover have "unat (ucast (pos AND mask 8) :: u8) = unat pos mod 256"
      unfolding unat_ucast_16_8 take_bit_eq_mask [symmetric] unsigned_take_bit_eq
      by (simp add: take_bit_eq_mod)
    ultimately show ?thesis by (simp add: mask_eq_exp_minus_1)
  qed
  with pos inv show ?thesis
    unfolding t by (auto simp: vga_update_cursor_def Let_def pos_def vga_pos_def outb_def)
qed
theorem vga_cursor_tracks_witness:
  "let s = \<lparr>ports = [], vga_buf = replicate 2000 0, vga_col = 3, vga_row = 24, vga_color = 7\<rparr>
   in vga_inv s \<and> vga_inv (vga_putchar 0x0A s)"
proof -
  let ?s = "\<lparr>ports = [], vga_buf = replicate 2000 0, vga_col = 3, vga_row = 24, vga_color = 7\<rparr>"
  have i: "vga_inv ?s" by (simp add: vga_inv_def)
  show ?thesis using vga_cursor_tracks [of ?s "0x0A", OF i] i by (auto simp: Let_def)
qed

end
