(* ===== verification/Kprintf.thy ===== *)
theory Kprintf
  imports Vga
begin

text \<open>
  Formatted console output (kernel/kernel.c). A variadic slot is a word or the string its
  pointer designates (\<open>None\<close> for a NULL pointer); a call that passes fewer slots than its
  format asks for is outside C, and the model prints nothing for the missing one. A format
  that ends in a lone percent sign makes the source read past the terminator; the model
  stops after the two characters it prints.
\<close>

datatype varg = AWord u32 | AStr "cstr option"

text \<open>The digit buffer of \<open>print_uint\<close>, least significant digit first. Both callers pass base
  10 or 16; a base below 2 would divide by zero or loop and is left out of the recursion.\<close>

definition digit_char :: "u32 \<Rightarrow> u8" where
  "digit_char d = str ''0123456789abcdef'' ! unat d"

lemma word_div_less: "n \<noteq> 0 \<Longrightarrow> 2 \<le> (b :: u32) \<Longrightarrow> unat (n div b) < unat n"
  unfolding unat_div word_le_nat_alt by (rule div_less_dividend) (auto simp: unat_gt_0)

function uint_digits :: "u32 \<Rightarrow> u32 \<Rightarrow> u8 list" where
  "uint_digits n b =
     (if n = 0 \<or> b < 2 then [] else digit_char (n mod b) # uint_digits (n div b) b)"
  by pat_completeness auto
termination
  by (relation "measure (\<lambda>(n, b). unat n)") (auto simp: not_less intro!: word_div_less)

declare uint_digits.simps [simp del]

definition print_uint :: "u32 \<Rightarrow> u32 \<Rightarrow> 'a vga_state_scheme \<Rightarrow> 'a vga_state_scheme" where
  "print_uint n b s =
     (if n = 0 then vga_putchar 0x30 s else fold vga_putchar (rev (uint_digits n b)) s)"

definition print_int :: "u32 \<Rightarrow> 'a vga_state_scheme \<Rightarrow> 'a vga_state_scheme" where
  "print_int n s =
     (if sint n < 0 then print_uint (- (n + 1) + 1) 10 (vga_putchar 0x2D s)
      else print_uint n 10 s)"

fun va_word :: "varg list \<Rightarrow> u32 \<times> varg list" where
  "va_word (AWord w # args) = (w, args)"
| "va_word (_ # args) = (0, args)"
| "va_word [] = (0, [])"

fun va_str :: "varg list \<Rightarrow> cstr option \<times> varg list" where
  "va_str (AStr p # args) = (p, args)"
| "va_str (_ # args) = (Some [], args)"
| "va_str [] = (Some [], [])"

text \<open>One conversion: the letter after the percent sign, the slots, the state.\<close>

definition kprintf_conv ::
  "u8 \<Rightarrow> varg list \<Rightarrow> 'a vga_state_scheme \<Rightarrow> varg list \<times> 'a vga_state_scheme" where
  "kprintf_conv f args s =
     (if f = 0x73 then (let (p, args') = va_str args in
        (args', vga_puts (case p of Some cs \<Rightarrow> cs | None \<Rightarrow> str ''(null)'') s))
      else if f = 0x64 then (let (n, args') = va_word args in (args', print_int n s))
      else if f = 0x75 then (let (n, args') = va_word args in (args', print_uint n 10 s))
      else if f = 0x78 then (let (n, args') = va_word args in (args', print_uint n 16 s))
      else if f = 0x58 then (let (n, args') = va_word args in (args', print_uint n 16 s))
      else if f = 0x63 then (let (n, args') = va_word args in (args', vga_putchar (ucast n) s))
      else if f = 0x70 then (let (n, args') = va_word args in
        (args', print_uint n 16 (vga_puts (str ''0x'') s)))
      else if f = 0x25 then (args, vga_putchar 0x25 s)
      else (args, vga_putchar f (vga_putchar 0x25 s)))"

fun kprintf_loop :: "cstr \<Rightarrow> varg list \<Rightarrow> 'a vga_state_scheme \<Rightarrow> 'a vga_state_scheme" where
  "kprintf_loop [] args s = s"
| "kprintf_loop (c # fmt) args s =
     (if c \<noteq> 0x25 then kprintf_loop fmt args (vga_putchar c s)
      else case fmt of
        [] \<Rightarrow> vga_putchar 0 (vga_putchar 0x25 s)
      | f # fmt' \<Rightarrow> (case kprintf_conv f args s of (args', s') \<Rightarrow> kprintf_loop fmt' args' s'))"

definition kprintf :: "string \<Rightarrow> varg list \<Rightarrow> 'a vga_state_scheme \<Rightarrow> 'a vga_state_scheme" where
  "kprintf fmt args s = kprintf_loop (str fmt) args s"

section \<open>The text a number is printed as\<close>

definition uint_text :: "u32 \<Rightarrow> u32 \<Rightarrow> cstr" where
  "uint_text n b = (if n = 0 then [0x30] else rev (uint_digits n b))"

definition int_text :: "u32 \<Rightarrow> cstr" where
  "int_text n = (if sint n < 0 then 0x2D # uint_text (- n) 10 else uint_text n 10)"

text \<open>Reading digits back.\<close>

definition digit_val :: "u8 \<Rightarrow> nat" where
  "digit_val c = (if unat c < 0x3A then unat c - 0x30 else unat c - 0x61 + 10)"

definition text_value :: "nat \<Rightarrow> cstr \<Rightarrow> nat" where
  "text_value b cs = foldl (\<lambda>a c. a * b + digit_val c) 0 cs"

lemma digit_val_char: "unat d < 16 \<Longrightarrow> digit_val (digit_char d) = unat d"
proof -
  have "list_all (\<lambda>i. digit_val (str ''0123456789abcdef'' ! i) = i) [0..<16]"
    by code_simp
  then show "unat d < 16 \<Longrightarrow> ?thesis" by (simp add: digit_char_def list_all_iff)
qed

lemma text_value_snoc: "text_value b (cs @ [c]) = text_value b cs * b + digit_val c"
  by (simp add: text_value_def)

lemma text_value_digits:
  assumes "2 \<le> b" and "b \<le> 16"
  shows "text_value (unat b) (rev (uint_digits n b)) = unat n"
  using assms
proof (induction n b rule: uint_digits.induct)
  case (1 n b)
  show ?case
  proof (cases "n = 0")
    case True
    then show ?thesis by (subst uint_digits.simps) (simp add: text_value_def)
  next
    case False
    have b: "2 \<le> unat b" "unat b \<le> 16" using "1.prems" by (simp_all add: word_le_nat_alt)
    have "unat (n mod b) < 16"
      unfolding unat_mod using b by (intro less_le_trans [OF mod_less_divisor]) auto
    moreover have "text_value (unat b) (rev (uint_digits (n div b) b)) = unat (n div b)"
      using "1.IH" "1.prems" False by (simp add: not_less)
    moreover have "\<not> b < 2" using "1.prems" by (simp add: not_less)
    ultimately show ?thesis
      using False by (subst uint_digits.simps)
        (simp add: text_value_snoc digit_val_char unat_div unat_mod)
  qed
qed

lemma length_uint_digits: "2 \<le> b \<Longrightarrow> unat n < 2 ^ k \<Longrightarrow> length (uint_digits n b) \<le> k"
proof (induction k arbitrary: n)
  case 0
  then have "n = 0" by (simp add: unat_eq_0)
  then show ?case by (simp add: uint_digits.simps)
next
  case (Suc k)
  have "unat (n div b) \<le> unat n div 2"
    unfolding unat_div using Suc.prems(1) by (intro div_le_mono2) (auto simp: word_le_nat_alt)
  also have "\<dots> < 2 ^ k" using Suc.prems(2) by simp
  finally have "length (uint_digits (n div b) b) \<le> k"
    using Suc.prems(1) by (intro Suc.IH)
  then show ?case by (subst uint_digits.simps) simp
qed

lemma print_uint_text: "print_uint n b s = fold vga_putchar (uint_text n b) s"
  by (simp add: print_uint_def uint_text_def)

lemma print_int_text: "print_int n s = fold vga_putchar (int_text n) s"
proof -
  have "- (n + 1) + 1 = - n" by simp
  then show ?thesis by (simp add: print_int_def int_text_def print_uint_text)
qed

section \<open>The text kprintf prints\<close>

definition conv_text :: "u8 \<Rightarrow> varg list \<Rightarrow> varg list \<times> cstr" where
  "conv_text f args =
     (if f = 0x73 then (let (p, args') = va_str args in
        (args', case p of Some cs \<Rightarrow> cs | None \<Rightarrow> str ''(null)''))
      else if f = 0x64 then (let (n, args') = va_word args in (args', int_text n))
      else if f = 0x75 then (let (n, args') = va_word args in (args', uint_text n 10))
      else if f = 0x78 \<or> f = 0x58 then (let (n, args') = va_word args in (args', uint_text n 16))
      else if f = 0x63 then (let (n, args') = va_word args in (args', [ucast n]))
      else if f = 0x70 then
        (let (n, args') = va_word args in (args', str ''0x'' @ uint_text n 16))
      else if f = 0x25 then (args, [0x25])
      else (args, [0x25, f]))"

fun kformat :: "cstr \<Rightarrow> varg list \<Rightarrow> cstr" where
  "kformat [] args = []"
| "kformat (c # fmt) args =
     (if c \<noteq> 0x25 then c # kformat fmt args
      else case fmt of
        [] \<Rightarrow> [0x25, 0]
      | f # fmt' \<Rightarrow> (case conv_text f args of (args', t) \<Rightarrow> t @ kformat fmt' args'))"

lemma kprintf_conv_text:
  "kprintf_conv f args s = (case conv_text f args of (args', t) \<Rightarrow> (args', fold vga_putchar t s))"
  by (cases "va_str args"; cases "va_word args")
    (simp add: kprintf_conv_def conv_text_def vga_puts_fold print_uint_text print_int_text)

lemma kprintf_loop_text: "kprintf_loop fmt args s = fold vga_putchar (kformat fmt args) s"
proof (induction fmt args s rule: kprintf_loop.induct)
  case (1 args s)
  then show ?case by simp
next
  case (2 c fmt args s)
  then show ?case
    by (auto simp: kprintf_conv_text split: list.splits prod.splits)
qed

lemma fold_putchar_frame:
  obtains p b c r where
    "fold vga_putchar t s = s\<lparr>ports := p, vga_buf := b, vga_col := c, vga_row := r\<rparr>"
proof -
  have "\<exists>p b c r. fold vga_putchar t s = s\<lparr>ports := p, vga_buf := b, vga_col := c, vga_row := r\<rparr>"
  proof (induction t arbitrary: s)
    case Nil
    have "s = s\<lparr>ports := ports s, vga_buf := vga_buf s, vga_col := vga_col s, vga_row := vga_row s\<rparr>"
      by simp
    then show ?case by (metis fold_simps(1))
  next
    case (Cons x t)
    obtain p b c r where 1: "vga_putchar x s = s\<lparr>ports := p, vga_buf := b, vga_col := c, vga_row := r\<rparr>"
      by (rule vga_putchar_frame)
    from Cons.IH [of "vga_putchar x s"] show ?case by (auto simp: 1)
  qed
  then show thesis using that by blast
qed

lemma kprintf_frame:
  obtains p b c r where
    "kprintf f args s = s\<lparr>ports := p, vga_buf := b, vga_col := c, vga_row := r\<rparr>"
  unfolding kprintf_def kprintf_loop_text by (rule fold_putchar_frame)

lemma vga_inv_kprintf [inv_intros]: "vga_inv s \<Longrightarrow> vga_inv (kprintf f args s)"
  unfolding kprintf_def kprintf_loop_text by (rule screen.inv_print)

section \<open>Properties\<close>


text \<open>
  The digits \<open>print_uint\<close> prints, in decimal or hexadecimal, read back as the number
  printed, and they always fit the 32-byte stack buffer the digits are collected in.
\<close>

theorem print_uint_roundtrip:
  assumes "b = 10 \<or> b = 16"
  shows "text_value (unat b) (uint_text n b) = unat n \<and> length (uint_digits n b) \<le> 32
    \<and> print_uint n b s = fold vga_putchar (uint_text n b) s"
proof -
  have b: "2 \<le> b" "b \<le> 16" using assms by auto
  have "unat n < 2 ^ 32" using unat_bound32 [of n] by simp
  with b have "length (uint_digits n b) \<le> 32" by (intro length_uint_digits)
  moreover have "text_value (unat b) (uint_text n b) = unat n"
    using text_value_digits [OF b, of n] by (simp add: uint_text_def text_value_def digit_val_def)
  ultimately show ?thesis by (simp add: print_uint_text)
qed

theorem print_uint_roundtrip_witness:
  "text_value 16 (uint_text 0x2BADB002 16) = 0x2BADB002"
  using conjunct1 [OF print_uint_roundtrip [of 16 "0x2BADB002"]] by simp

text \<open>
  \<open>print_int\<close> prints every 32-bit signed number, the most negative one included, as its
  sign and the decimal digits of its magnitude.
\<close>

theorem print_int_roundtrip:
  "\<exists>t. print_int n s = fold vga_putchar ((if sint n < 0 then [0x2D] else []) @ t) s \<and>
     int (text_value 10 t) = \<bar>sint n\<bar>"
proof -
  have v: "text_value 10 (uint_text m 10) = unat m" for m
    using text_value_digits [of 10 m] by (simp add: uint_text_def text_value_def digit_val_def)
  show ?thesis
  proof (cases "sint n < 0")
    case True
    then show ?thesis using v [of "- n"] sint_neg_unat [of n]
      by (intro exI [of _ "uint_text (- n) 10"]) (simp add: print_int_text int_text_def)
  next
    case False
    then show ?thesis using v [of n] sint_nonneg_unat [of n]
      by (intro exI [of _ "uint_text n 10"]) (simp add: print_int_text int_text_def)
  qed
qed

end
