(* ===== verification/Multiboot.thy ===== *)
theory Multiboot
  imports Kprintf
begin

text \<open>
  Physical memory as part of the kernel state, and the Multiboot structures GRUB leaves in
  it (include/multiboot.h). The structures are packed, so a field is a 32-bit load at its
  byte offset.
\<close>

record mem_state = vga_state +
  mem :: mem

lemma mem_kprintf [simp]: "mem (kprintf f args s) = mem s"
  by (rule kprintf_frame [of f args s]) simp

record multiboot_info =
  flags :: u32
  mem_lower :: u32
  mem_upper :: u32
  mods_count :: u32
  mods_addr :: u32
  mmap_length :: u32
  mmap_addr :: u32

definition MBOOT_FLAG_MEM :: u32 where "MBOOT_FLAG_MEM = 1"
definition MBOOT_FLAG_MODS :: u32 where "MBOOT_FLAG_MODS = 8"
definition MBOOT_FLAG_MMAP :: u32 where "MBOOT_FLAG_MMAP = 64"

definition read_mbi :: "mem \<Rightarrow> u32 \<Rightarrow> multiboot_info" where
  "read_mbi m p = \<lparr>flags = load32 m p, mem_lower = load32 m (p + 4),
     mem_upper = load32 m (p + 8), mods_count = load32 m (p + 20),
     mods_addr = load32 m (p + 24), mmap_length = load32 m (p + 44),
     mmap_addr = load32 m (p + 48)\<rparr>"

record mmap_entry =
  entry_size :: u32
  base_low :: u32
  base_high :: u32
  length_low :: u32
  length_high :: u32
  entry_type :: u32

definition read_mmap_entry :: "mem \<Rightarrow> u32 \<Rightarrow> mmap_entry" where
  "read_mmap_entry m e = \<lparr>entry_size = load32 m e, base_low = load32 m (e + 4),
     base_high = load32 m (e + 8), length_low = load32 m (e + 12),
     length_high = load32 m (e + 16), entry_type = load32 m (e + 20)\<rparr>"

record multiboot_mod =
  mod_start :: u32
  mod_end :: u32

definition read_mod :: "mem \<Rightarrow> u32 \<Rightarrow> multiboot_mod" where
  "read_mod m p = \<lparr>mod_start = load32 m p, mod_end = load32 m (p + 4)\<rparr>"

end
