(* ===== verification/Pmm.thy ===== *)
theory Pmm
  imports Multiboot
begin

text \<open>
  The physical memory manager (kernel/mm/pmm.c): one bit per 4 KB frame, a set bit for a
  used frame. The bitmap is the list of its 2048 words. \<open>frame_used\<close> reads a bit,
  \<open>free_frames\<close> is the abstract state (the set of frames the allocator may hand out), and
  \<open>pmm_inv\<close> ties the counter \<open>used_pages\<close> to the bitmap.
\<close>

definition PMM_PAGES_MAX :: u32 where "PMM_PAGES_MAX = 65536"

record pmm_state = mem_state +
  bitmap :: "u32 list"
  total_pages :: u32
  used_pages :: u32

section \<open>The source, function by function\<close>

definition bit_set :: "u32 \<Rightarrow> 'a pmm_state_scheme \<Rightarrow> 'a pmm_state_scheme" where
  "bit_set frame s = (let i = unat (frame div 32) in
     s\<lparr>bitmap := (bitmap s)[i := bitmap s ! i OR push_bit (unat (frame mod 32)) 1]\<rparr>)"

definition bit_clear :: "u32 \<Rightarrow> 'a pmm_state_scheme \<Rightarrow> 'a pmm_state_scheme" where
  "bit_clear frame s = (let i = unat (frame div 32) in
     s\<lparr>bitmap := (bitmap s)[i := bitmap s ! i AND NOT (push_bit (unat (frame mod 32)) 1)]\<rparr>)"

definition bit_test :: "u32 \<Rightarrow> 'a pmm_state_scheme \<Rightarrow> bool" where
  "bit_test frame s =
     (drop_bit (unat (frame mod 32)) (bitmap s ! unat (frame div 32)) AND 1 \<noteq> 0)"

lemma page_step_decreases: "page < PMM_PAGES_MAX \<Longrightarrow> 65536 - unat (page + 1) < 65536 - unat page"
proof -
  assume "page < PMM_PAGES_MAX"
  then have "unat page < 65536" by (simp add: PMM_PAGES_MAX_def word_less_nat_alt)
  then show ?thesis by (simp add: unat_add_one)
qed

function free_pages :: "u32 \<Rightarrow> u32 \<Rightarrow> 'a pmm_state_scheme \<Rightarrow> 'a pmm_state_scheme" where
  "free_pages page stop s =
     (if page < stop \<and> page < PMM_PAGES_MAX then
        free_pages (page + 1) stop
          (if bit_test page s
           then (bit_clear page s)\<lparr>used_pages := used_pages s - 1\<rparr> else s)
      else s)"
  by pat_completeness auto
termination
  by (relation "measure (\<lambda>(page, stop, s). 65536 - unat page)") (auto intro: page_step_decreases)

definition pmm_free_region :: "u32 \<Rightarrow> u32 \<Rightarrow> 'a pmm_state_scheme \<Rightarrow> 'a pmm_state_scheme" where
  "pmm_free_region base len s = free_pages (base div 4096) ((base + len) div 4096) s"

function mark_pages :: "u32 \<Rightarrow> u32 \<Rightarrow> 'a pmm_state_scheme \<Rightarrow> 'a pmm_state_scheme" where
  "mark_pages page stop s =
     (if page < stop \<and> page < PMM_PAGES_MAX then
        mark_pages (page + 1) stop
          (if \<not> bit_test page s
           then (bit_set page s)\<lparr>used_pages := used_pages s + 1\<rparr> else s)
      else s)"
  by pat_completeness auto
termination
  by (relation "measure (\<lambda>(page, stop, s). 65536 - unat page)") (auto intro: page_step_decreases)

declare free_pages.simps [simp del] mark_pages.simps [simp del]

definition pmm_mark_region_used :: "u32 \<Rightarrow> u32 \<Rightarrow> 'a pmm_state_scheme \<Rightarrow> 'a pmm_state_scheme" where
  "pmm_mark_region_used base len s =
     mark_pages (base div 4096) ((base + len + 4096 - 1) div 4096) s"

definition pmm_get_total_pages :: "'a pmm_state_scheme \<Rightarrow> u32" where
  "pmm_get_total_pages s = total_pages s"

definition pmm_get_free_pages :: "'a pmm_state_scheme \<Rightarrow> u32" where
  "pmm_get_free_pages s = total_pages s - used_pages s"

definition pmm_get_used_pages :: "'a pmm_state_scheme \<Rightarrow> u32" where
  "pmm_get_used_pages s = used_pages s"

text \<open>The body of the memory-map loop for one entry, and the loop. The loop need not end:
  an entry whose size field is 0xFFFFFFFC leaves the offset where it is.\<close>

definition mmap_entry_free :: "mmap_entry \<Rightarrow> 'a pmm_state_scheme \<Rightarrow> 'a pmm_state_scheme" where
  "mmap_entry_free e s =
     (if entry_type e = 1 then
        if base_high e = 0 \<and> length_high e = 0
        then pmm_free_region (base_low e) (length_low e) s
        else if base_high e = 0
        then pmm_free_region (base_low e) (0xFFFFFFFF - base_low e + 1) s
        else s
      else s)"

partial_function (option) mmap_walk ::
  "u32 \<Rightarrow> u32 \<Rightarrow> u32 \<Rightarrow> 'a pmm_state_scheme \<Rightarrow> 'a pmm_state_scheme option" where
  "mmap_walk addr len offset s =
     (if offset < len then
        (let e = read_mmap_entry (mem s) (addr + offset)
         in mmap_walk addr len (offset + (entry_size e + 4)) (mmap_entry_free e s))
      else Some s)"

definition pmm_total_of :: "multiboot_info \<Rightarrow> u32" where
  "pmm_total_of mbi =
     (let mem_kb = (if flags mbi AND MBOOT_FLAG_MEM \<noteq> 0 then mem_upper mbi + 1024 else 64 * 1024);
          total = mem_kb * 1024 div 4096
      in if PMM_PAGES_MAX < total then PMM_PAGES_MAX else total)"

text \<open>\<open>pmm_init\<close>; \<open>kend\<close> is the linker symbol \<open>kernel_end\<close>, and \<open>kernel_start\<close> is 0x100000.\<close>

definition pmm_init :: "u32 \<Rightarrow> u32 \<Rightarrow> 'a pmm_state_scheme \<Rightarrow> 'a pmm_state_scheme option" where
  "pmm_init kend p s =
     (let mbi = read_mbi (mem s) p;
          total = pmm_total_of mbi;
          s1 = s\<lparr>total_pages := total, used_pages := total,
                 bitmap := map (\<lambda>_. 0xFFFFFFFF) [0..<2048]\<rparr>
      in case (if flags mbi AND MBOOT_FLAG_MMAP \<noteq> 0
               then mmap_walk (mmap_addr mbi) (mmap_length mbi) 0 s1
               else Some (pmm_free_region 0x100000 ((total - 256) * 4096) s1)) of
           None \<Rightarrow> None
         | Some s2 \<Rightarrow>
             (let s3 = (if \<not> bit_test 0 s2
                        then (bit_set 0 s2)\<lparr>used_pages := used_pages s2 + 1\<rparr> else s2);
                  s4 = pmm_mark_region_used 0x100000 (kend - 0x100000) s3
              in Some (kprintf ''[PMM] Total: %u MB  Free: %u MB  Used by kernel: %u KB\<newline>''
                   [AWord (total_pages s4 * 4096 div (1024 * 1024)),
                    AWord (pmm_get_free_pages s4 * 4096 div (1024 * 1024)),
                    AWord ((kend - 0x100000) div 1024)] s4)))"

text \<open>\<open>pmm_alloc_page\<close>: the inner loop over the bits of word \<open>i\<close> returns \<open>None\<close> when it falls
  through and \<open>Some r\<close> when the function returns the address \<open>r\<close> (0 is NULL).\<close>

function scan_word :: "nat \<Rightarrow> nat \<Rightarrow> 'a pmm_state_scheme \<Rightarrow> u32 option \<times> 'a pmm_state_scheme" where
  "scan_word i b s =
     (if b < 32 then
        let page = of_nat i * 32 + of_nat b in
        if total_pages s \<le> page then (Some 0, s)
        else if \<not> bit_test page s
        then (Some (page * 4096), (bit_set page s)\<lparr>used_pages := used_pages s + 1\<rparr>)
        else scan_word i (Suc b) s
      else (None, s))"
  by pat_completeness auto
termination
  by (relation "measure (\<lambda>(i, b, s). 32 - b)") auto

function scan_bitmap :: "nat \<Rightarrow> 'a pmm_state_scheme \<Rightarrow> u32 \<times> 'a pmm_state_scheme" where
  "scan_bitmap i s =
     (if i < 2048 then
        if bitmap s ! i = 0xFFFFFFFF then scan_bitmap (Suc i) s
        else (case scan_word i 0 s of
                (Some r, s') \<Rightarrow> (r, s')
              | (None, s') \<Rightarrow> scan_bitmap (Suc i) s')
      else (0, s))"
  by pat_completeness auto
termination
  by (relation "measure (\<lambda>(i, s). 2048 - i)") auto

declare scan_word.simps [simp del] scan_bitmap.simps [simp del]

definition pmm_alloc_page :: "'a pmm_state_scheme \<Rightarrow> u32 \<times> 'a pmm_state_scheme" where
  "pmm_alloc_page s = scan_bitmap 0 s"

definition pmm_free_page :: "u32 \<Rightarrow> 'a pmm_state_scheme \<Rightarrow> 'a pmm_state_scheme" where
  "pmm_free_page p s =
     (let frame = p div 4096 in
      if total_pages s \<le> frame then s
      else if bit_test frame s
      then (bit_clear frame s)\<lparr>used_pages := used_pages s - 1\<rparr>
      else s)"

section \<open>Frames\<close>

definition frame_used :: "'a pmm_state_scheme \<Rightarrow> nat \<Rightarrow> bool" where
  "frame_used s f = bit (bitmap s ! (f div 32)) (f mod 32)"

definition free_set :: "'a pmm_state_scheme \<Rightarrow> nat set" where
  "free_set s = {f. f < 65536 \<and> \<not> frame_used s f}"

definition free_frames :: "'a pmm_state_scheme \<Rightarrow> nat set" where
  "free_frames s = {f. f < unat (total_pages s) \<and> \<not> frame_used s f}"

definition pmm_wf :: "'a pmm_state_scheme \<Rightarrow> bool" where
  "pmm_wf s \<longleftrightarrow> length (bitmap s) = 2048 \<and> unat (total_pages s) \<le> 65536 \<and>
     used_pages s = total_pages s - of_nat (card (free_set s))"

lemma bit_test_used [simp]: "bit_test frame s = frame_used s (unat frame)"
proof -
  have *: "(x AND 1 \<noteq> (0 :: u32)) = bit x 0" for x
    by (simp add: and_one_eq odd_iff_mod_2_eq_one [symmetric] bit_0)
  show ?thesis
    unfolding bit_test_def frame_used_def * by (simp add: bit_drop_bit_eq unat_div unat_mod)
qed

lemma frame_used_bit_set:
  assumes "length (bitmap s) = 2048" and "unat frame < 65536" and "f < 65536"
  shows "frame_used (bit_set frame s) f = (f = unat frame \<or> frame_used s f)"
proof (cases "f div 32 = unat frame div 32")
  case True
  then have "f = unat frame \<longleftrightarrow> f mod 32 = unat frame mod 32"
    by (metis div_mult_mod_eq)
  with True assms show ?thesis
    by (auto simp: frame_used_def bit_set_def Let_def unat_div unat_mod bit_simps)
next
  case False
  with assms show ?thesis
    by (auto simp: frame_used_def bit_set_def Let_def unat_div)
qed

lemma frame_used_bit_clear:
  assumes "length (bitmap s) = 2048" and "unat frame < 65536" and "f < 65536"
  shows "frame_used (bit_clear frame s) f = (f \<noteq> unat frame \<and> frame_used s f)"
proof (cases "f div 32 = unat frame div 32")
  case True
  then have "f = unat frame \<longleftrightarrow> f mod 32 = unat frame mod 32"
    by (metis div_mult_mod_eq)
  with True assms show ?thesis
    by (auto simp: frame_used_def bit_clear_def Let_def unat_div unat_mod bit_simps)
next
  case False
  with assms show ?thesis
    by (auto simp: frame_used_def bit_clear_def Let_def unat_div)
qed

lemma bit_set_fields [simp]:
  "length (bitmap (bit_set f s)) = length (bitmap s)" "total_pages (bit_set f s) = total_pages s"
  "used_pages (bit_set f s) = used_pages s" "mem (bit_set f s) = mem s"
  by (simp_all add: bit_set_def Let_def)

lemma bit_clear_fields [simp]:
  "length (bitmap (bit_clear f s)) = length (bitmap s)"
  "total_pages (bit_clear f s) = total_pages s"
  "used_pages (bit_clear f s) = used_pages s" "mem (bit_clear f s) = mem s"
  by (simp_all add: bit_clear_def Let_def)

lemma frame_used_upd [simp]: "frame_used (s\<lparr>used_pages := u\<rparr>) f = frame_used s f"
  by (simp add: frame_used_def)

lemma free_set_upd [simp]: "free_set (s\<lparr>used_pages := u\<rparr>) = free_set s"
  by (simp add: free_set_def)

lemma finite_free_set [simp]: "finite (free_set s)"
  by (simp add: free_set_def)

lemma finite_free_frames [simp]: "finite (free_frames s)"
  by (simp add: free_frames_def)

lemma free_set_bit_set:
  "length (bitmap s) = 2048 \<Longrightarrow> unat frame < 65536 \<Longrightarrow>
   free_set (bit_set frame s) = free_set s - {unat frame}"
  by (auto simp: free_set_def frame_used_bit_set)

lemma free_set_bit_clear:
  "length (bitmap s) = 2048 \<Longrightarrow> unat frame < 65536 \<Longrightarrow>
   free_set (bit_clear frame s) = insert (unat frame) (free_set s)"
  by (auto simp: free_set_def frame_used_bit_clear)

text \<open>The two counted updates every operation is made of.\<close>

definition take_frame :: "u32 \<Rightarrow> 'a pmm_state_scheme \<Rightarrow> 'a pmm_state_scheme" where
  "take_frame f s = (bit_set f s)\<lparr>used_pages := used_pages s + 1\<rparr>"

definition give_frame :: "u32 \<Rightarrow> 'a pmm_state_scheme \<Rightarrow> 'a pmm_state_scheme" where
  "give_frame f s = (bit_clear f s)\<lparr>used_pages := used_pages s - 1\<rparr>"

lemma take_frame_fields [simp]:
  "length (bitmap (take_frame f s)) = length (bitmap s)"
  "total_pages (take_frame f s) = total_pages s" "mem (take_frame f s) = mem s"
  "used_pages (take_frame f s) = used_pages s + 1"
  by (simp_all add: take_frame_def)

lemma give_frame_fields [simp]:
  "length (bitmap (give_frame f s)) = length (bitmap s)"
  "total_pages (give_frame f s) = total_pages s" "mem (give_frame f s) = mem s"
  "used_pages (give_frame f s) = used_pages s - 1"
  by (simp_all add: give_frame_def)

lemma take_frame_wf:
  assumes "pmm_wf s" and "unat f \<in> free_set s"
  shows "pmm_wf (take_frame f s)" and "free_set (take_frame f s) = free_set s - {unat f}"
proof -
  have f: "unat f < 65536" "length (bitmap s) = 2048"
    using assms by (auto simp: pmm_wf_def free_set_def)
  then show fs: "free_set (take_frame f s) = free_set s - {unat f}"
    by (simp add: take_frame_def free_set_bit_set)
  have "0 < card (free_set s)" using assms(2) by (auto simp: card_gt_0_iff)
  then have "(of_nat (card (free_set s) - 1) :: u32) = of_nat (card (free_set s)) - 1"
    by (simp add: of_nat_diff)
  with assms show "pmm_wf (take_frame f s)"
    by (simp add: pmm_wf_def fs)
qed

lemma give_frame_wf:
  assumes "pmm_wf s" and "unat f < 65536" and "frame_used s (unat f)"
  shows "pmm_wf (give_frame f s)" and "free_set (give_frame f s) = insert (unat f) (free_set s)"
proof -
  show fs: "free_set (give_frame f s) = insert (unat f) (free_set s)"
    using assms by (simp add: give_frame_def free_set_bit_clear pmm_wf_def)
  have "unat f \<notin> free_set s" using assms(3) by (simp add: free_set_def)
  with assms show "pmm_wf (give_frame f s)"
    by (simp add: pmm_wf_def fs)
qed

lemma free_frames_free_set:
  "pmm_wf s \<Longrightarrow> free_frames s = {f \<in> free_set s. f < unat (total_pages s)}"
  by (auto simp: pmm_wf_def free_frames_def free_set_def)

section \<open>Regions\<close>

lemma free_pages_spec:
  "pmm_wf s \<Longrightarrow> pmm_wf (free_pages page stop s) \<and>
     free_set (free_pages page stop s) =
       free_set s \<union> {f. unat page \<le> f \<and> f < unat stop \<and> f < 65536} \<and>
     total_pages (free_pages page stop s) = total_pages s \<and>
     mem (free_pages page stop s) = mem s"
proof (induction page stop s rule: free_pages.induct)
  case (1 page stop s)
  show ?case
  proof (cases "page < stop \<and> page < PMM_PAGES_MAX")
    case False
    then have "{f. unat page \<le> f \<and> f < unat stop \<and> f < 65536} = {}"
      by (auto simp: PMM_PAGES_MAX_def word_less_nat_alt)
    moreover have "free_pages page stop s = s"
      by (subst free_pages.simps) (simp only: False if_False)
    ultimately show ?thesis using "1.prems" by auto
  next
    case True
    then have p: "unat page < unat stop" "unat page < 65536" "unat (page + 1) = unat page + 1"
      by (auto simp: PMM_PAGES_MAX_def word_less_nat_alt unat_add_one)
    define t where "t = (if frame_used s (unat page) then give_frame page s else s)"
    have step: "free_pages page stop s = free_pages (page + 1) stop t"
      by (subst free_pages.simps) (simp only: True simp_thms if_True bit_test_used t_def give_frame_def)
    have t: "pmm_wf t" "free_set t = insert (unat page) (free_set s)"
        "total_pages t = total_pages s" "mem t = mem s"
      using "1.prems" p give_frame_wf [of s page] by (auto simp: t_def free_set_def)
    have "{f. unat page \<le> f \<and> f < unat stop \<and> f < 65536} =
        insert (unat page) {f. unat (page + 1) \<le> f \<and> f < unat stop \<and> f < 65536}"
      using p by auto
    with "1.IH" [OF True, folded give_frame_def, unfolded bit_test_used, folded t_def] t
    show ?thesis unfolding step by simp
  qed
qed

lemma mark_pages_spec:
  "pmm_wf s \<Longrightarrow> pmm_wf (mark_pages page stop s) \<and>
     free_set (mark_pages page stop s) = free_set s - {f. unat page \<le> f \<and> f < unat stop} \<and>
     total_pages (mark_pages page stop s) = total_pages s \<and>
     mem (mark_pages page stop s) = mem s"
proof (induction page stop s rule: mark_pages.induct)
  case (1 page stop s)
  show ?case
  proof (cases "page < stop \<and> page < PMM_PAGES_MAX")
    case False
    then have "free_set s \<inter> {f. unat page \<le> f \<and> f < unat stop} = {}"
      by (auto simp: PMM_PAGES_MAX_def word_less_nat_alt free_set_def)
    moreover have "mark_pages page stop s = s"
      by (subst mark_pages.simps) (simp only: False if_False)
    ultimately show ?thesis using "1.prems" by auto
  next
    case True
    then have p: "unat page < unat stop" "unat page < 65536" "unat (page + 1) = unat page + 1"
      by (auto simp: PMM_PAGES_MAX_def word_less_nat_alt unat_add_one)
    define t where "t = (if \<not> frame_used s (unat page) then take_frame page s else s)"
    have step: "mark_pages page stop s = mark_pages (page + 1) stop t"
      by (subst mark_pages.simps) (simp only: True simp_thms if_True bit_test_used t_def take_frame_def)
    have t: "pmm_wf t" "free_set t = free_set s - {unat page}"
        "total_pages t = total_pages s" "mem t = mem s"
      using "1.prems" p take_frame_wf [of s page] by (auto simp: t_def free_set_def)
    have "{f. unat page \<le> f \<and> f < unat stop} =
        insert (unat page) {f. unat (page + 1) \<le> f \<and> f < unat stop}"
      using p by auto
    with "1.IH" [OF True, folded take_frame_def, unfolded bit_test_used, folded t_def] t
    show ?thesis unfolding step by auto
  qed
qed

section \<open>Allocation\<close>

lemma page_word:
  "i < 2048 \<Longrightarrow> b < 32 \<Longrightarrow> unat (of_nat i * 32 + of_nat b :: u32) = i * 32 + b"
  by (simp add: unat_word_ariths unat_of_nat)

lemma scan_word_cases:
  assumes "pmm_wf s" and "i < 2048" and "b \<le> 32"
  shows "scan_word i b s = (None, s) \<and>
      (\<forall>f. i * 32 + b \<le> f \<and> f < i * 32 + 32 \<longrightarrow> f \<notin> free_frames s) \<or>
    scan_word i b s = (Some 0, s) \<and> (\<forall>f. i * 32 + b \<le> f \<longrightarrow> f \<notin> free_frames s) \<or>
    (\<exists>f. i * 32 + b \<le> f \<and> f \<in> free_frames s \<and>
       (\<forall>g. i * 32 + b \<le> g \<and> g < f \<longrightarrow> g \<notin> free_frames s) \<and>
       scan_word i b s = (Some (of_nat f * 4096), take_frame (of_nat f) s))"
  using assms(3)
proof (induction "32 - b" arbitrary: b)
  case 0
  then show ?case by (auto simp: scan_word.simps)
next
  case (Suc n)
  then have b: "b < 32" by simp
  let ?page = "of_nat i * 32 + of_nat b :: u32"
  note pg = page_word [OF assms(2) b]
  have of: "of_nat (i * 32 + b) = ?page" by simp
  consider "total_pages s \<le> ?page" | "\<not> total_pages s \<le> ?page" "\<not> frame_used s (i * 32 + b)"
    | "\<not> total_pages s \<le> ?page" "frame_used s (i * 32 + b)" by blast
  then show ?case
  proof cases
    case 1
    then have "unat (total_pages s) \<le> i * 32 + b" by (simp add: word_le_nat_alt pg)
    then have "\<forall>f. i * 32 + b \<le> f \<longrightarrow> f \<notin> free_frames s" by (auto simp: free_frames_def)
    with 1 b show ?thesis by (simp add: scan_word.simps [of i b s])
  next
    case 2
    then have "i * 32 + b \<in> free_frames s"
      by (simp add: free_frames_def word_le_nat_alt pg)
    moreover have "scan_word i b s = (Some (?page * 4096), take_frame ?page s)"
      using 2 b by (simp add: scan_word.simps [of i b s] pg take_frame_def Let_def)
    ultimately show ?thesis using of
      by (intro disjI2 exI [of _ "i * 32 + b"]) auto
  next
    case 3
    then have step: "scan_word i b s = scan_word i (Suc b) s"
      using b by (subst scan_word.simps) (simp add: pg)
    have u: "i * 32 + b \<notin> free_frames s" using 3 by (simp add: free_frames_def)
    then have ge: "f \<in> free_frames s \<Longrightarrow> (i * 32 + b \<le> f) = (i * 32 + Suc b \<le> f)" for f
      by (cases "f = i * 32 + b") auto
    then have eqs: "(\<forall>f. i * 32 + b \<le> f \<longrightarrow> f \<notin> free_frames s) =
        (\<forall>f. i * 32 + Suc b \<le> f \<longrightarrow> f \<notin> free_frames s)"
      "\<And>k. (\<forall>f. i * 32 + b \<le> f \<and> f < k \<longrightarrow> f \<notin> free_frames s) =
        (\<forall>f. i * 32 + Suc b \<le> f \<and> f < k \<longrightarrow> f \<notin> free_frames s)"
      "\<And>f P. (i * 32 + b \<le> f \<and> f \<in> free_frames s \<and> P) =
        (i * 32 + Suc b \<le> f \<and> f \<in> free_frames s \<and> P)"
      by blast+
    show ?thesis unfolding step eqs
      by (rule Suc.hyps(1)) (use Suc.hyps(2) b in auto)
  qed
qed

lemma full_word_used:
  assumes "bitmap s ! i = 0xFFFFFFFF" and "i * 32 \<le> f" and "f < i * 32 + 32"
  shows "f \<notin> free_frames s"
proof -
  have "f div 32 = i" using assms(2,3) by auto
  moreover have "bit (0xFFFFFFFF :: u32) n" if "n < 32" for n
  proof -
    have "(0xFFFFFFFF :: u32) = - 1" by simp
    then show ?thesis using that by (simp only: bit_minus_1_iff) simp
  qed
  ultimately show ?thesis using assms(1) by (simp add: free_frames_def frame_used_def)
qed

lemma scan_bitmap_cases:
  assumes "pmm_wf s" and "i \<le> 2048"
  shows "scan_bitmap i s = (0, s) \<and> (\<forall>f. i * 32 \<le> f \<longrightarrow> f \<notin> free_frames s) \<or>
    (\<exists>f. i * 32 \<le> f \<and> f \<in> free_frames s \<and>
       (\<forall>g. i * 32 \<le> g \<and> g < f \<longrightarrow> g \<notin> free_frames s) \<and>
       scan_bitmap i s = (of_nat f * 4096, take_frame (of_nat f) s))"
  using assms(2)
proof (induction "2048 - i" arbitrary: i)
  case 0
  then have "scan_bitmap i s = (0, s)" by (simp add: scan_bitmap.simps)
  moreover have "\<forall>f. i * 32 \<le> f \<longrightarrow> f \<notin> free_frames s"
    using 0 assms(1) by (auto simp: free_frames_def pmm_wf_def)
  ultimately show ?case by simp
next
  case (Suc n)
  then have i: "i < 2048" by simp
  have next_word: ?case
    if step: "scan_bitmap i s = scan_bitmap (Suc i) s"
      and none: "\<forall>f. i * 32 \<le> f \<and> f < i * 32 + 32 \<longrightarrow> f \<notin> free_frames s"
  proof -
    have ge: "f \<in> free_frames s \<Longrightarrow> (i * 32 \<le> f) = (Suc i * 32 \<le> f)" for f
      using none by (cases "f < i * 32 + 32") auto
    then have eqs: "(\<forall>f. i * 32 \<le> f \<longrightarrow> f \<notin> free_frames s) =
        (\<forall>f. Suc i * 32 \<le> f \<longrightarrow> f \<notin> free_frames s)"
      "\<And>k. (\<forall>f. i * 32 \<le> f \<and> f < k \<longrightarrow> f \<notin> free_frames s) =
        (\<forall>f. Suc i * 32 \<le> f \<and> f < k \<longrightarrow> f \<notin> free_frames s)"
      "\<And>f P. (i * 32 \<le> f \<and> f \<in> free_frames s \<and> P) =
        (Suc i * 32 \<le> f \<and> f \<in> free_frames s \<and> P)"
      by blast+
    show ?thesis unfolding step eqs
      by (rule Suc.hyps(1)) (use Suc.hyps(2) i in auto)
  qed
  show ?case
  proof (cases "bitmap s ! i = 0xFFFFFFFF")
    case True
    with i have "scan_bitmap i s = scan_bitmap (Suc i) s" by (subst scan_bitmap.simps) simp
    then show ?thesis by (rule next_word) (use True full_word_used in blast)
  next
    case False
    from scan_word_cases [OF assms(1) i le0, unfolded add_0_right] show ?thesis
    proof (elim disjE exE conjE, goal_cases)
      case 1
      with i False have "scan_bitmap i s = scan_bitmap (Suc i) s"
        by (subst scan_bitmap.simps) simp
      then show ?case by (rule next_word) (use 1 in simp)
    next
      case 2
      with i False show ?case by (simp add: scan_bitmap.simps [of i s])
    next
      case (3 f)
      with i False show ?case
        by (intro disjI2 exI [of _ f]) (simp add: scan_bitmap.simps [of i s])
    qed
  qed
qed

lemma pmm_alloc_page_eq:
  assumes "pmm_wf s"
  shows "pmm_alloc_page s =
    (if free_frames s = {} then (0, s)
     else let f = Min (free_frames s) in (of_nat f * 4096, take_frame (of_nat f) s))"
  using scan_bitmap_cases [OF assms le0]
proof (elim disjE exE conjE, goal_cases)
  case 1
  then show ?case by (auto simp: pmm_alloc_page_def)
next
  case (2 f)
  then have "Min (free_frames s) = f"
    by (intro Min_eqI) (auto simp: not_less [symmetric])
  with 2 show ?case by (auto simp: pmm_alloc_page_def Let_def)
qed

section \<open>The invariant\<close>

definition pmm_inv :: "'a pmm_state_scheme \<Rightarrow> bool" where
  "pmm_inv s \<longleftrightarrow> pmm_wf s \<and> 0 \<notin> free_set s"

lemma free_frames_take:
  "pmm_wf s \<Longrightarrow> unat f \<in> free_set s \<Longrightarrow> free_frames (take_frame f s) = free_frames s - {unat f}"
  by (auto simp: free_frames_free_set take_frame_wf)

lemma free_frames_give:
  "pmm_wf s \<Longrightarrow> unat f < unat (total_pages s) \<Longrightarrow> frame_used s (unat f) \<Longrightarrow>
   free_frames (give_frame f s) = insert (unat f) (free_frames s)"
proof -
  assume a: "pmm_wf s" "unat f < unat (total_pages s)" "frame_used s (unat f)"
  then have "unat f < 65536" by (simp add: pmm_wf_def)
  with a show ?thesis using give_frame_wf [of s f] by (auto simp: free_frames_free_set)
qed

lemma free_frames_bound: "pmm_wf s \<Longrightarrow> f \<in> free_frames s \<Longrightarrow> f < 65536"
  by (auto simp: free_frames_def pmm_wf_def)

lemma frame_word:
  "f < 65536 \<Longrightarrow> unat (of_nat f :: u32) = f"
  "f < 65536 \<Longrightarrow> unat (of_nat f * 4096 :: u32) = f * 4096"
  by (simp_all add: unat_of_nat unat_word_ariths)

lemma frame_of_address: "f < 65536 \<Longrightarrow> (of_nat f * 4096 :: u32) div 4096 = of_nat f"
  by (rule word_eq_by_unat) (simp add: unat_div frame_word)

lemma pmm_alloc_page_some:
  assumes "pmm_inv s" and "free_frames s \<noteq> {}"
  defines "f \<equiv> Min (free_frames s)"
  shows "pmm_alloc_page s = (of_nat f * 4096, take_frame (of_nat f) s)"
    and "f \<in> free_frames s" and "0 < f" and "f < 65536"
    and "pmm_inv (take_frame (of_nat f) s)"
    and "free_frames (take_frame (of_nat f) s) = free_frames s - {f}"
proof -
  have wf: "pmm_wf s" using assms(1) by (simp add: pmm_inv_def)
  show "pmm_alloc_page s = (of_nat f * 4096, take_frame (of_nat f) s)"
    using pmm_alloc_page_eq [OF wf] assms(2) by (simp add: f_def Let_def)
  show f: "f \<in> free_frames s" using assms(2) by (simp add: f_def)
  then show b: "f < 65536" by (rule free_frames_bound [OF wf])
  have fs: "f \<in> free_set s" using f wf by (simp add: free_frames_free_set)
  then show "0 < f" using assms(1) by (auto simp: pmm_inv_def intro!: gr0I)
  show "pmm_inv (take_frame (of_nat f) s)"
    using take_frame_wf [OF wf, of "of_nat f"] fs b assms(1) by (simp add: pmm_inv_def frame_word)
  show "free_frames (take_frame (of_nat f) s) = free_frames s - {f}"
    using free_frames_take [OF wf, of "of_nat f"] fs b by (simp add: frame_word)
qed

lemma pmm_alloc_page_none:
  "pmm_inv s \<Longrightarrow> free_frames s = {} \<Longrightarrow> pmm_alloc_page s = (0, s)"
  by (simp add: pmm_inv_def pmm_alloc_page_eq)

lemma pmm_free_page_eq:
  "pmm_free_page p s =
     (if unat (p div 4096) < unat (total_pages s) \<and> frame_used s (unat (p div 4096))
      then give_frame (p div 4096) s else s)"
  by (auto simp: pmm_free_page_def Let_def give_frame_def word_le_nat_alt not_le)

lemma pmm_inv_free_page:
  assumes "pmm_inv s" and "4096 \<le> p"
  shows "pmm_inv (pmm_free_page p s)"
proof -
  have "unat (p div 4096) \<noteq> 0" using assms(2) by (simp add: unat_div word_le_nat_alt div_eq_0_iff)
  moreover have "unat (p div 4096) < unat (total_pages s) \<Longrightarrow> unat (p div 4096) < 65536"
    using assms(1) by (simp add: pmm_inv_def pmm_wf_def)
  ultimately show ?thesis
    using assms(1) give_frame_wf [of s "p div 4096"]
    by (auto simp: pmm_inv_def pmm_free_page_eq)
qed

section \<open>The frame-allocator interface\<close>

text \<open>
  What the virtual memory manager relies on: addresses of whole frames, never NULL unless
  nothing is left, never a frame that is already out.
\<close>

locale frame_allocator =
  fixes alloc :: "'s \<Rightarrow> u32 \<times> 's" and release :: "u32 \<Rightarrow> 's \<Rightarrow> 's"
    and avail :: "'s \<Rightarrow> nat set" and frames_inv :: "'s \<Rightarrow> bool"
  assumes avail_frames: "frames_inv s \<Longrightarrow> avail s \<subseteq> {0<..<65536}"
    and alloc_none: "frames_inv s \<Longrightarrow> avail s = {} \<Longrightarrow> alloc s = (0, s)"
    and alloc_some: "frames_inv s \<Longrightarrow> avail s \<noteq> {} \<Longrightarrow>
      \<exists>f s'. alloc s = (of_nat f * 4096, s') \<and> f \<in> avail s \<and> avail s' = avail s - {f} \<and>
        frames_inv s'"
    and release_taken: "frames_inv s \<Longrightarrow> alloc s = (p, s') \<Longrightarrow> p \<noteq> 0 \<Longrightarrow>
      avail (release p s') = avail s \<and> frames_inv (release p s')"
begin

lemma alloc_cases:
  assumes "frames_inv s" and "alloc s = (p, s')"
  obtains (none) "p = 0" "s' = s" "avail s = {}"
  | (some) f where "p = of_nat f * 4096" "0 < f" "f < 65536" "f \<in> avail s"
      "avail s' = avail s - {f}" "frames_inv s'"
proof (cases "avail s = {}")
  case True
  then show thesis using alloc_none [OF assms(1)] assms(2) by (intro none) auto
next
  case False
  from alloc_some [OF assms(1) False] obtain f where
    "p = of_nat f * 4096" "f \<in> avail s" "avail s' = avail s - {f}" "frames_inv s'"
    using assms(2) by auto
  with avail_frames [OF assms(1)] show thesis by (intro some [of f]) auto
qed

lemma alloc_aligned:
  assumes "frames_inv s" and "alloc s = (p, s')"
  shows "unat p mod 4096 = 0 \<and> unat p < 2 ^ 28 \<and> (p \<noteq> 0 \<longleftrightarrow> avail s \<noteq> {}) \<and> frames_inv s'"
proof (rule alloc_cases [OF assms])
  fix f
  assume f: "p = of_nat f * 4096" "0 < f" "f < 65536" "f \<in> avail s" "frames_inv s'"
  then have "unat p = f * 4096" by (simp add: unat_of_nat unat_word_ariths)
  with f show ?thesis by (auto simp: unat_eq_0 [symmetric])
qed (use assms in auto)

lemma alloc_distinct:
  assumes "frames_inv s" and "alloc s = (p, s1)" and "alloc s1 = (q, s2)" and "q \<noteq> 0"
  shows "p \<noteq> q"
proof (rule alloc_cases [OF assms(1,2)])
  fix f
  assume f: "p = of_nat f * 4096" "f < 65536" "avail s1 = avail s - {f}" "frames_inv s1"
  from f(4) assms(3) show ?thesis
  proof (rule alloc_cases)
    fix g
    assume g: "q = of_nat g * 4096" "g < 65536" "g \<in> avail s1"
    with f have "g \<noteq> f" by auto
    moreover have "unat p = f * 4096" "unat q = g * 4096"
      using f g by (simp_all add: unat_of_nat unat_word_ariths)
    ultimately show ?thesis by auto
  qed (use assms(4) in auto)
qed (use assms(4) alloc_aligned [OF assms(1,2)] assms(3) in \<open>auto dest: alloc_none\<close>)

end

interpretation pmm: frame_allocator pmm_alloc_page pmm_free_page free_frames pmm_inv
proof unfold_locales
  fix s :: "'a pmm_state_scheme"
  assume inv: "pmm_inv s"
  then show "free_frames s \<subseteq> {0<..<65536}"
    using free_frames_bound [of s] by (auto simp: pmm_inv_def free_frames_free_set intro!: gr0I)
  show "free_frames s = {} \<Longrightarrow> pmm_alloc_page s = (0, s)"
    using inv by (rule pmm_alloc_page_none)
  show "\<exists>f s'. pmm_alloc_page s = (of_nat f * 4096, s') \<and> f \<in> free_frames s \<and>
      free_frames s' = free_frames s - {f} \<and> pmm_inv s'" if "free_frames s \<noteq> {}"
    using pmm_alloc_page_some [OF inv that] by blast
  fix p s'
  assume al: "pmm_alloc_page s = (p, s')" "p \<noteq> 0"
  then have ne: "free_frames s \<noteq> {}" using pmm_alloc_page_none [OF inv] by auto
  let ?f = "Min (free_frames s)"
  note a = pmm_alloc_page_some [OF inv ne]
  have s': "p = of_nat ?f * 4096" "s' = take_frame (of_nat ?f) s" using a(1) al(1) by auto
  have wf: "pmm_wf s'" using a(5) s' by (simp add: pmm_inv_def)
  have tot: "?f < unat (total_pages s')" using a(2) s' by (simp add: free_frames_def)
  moreover have "?f \<notin> free_frames s'" using a(6) s' by simp
  ultimately have used: "frame_used s' ?f" by (auto simp: free_frames_def)
  have p: "p div 4096 = of_nat ?f" using s' a(4) by (simp add: frame_of_address)
  have fp: "pmm_free_page p s' = give_frame (of_nat ?f) s'"
    using used tot a(4) by (simp add: pmm_free_page_eq p frame_word)
  have "free_frames (give_frame (of_nat ?f) s') = insert ?f (free_frames s')"
    using free_frames_give [OF wf, of "of_nat ?f"] used tot a(4) by (simp add: frame_word)
  moreover have "pmm_inv (pmm_free_page p s')"
    using a(3,4,5) s' by (intro pmm_inv_free_page) (simp_all add: word_le_nat_alt frame_word)
  ultimately show "free_frames (pmm_free_page p s') = free_frames s \<and> pmm_inv (pmm_free_page p s')"
    using a(2,6) s' fp by auto
qed

section \<open>Initialisation\<close>

text \<open>Frames a call of \<open>pmm_free_region\<close> frees, and frames a memory-map entry makes
  available.\<close>

definition region_frames :: "u32 \<Rightarrow> u32 \<Rightarrow> nat set" where
  "region_frames base len =
     {f. unat (base div 4096) \<le> f \<and> f < unat ((base + len) div 4096) \<and> f < 65536}"

definition entry_frames :: "mmap_entry \<Rightarrow> nat set" where
  "entry_frames e =
     (if entry_type e = 1 \<and> base_high e = 0
      then region_frames (base_low e)
             (if length_high e = 0 then length_low e else 0xFFFFFFFF - base_low e + 1)
      else {})"

definition kernel_frames :: "u32 \<Rightarrow> nat set" where
  "kernel_frames kend = {f. 256 \<le> f \<and> f < unat ((kend + 4095) div 4096)}"

text \<open>The memory map as GRUB lays it out: entries chained by their size fields up to the
  length of the map.\<close>

fun mmap_table :: "mem \<Rightarrow> u32 \<Rightarrow> u32 \<Rightarrow> u32 \<Rightarrow> mmap_entry list \<Rightarrow> bool" where
  "mmap_table m addr len offset [] = (len \<le> offset)"
| "mmap_table m addr len offset (e # es) =
     (offset < len \<and> read_mmap_entry m (addr + offset) = e \<and>
      mmap_table m addr len (offset + (entry_size e + 4)) es)"

lemma pmm_free_region_spec:
  "pmm_wf s \<Longrightarrow> pmm_wf (pmm_free_region base len s) \<and>
     free_set (pmm_free_region base len s) = free_set s \<union> region_frames base len \<and>
     total_pages (pmm_free_region base len s) = total_pages s \<and>
     mem (pmm_free_region base len s) = mem s"
  unfolding pmm_free_region_def region_frames_def by (rule free_pages_spec)

lemma mmap_entry_free_spec:
  "pmm_wf s \<Longrightarrow> pmm_wf (mmap_entry_free e s) \<and>
     free_set (mmap_entry_free e s) = free_set s \<union> entry_frames e \<and>
     total_pages (mmap_entry_free e s) = total_pages s \<and>
     mem (mmap_entry_free e s) = mem s"
  using pmm_free_region_spec [of s] by (auto simp: mmap_entry_free_def entry_frames_def)

lemma mmap_walk_spec:
  "pmm_wf s \<Longrightarrow> mmap_table (mem s) addr len offset es \<Longrightarrow>
   \<exists>s'. mmap_walk addr len offset s = Some s' \<and> pmm_wf s' \<and>
     free_set s' = free_set s \<union> (\<Union>e \<in> set es. entry_frames e) \<and>
     total_pages s' = total_pages s \<and> mem s' = mem s"
proof (induction es arbitrary: offset s)
  case Nil
  then show ?case by (subst mmap_walk.simps) (simp add: not_less [symmetric])
next
  case (Cons e es)
  note e = mmap_entry_free_spec [OF Cons.prems(1), of e]
  have step: "mmap_walk addr len offset s =
      mmap_walk addr len (offset + (entry_size e + 4)) (mmap_entry_free e s)"
    using Cons.prems(2) by (subst mmap_walk.simps) (auto simp: Let_def)
  from Cons.IH [of "mmap_entry_free e s" "offset + (entry_size e + 4)"] e Cons.prems(2)
  show ?case unfolding step by (auto simp: Un_assoc)
qed

lemma kprintf_pmm_fields [simp]:
  "bitmap (kprintf f args s) = bitmap s" "total_pages (kprintf f args s) = total_pages s"
  "used_pages (kprintf f args s) = used_pages s"
  by (rule kprintf_frame [of f args s]; simp)+

lemma pmm_wf_kprintf [simp]:
  "pmm_wf (kprintf f args s) = pmm_wf s" "free_set (kprintf f args s) = free_set s"
  by (simp_all add: pmm_wf_def free_set_def frame_used_def)

lemma pmm_total_of_bound: "unat (pmm_total_of mbi) \<le> 65536"
  by (auto simp: pmm_total_of_def Let_def PMM_PAGES_MAX_def word_less_nat_alt not_less)

lemma all_ones_bit: "n < 32 \<Longrightarrow> bit (0xFFFFFFFF :: u32) n"
proof -
  assume "n < 32"
  have "(0xFFFFFFFF :: u32) = - 1" by simp
  then show ?thesis using \<open>n < 32\<close> by (simp only: bit_minus_1_iff) simp
qed

definition all_used :: "u32 \<Rightarrow> 'a pmm_state_scheme \<Rightarrow> 'a pmm_state_scheme" where
  "all_used tp s = s\<lparr>total_pages := tp, used_pages := tp,
     bitmap := map (\<lambda>_. 0xFFFFFFFF) [0..<2048]\<rparr>"

lemma all_used_wf:
  assumes "unat tp \<le> 65536"
  shows "pmm_wf (all_used tp s)" and "free_set (all_used tp s) = {}"
proof -
  show fs: "free_set (all_used tp s) = {}"
    by (auto simp: free_set_def frame_used_def all_used_def all_ones_bit
        simp del: bit_numeral_word_iff)
  then show "pmm_wf (all_used tp s)"
    using assms by (simp add: pmm_wf_def) (simp add: all_used_def)
qed

lemma all_used_fields [simp]:
  "mem (all_used tp s) = mem s" "total_pages (all_used tp s) = tp"
  by (simp_all add: all_used_def)

text \<open>Steps 3 and 4 of \<open>pmm_init\<close>: page 0 and the kernel image are taken again.\<close>

lemma reserve_page0:
  assumes "pmm_wf s"
  defines "t \<equiv> (if \<not> bit_test 0 s then (bit_set 0 s)\<lparr>used_pages := used_pages s + 1\<rparr> else s)"
  shows "pmm_wf t \<and> free_set t = free_set s - {0} \<and> total_pages t = total_pages s"
proof -
  have "t = (if 0 \<in> free_set s then take_frame 0 s else s)"
    by (simp add: t_def take_frame_def free_set_def)
  with assms(1) take_frame_wf [of s 0] show ?thesis by auto
qed

lemma pmm_mark_kernel:
  "pmm_wf s \<Longrightarrow> pmm_wf (pmm_mark_region_used 0x100000 (kend - 0x100000) s) \<and>
     free_set (pmm_mark_region_used 0x100000 (kend - 0x100000) s) = free_set s - kernel_frames kend \<and>
     total_pages (pmm_mark_region_used 0x100000 (kend - 0x100000) s) = total_pages s"
proof -
  assume wf: "pmm_wf s"
  have "unat ((0x100000 :: u32) div 4096) = 256" by (simp add: unat_div)
  moreover have "0x100000 + (kend - 0x100000) + 4096 - 1 = kend + 4095" by simp
  ultimately show ?thesis
    using mark_pages_spec [OF wf, of "0x100000 div 4096" "(kend + 4095) div 4096"]
    unfolding pmm_mark_region_used_def kernel_frames_def by (simp add: add.commute)
qed

text \<open>What the boot information makes available.\<close>

definition boot_frames :: "multiboot_info \<Rightarrow> mmap_entry list \<Rightarrow> nat set" where
  "boot_frames mbi es =
     (if flags mbi AND MBOOT_FLAG_MMAP \<noteq> 0 then \<Union>e \<in> set es. entry_frames e
      else region_frames 0x100000 ((pmm_total_of mbi - 256) * 4096))"

lemma pmm_init_spec:
  assumes mbi: "mbi = read_mbi (mem s) p"
    and map: "flags mbi AND MBOOT_FLAG_MMAP \<noteq> 0 \<Longrightarrow>
      mmap_table (mem s) (mmap_addr mbi) (mmap_length mbi) 0 es"
  shows "\<exists>s'. pmm_init kend p s = Some s' \<and> pmm_inv s' \<and>
     total_pages s' = pmm_total_of mbi \<and>
     free_set s' = boot_frames mbi es - {0} - kernel_frames kend"
proof -
  let ?s1 = "all_used (pmm_total_of mbi) s"
  note wf1 = all_used_wf [OF pmm_total_of_bound [of mbi], of s]
  obtain s2 where s2: "(if flags mbi AND MBOOT_FLAG_MMAP \<noteq> 0
        then mmap_walk (mmap_addr mbi) (mmap_length mbi) 0 ?s1
        else Some (pmm_free_region 0x100000 ((pmm_total_of mbi - 256) * 4096) ?s1)) = Some s2"
      "pmm_wf s2" "free_set s2 = boot_frames mbi es" "total_pages s2 = pmm_total_of mbi"
  proof (cases "flags mbi AND MBOOT_FLAG_MMAP = 0")
    case True
    with pmm_free_region_spec [OF wf1(1)] wf1(2) show thesis
      by (intro that) (auto simp: boot_frames_def)
  next
    case False
    with mmap_walk_spec [OF wf1(1), of "mmap_addr mbi" "mmap_length mbi" 0 es] wf1(2) map
    show thesis by (auto simp: boot_frames_def intro: that)
  qed
  define s3 where
    "s3 = (if \<not> bit_test 0 s2 then (bit_set 0 s2)\<lparr>used_pages := used_pages s2 + 1\<rparr> else s2)"
  have s3: "pmm_wf s3" "free_set s3 = boot_frames mbi es - {0}" "total_pages s3 = pmm_total_of mbi"
    using reserve_page0 [OF s2(2)] s2(3,4) unfolding s3_def [symmetric] by auto
  define s4 where "s4 = pmm_mark_region_used 0x100000 (kend - 0x100000) s3"
  have s4: "pmm_wf s4" "free_set s4 = boot_frames mbi es - {0} - kernel_frames kend"
      "total_pages s4 = pmm_total_of mbi"
    using pmm_mark_kernel [OF s3(1), of kend] s3(2,3) by (simp_all add: s4_def)
  have "\<exists>args. pmm_init kend p s = Some (kprintf
      ''[PMM] Total: %u MB  Free: %u MB  Used by kernel: %u KB\<newline>'' args s4)"
    unfolding pmm_init_def mbi [symmetric] Let_def all_used_def [symmetric] s2(1) option.case
      s3_def [symmetric] s4_def [symmetric] by blast
  with s4 show ?thesis by (auto simp: pmm_inv_def)
qed

section \<open>Properties\<close>

text \<open>Machines with 512 frames of which frame 300 is free, for the examples below.\<close>

definition blank_pmm :: pmm_state where
  "blank_pmm = \<lparr>ports = [], vga_buf = [], vga_col = 0, vga_row = 0, vga_color = 7, mem = (\<lambda>_. 0),
     bitmap = [], total_pages = 0, used_pages = 0\<rparr>"

definition frame_300_free :: "'a pmm_state_scheme \<Rightarrow> 'a pmm_state_scheme" where
  "frame_300_free s = give_frame 300 (all_used 512 s)"

lemma frame_300_free_facts:
  "pmm_inv (frame_300_free s)" "free_set (frame_300_free s) = {300}"
  "free_frames (frame_300_free s) = {300}" "total_pages (frame_300_free s) = 512"
  "mem (frame_300_free s) = mem s"
proof -
  note a = all_used_wf [of 512, simplified]
  have u: "frame_used (all_used 512 s) 300"
    using a(2) [of s] by (auto simp: free_set_def)
  note g = give_frame_wf [OF a(1), of 300, simplified, OF u]
  show fs: "free_set (frame_300_free s) = {300}" and tot: "total_pages (frame_300_free s) = 512"
    and "mem (frame_300_free s) = mem s"
    by (simp_all add: frame_300_free_def g a)
  then show inv: "pmm_inv (frame_300_free s)"
    using g(1) by (simp add: pmm_inv_def) (simp add: frame_300_free_def)
  then show "free_frames (frame_300_free s) = {300}"
    using fs tot by (auto simp: pmm_inv_def free_frames_free_set)
qed

definition one_free :: pmm_state where
  "one_free = frame_300_free blank_pmm"

lemma one_free_facts:
  "pmm_inv one_free" "free_set one_free = {300}" "free_frames one_free = {300}"
  "total_pages one_free = 512"
  by (simp_all add: one_free_def frame_300_free_facts)

text \<open>
  C1. \<open>pmm_alloc_page\<close> is first fit: with a frame left it returns the address of the lowest
  free frame below \<open>total_pages\<close>, which is never NULL and is page aligned, takes exactly that
  frame and counts it; with none left it returns NULL and changes nothing. The invariant
  (the counter equals the number of set bits below the total, frame 0 is used) is kept.
\<close>

theorem pmm_alloc_first_fit:
  fixes s :: "'a pmm_state_scheme"
  assumes inv: "pmm_inv s"
  defines "f \<equiv> Min (free_frames s)"
  shows "(if free_frames s = {} then pmm_alloc_page s = (0, s)
     else unat (fst (pmm_alloc_page s)) = f * 4096 \<and> fst (pmm_alloc_page s) \<noteq> 0 \<and>
       free_frames (snd (pmm_alloc_page s)) = free_frames s - {f} \<and>
       used_pages (snd (pmm_alloc_page s)) = used_pages s + 1) \<and>
    pmm_inv (snd (pmm_alloc_page s))"
proof (cases "free_frames s = {}")
  case True
  then show ?thesis using pmm_alloc_page_none [OF inv] inv by simp
next
  case False
  note a = pmm_alloc_page_some [OF inv False, folded f_def]
  have "unat (of_nat f * 4096 :: u32) = f * 4096" using a(4) by (rule frame_word)
  with a False show ?thesis by (auto simp: unat_eq_0 [symmetric])
qed

theorem pmm_alloc_first_fit_witness:
  "pmm_inv one_free \<and> unat (fst (pmm_alloc_page one_free)) = 300 * 4096"
  using pmm_alloc_first_fit [OF one_free_facts(1)] one_free_facts by simp

text \<open>
  C3. Freeing a frame that was just allocated restores the set of free frames, the counter and
  the invariant, and freeing it a second time changes nothing: a double free is harmless as
  long as nobody allocated in between.
\<close>

theorem pmm_free_undoes_alloc:
  fixes s :: "'a pmm_state_scheme"
  assumes inv: "pmm_inv s" and al: "pmm_alloc_page s = (p, s')" and p: "p \<noteq> 0"
  shows "free_frames (pmm_free_page p s') = free_frames s \<and>
    used_pages (pmm_free_page p s') = used_pages s \<and> pmm_inv (pmm_free_page p s') \<and>
    pmm_free_page p (pmm_free_page p s') = pmm_free_page p s'"
proof -
  note r = pmm.release_taken [OF inv al p]
  have ne: "free_frames s \<noteq> {}" using pmm_alloc_page_none [OF inv] al p by auto
  define f where "f = Min (free_frames s)"
  note a = pmm_alloc_page_some [OF inv ne, folded f_def]
  have s': "s' = take_frame (of_nat f) s" "p div 4096 = of_nat f"
    using a(1,4) al by (auto simp: frame_of_address)
  have f: "f \<in> free_frames (pmm_free_page p s')" "f \<notin> free_frames s'"
    using r a(2,6) s' by simp_all
  then have "pmm_free_page p s' \<noteq> s'" by metis
  then have fp: "pmm_free_page p s' = give_frame (p div 4096) s'"
    by (simp add: pmm_free_page_eq split: if_splits)
  have "\<not> frame_used (pmm_free_page p s') f" using f(1) by (simp add: free_frames_def)
  then have "pmm_free_page p (pmm_free_page p s') = pmm_free_page p s'"
    using a(4) by (subst pmm_free_page_eq) (simp add: s'(2) frame_word)
  moreover have "used_pages (pmm_free_page p s') = used_pages s" by (simp add: fp) (simp add: s'(1))
  ultimately show ?thesis using r by simp
qed

theorem pmm_free_undoes_alloc_witness:
  "pmm_inv one_free \<and> fst (pmm_alloc_page one_free) \<noteq> 0 \<and>
   free_frames (pmm_free_page (fst (pmm_alloc_page one_free)) (snd (pmm_alloc_page one_free))) = {300}"
proof -
  have eq: "pmm_alloc_page one_free = (fst (pmm_alloc_page one_free), snd (pmm_alloc_page one_free))"
    by simp
  have nz: "fst (pmm_alloc_page one_free) \<noteq> 0"
    using pmm.alloc_aligned [OF one_free_facts(1) eq] one_free_facts(3) by simp
  from pmm_free_undoes_alloc [OF one_free_facts(1) eq nz] show ?thesis
    using one_free_facts nz by simp
qed


text \<open>A machine whose memory map has one available region, 1 MB to 2 MB, with the kernel
  image in its first 64 KB.\<close>

definition boot_mem :: mem where
  "boot_mem = store32 (store32 (store32 (store32 (store32 (store32 (store32 (store32 (store32
     (store32 (\<lambda>_. 0) 0x9000 65) 0x9008 31744) 0x902C 24) 0x9030 0xA000)
     0xA000 20) 0xA004 0x100000) 0xA008 0) 0xA00C 0x100000) 0xA010 0) 0xA014 1"


text \<open>
  The statistics overstate the free memory exactly by the frames the memory map reports
  above \<open>total_pages\<close>: \<open>pmm_init\<close> frees every frame of a region below the bitmap's end, the
  allocator hands out only frames below \<open>total_pages\<close>, and \<open>pmm_get_free_pages\<close> counts both.
\<close>

theorem pmm_free_count:
  assumes "pmm_inv s"
  shows "unat (pmm_get_free_pages s) =
     card (free_frames s) + card {f \<in> free_set s. unat (total_pages s) \<le> f}"
proof -
  have wf: "pmm_wf s" using assms by (simp add: pmm_inv_def)
  have "card (free_set s) \<le> card {..<65536 :: nat}"
    by (rule card_mono) (auto simp: free_set_def)
  then have "unat (pmm_get_free_pages s) = card (free_set s)"
    using wf by (simp add: pmm_get_free_pages_def pmm_wf_def unat_of_nat)
  moreover have "free_set s = free_frames s \<union> {f \<in> free_set s. unat (total_pages s) \<le> f}"
    using wf by (auto simp: free_frames_free_set)
  moreover have "free_frames s \<inter> {f \<in> free_set s. unat (total_pages s) \<le> f} = {}"
    by (auto simp: free_frames_def)
  ultimately show ?thesis
    using card_Un_disjoint [of "free_frames s" "{f \<in> free_set s. unat (total_pages s) \<le> f}"] by simp
qed

theorem pmm_free_count_witness: "unat (pmm_get_free_pages one_free) = 1"
proof -
  have "{f \<in> free_set one_free. unat (total_pages one_free) \<le> f} = {}"
    by (auto simp: one_free_facts)
  then show ?thesis
    using pmm_free_count [OF one_free_facts(1)] by (simp add: one_free_facts)
qed

text \<open>
  Freeing NULL is not ignored: with frame 0 reserved, \<open>pmm_free_page(NULL)\<close> makes frame 0
  available, and the next \<open>pmm_alloc_page\<close> takes it and returns the address 0, which its caller
  reads as out of memory although a frame was taken and the counter moved.
\<close>

theorem pmm_free_null:
  fixes s :: "'a pmm_state_scheme"
  assumes inv: "pmm_inv s" and pos: "0 < total_pages s"
  shows "pmm_get_free_pages (pmm_free_page 0 s) = pmm_get_free_pages s + 1 \<and>
    fst (pmm_alloc_page (pmm_free_page 0 s)) = 0 \<and>
    pmm_get_free_pages (snd (pmm_alloc_page (pmm_free_page 0 s))) = pmm_get_free_pages s"
proof -
  have u: "frame_used s 0" using inv by (simp add: pmm_inv_def free_set_def)
  then have fp: "pmm_free_page 0 s = give_frame 0 s"
    using pos by (simp add: pmm_free_page_eq word_less_nat_alt)
  have wf: "pmm_wf s" using inv by (simp add: pmm_inv_def)
  note g = give_frame_wf [OF wf, of 0, simplified, OF u]
  have m: "0 \<in> free_frames (give_frame 0 s)"
    using g pos by (simp add: free_frames_free_set word_less_nat_alt)
  then have "Min (free_frames (give_frame 0 s)) = 0" by (intro Min_eqI) auto
  then have "pmm_alloc_page (give_frame 0 s) = (0, take_frame 0 (give_frame 0 s))"
    using pmm_alloc_page_eq [OF g(1)] m by (auto simp: Let_def)
  then show ?thesis unfolding fp by (simp add: pmm_get_free_pages_def)
qed

theorem pmm_free_null_witness:
  "0 < total_pages one_free \<and> fst (pmm_alloc_page (pmm_free_page 0 one_free)) = 0"
  using pmm_free_null [OF one_free_facts(1)] by (simp add: one_free_facts)

text \<open>
  A memory-map entry that starts below 4 GB and reaches beyond it frees nothing: the code
  means to free the part below 4 GB, but \<open>base + available\<close> is 0 in 32 bits, so the loop over
  its pages is empty.
\<close>

theorem pmm_crossing_region_frees_nothing:
  assumes "base_high e = 0" and "length_high e \<noteq> 0"
  shows "mmap_entry_free e s = s"
proof -
  have "free_pages (base_low e div 4096) 0 s = s"
    by (subst free_pages.simps) simp
  then show ?thesis using assms by (simp add: mmap_entry_free_def pmm_free_region_def)
qed

theorem pmm_crossing_region_frees_nothing_witness:
  "mmap_entry_free \<lparr>entry_size = 20, base_low = 0x100000, base_high = 0, length_low = 0,
     length_high = 1, entry_type = 1\<rparr> one_free = one_free"
  by (rule pmm_crossing_region_frees_nothing) simp_all

end
