(* ===== verification/Vmm.thy ===== *)
theory Vmm
  imports Pmm
begin

text \<open>
  The virtual memory manager (kernel/mm/vmm.c). Page directories and tables are 1024 words
  of physical memory; \<open>walk\<close> is the two-level lookup the x86 MMU makes with them, and the
  TLB is the set of translations the CPU has cached. The addresses of the three static
  tables are chosen by the linker and are fields of the state. Table frames are read and
  written at their physical address, as the source does.
\<close>

definition PAGE_PRESENT :: u32 where "PAGE_PRESENT = 1"
definition PAGE_WRITE :: u32 where "PAGE_WRITE = 2"
definition PAGE_USER :: u32 where "PAGE_USER = 4"
definition PAGE_MASK :: u32 where "PAGE_MASK = NOT (4096 - 1)"

definition VMM_DIR_IDX :: "u32 \<Rightarrow> u32" where
  "VMM_DIR_IDX va = drop_bit 22 va AND 0x3FF"

definition VMM_TBL_IDX :: "u32 \<Rightarrow> u32" where
  "VMM_TBL_IDX va = drop_bit 12 va AND 0x3FF"

definition VMM_PAGE_OFF :: "u32 \<Rightarrow> u32" where
  "VMM_PAGE_OFF va = va AND 0xFFF"

record vmm_state = pmm_state +
  kernel_dir :: u32
  identity_pt0 :: u32
  identity_pt1 :: u32
  cr0 :: u32
  cr3 :: u32
  tlb :: "u32 \<Rightarrow> u32 option"

section \<open>The hardware\<close>

text \<open>The page-table entry the MMU finds for an address, the physical address it forms, and
  whether ring 3 may use it: both levels must carry the user bit.\<close>

definition walk :: "mem \<Rightarrow> u32 \<Rightarrow> u32 \<Rightarrow> u32 option" where
  "walk m dir va =
     (let pde = load32 m (dir + 4 * VMM_DIR_IDX va) in
      if pde AND PAGE_PRESENT = 0 then None
      else let pte = load32 m ((pde AND PAGE_MASK) + 4 * VMM_TBL_IDX va) in
        if pte AND PAGE_PRESENT = 0 then None else Some pte)"

definition translate :: "mem \<Rightarrow> u32 \<Rightarrow> u32 \<Rightarrow> u32 option" where
  "translate m dir va = (case walk m dir va of
     None \<Rightarrow> None | Some pte \<Rightarrow> Some ((pte AND PAGE_MASK) OR VMM_PAGE_OFF va))"

definition user_access :: "mem \<Rightarrow> u32 \<Rightarrow> u32 \<Rightarrow> bool" where
  "user_access m dir va = (case walk m dir va of
     None \<Rightarrow> False
   | Some pte \<Rightarrow> pte AND PAGE_USER \<noteq> 0 \<and> load32 m (dir + 4 * VMM_DIR_IDX va) AND PAGE_USER \<noteq> 0)"

text \<open>The instructions the source uses: a load of CR3 empties the TLB, \<open>invlpg\<close> drops one page.\<close>

definition write_cr3 :: "u32 \<Rightarrow> 'a vmm_state_scheme \<Rightarrow> 'a vmm_state_scheme" where
  "write_cr3 dir s = s\<lparr>cr3 := dir, tlb := (\<lambda>_. None)\<rparr>"

definition invlpg :: "u32 \<Rightarrow> 'a vmm_state_scheme \<Rightarrow> 'a vmm_state_scheme" where
  "invlpg va s = s\<lparr>tlb := (tlb s)(drop_bit 12 va := None)\<rparr>"

definition tlb_fill :: "u32 \<Rightarrow> 'a vmm_state_scheme \<Rightarrow> 'a vmm_state_scheme" where
  "tlb_fill va s = s\<lparr>tlb := (tlb s)(drop_bit 12 va := walk (mem s) (cr3 s) va)\<rparr>"

section \<open>The source, function by function\<close>

text \<open>A loop that assigns the entries \<open>0\<close> to \<open>n - 1\<close> of a table in turn; the assigned value may
  read the memory as it is at that point.\<close>

definition fill_entries :: "u32 \<Rightarrow> nat \<Rightarrow> (nat \<Rightarrow> mem \<Rightarrow> u32) \<Rightarrow> mem \<Rightarrow> mem" where
  "fill_entries a n g m = fold (\<lambda>i m. store32 m (a + 4 * of_nat i) (g i m)) [0..<n] m"

definition vmm_switch_directory :: "u32 \<Rightarrow> 'a vmm_state_scheme \<Rightarrow> 'a vmm_state_scheme" where
  "vmm_switch_directory dir s = write_cr3 dir s"

definition vmm_get_kernel_dir :: "'a vmm_state_scheme \<Rightarrow> u32" where
  "vmm_get_kernel_dir s = kernel_dir s"

definition vmm_set_entry :: "u32 \<Rightarrow> u32 \<Rightarrow> u32 \<Rightarrow> u32 \<Rightarrow> 'a vmm_state_scheme \<Rightarrow> 'a vmm_state_scheme" where
  "vmm_set_entry pt virt phys fl s =
     invlpg virt (s\<lparr>mem := store32 (mem s) (pt + 4 * VMM_TBL_IDX virt)
       ((phys AND PAGE_MASK) OR (fl AND 0xFFF) OR PAGE_PRESENT)\<rparr>)"

definition vmm_map_page ::
  "u32 \<Rightarrow> u32 \<Rightarrow> u32 \<Rightarrow> u32 \<Rightarrow> 'a vmm_state_scheme \<Rightarrow> 'a vmm_state_scheme" where
  "vmm_map_page dir virt phys fl s =
     (let di = VMM_DIR_IDX virt in
      if load32 (mem s) (dir + 4 * di) AND PAGE_PRESENT = 0 then
        (case pmm_alloc_page s of (pt, s1) \<Rightarrow>
          if pt = 0
          then kprintf ''[VMM] ERROR: pmm_alloc_page() returned NULL in vmm_map_page\<newline>'' [] s1
          else let m1 = fill_entries pt 1024 (\<lambda>_ _. 0) (mem s1);
                   m2 = store32 m1 (dir + 4 * di) (pt OR PAGE_PRESENT OR PAGE_WRITE OR PAGE_USER)
               in vmm_set_entry pt virt phys fl (s1\<lparr>mem := m2\<rparr>))
      else vmm_set_entry (load32 (mem s) (dir + 4 * di) AND PAGE_MASK) virt phys fl s)"

definition vmm_unmap_page :: "u32 \<Rightarrow> u32 \<Rightarrow> 'a vmm_state_scheme \<Rightarrow> 'a vmm_state_scheme" where
  "vmm_unmap_page dir virt s =
     (let di = VMM_DIR_IDX virt in
      if load32 (mem s) (dir + 4 * di) AND PAGE_PRESENT = 0 then s
      else let pt = load32 (mem s) (dir + 4 * di) AND PAGE_MASK
           in invlpg virt (s\<lparr>mem := store32 (mem s) (pt + 4 * VMM_TBL_IDX virt) 0\<rparr>))"

definition vmm_tables :: "'a vmm_state_scheme \<Rightarrow> mem" where
  "vmm_tables s =
     (let m1 = fill_entries (identity_pt0 s) 1024
                 (\<lambda>i _. of_nat i * 4096 OR PAGE_PRESENT OR PAGE_WRITE) (mem s);
          m2 = fill_entries (identity_pt1 s) 1024
                 (\<lambda>i _. (1024 + of_nat i) * 4096 OR PAGE_PRESENT OR PAGE_WRITE) m1;
          m3 = fill_entries (kernel_dir s) 1024 (\<lambda>_ _. 0) m2;
          m4 = store32 m3 (kernel_dir s) (identity_pt0 s OR PAGE_PRESENT OR PAGE_WRITE)
      in store32 m4 (kernel_dir s + 4) (identity_pt1 s OR PAGE_PRESENT OR PAGE_WRITE))"

definition vmm_init :: "'a vmm_state_scheme \<Rightarrow> 'a vmm_state_scheme" where
  "vmm_init s =
     (let s1 = s\<lparr>mem := vmm_tables s\<rparr>;
          s2 = vmm_switch_directory (kernel_dir s1) s1;
          s3 = s2\<lparr>cr0 := cr0 s2 OR 0x80000000\<rparr>
      in kprintf ''[VMM] Paging enabled. Identity-mapped first 8 MB.\<newline>'' [] s3)"

definition vmm_create_user_directory :: "'a vmm_state_scheme \<Rightarrow> u32 \<times> 'a vmm_state_scheme" where
  "vmm_create_user_directory s =
     (case pmm_alloc_page s of (dir, s1) \<Rightarrow>
       if dir = 0 then (0, s1)
       else (dir, s1\<lparr>mem := fill_entries dir 1024
               (\<lambda>i m. load32 m (kernel_dir s1 + 4 * of_nat i)) (mem s1)\<rparr>))"

section \<open>Tables in memory\<close>

definition page_aligned :: "u32 \<Rightarrow> bool" where
  "page_aligned a \<longleftrightarrow> unat a mod 4096 = 0"

lemma page_aligned_frame: "page_aligned a \<Longrightarrow> unat a = 4096 * (unat a div 4096)"
  unfolding page_aligned_def by auto

lemma page_aligned_room: "page_aligned a \<Longrightarrow> unat a + 4096 \<le> 2 ^ 32"
proof -
  assume "page_aligned a"
  then have "unat a = 4096 * (unat a div 4096)" by (rule page_aligned_frame)
  moreover have "unat a div 4096 < 1048576" using unat_bound32 [of a] by simp
  ultimately have "unat a + 4096 \<le> 4294967296" by linarith
  then show ?thesis by simp
qed

lemma unat_entry:
  assumes "page_aligned t" and "unat i < 1024"
  shows "unat (t + 4 * i) = unat t + 4 * unat i"
proof -
  have "unat (4 * i) = 4 * unat i" using assms(2) by (simp add: unat_word_ariths)
  with page_aligned_room [OF assms(1)] assms(2) show ?thesis
    by (subst unat_add_lt) auto
qed

lemma pages_apart:
  assumes "page_aligned t" and "page_aligned u" and "t \<noteq> u"
  shows "unat t + 4096 \<le> unat u \<or> unat u + 4096 \<le> unat t"
proof -
  have "unat t \<noteq> unat u" using assms(3) by (auto simp: word_unat_eq_iff)
  then have "unat t div 4096 \<noteq> unat u div 4096"
    using page_aligned_frame [OF assms(1)] page_aligned_frame [OF assms(2)] by metis
  then have "unat t div 4096 + 1 \<le> unat u div 4096 \<or> unat u div 4096 + 1 \<le> unat t div 4096"
    by linarith
  then show ?thesis
    using page_aligned_frame [OF assms(1)] page_aligned_frame [OF assms(2)] by linarith
qed

lemma load_entry_store [mem_simps]:
  assumes "page_aligned t" and "page_aligned u" and "unat i < 1024" and "unat j < 1024"
  shows "load32 (store32 m (t + 4 * i) v) (u + 4 * j) =
    (if t = u \<and> i = j then v else load32 m (u + 4 * j))"
proof (cases "t = u \<and> i = j")
  case False
  note e = unat_entry [OF assms(1,3)] unat_entry [OF assms(2,4)]
  note room = page_aligned_room [OF assms(1)] page_aligned_room [OF assms(2)]
  have "unat (u + 4 * j) + 4 \<le> unat (t + 4 * i) \<or> unat (t + 4 * i) + 4 \<le> unat (u + 4 * j)"
  proof (cases "t = u")
    case True
    with False have "unat i \<noteq> unat j" by (auto simp: word_unat_eq_iff)
    with True e show ?thesis by auto
  next
    case False
    with pages_apart [OF assms(1,2)] e assms(3,4) show ?thesis by auto
  qed
  with False show ?thesis
    using e room assms(3,4) by (subst load32_store32_other) auto
qed auto

lemma fill_entries_Suc:
  "fill_entries a (Suc n) g m =
     store32 (fill_entries a n g m) (a + 4 * of_nat n) (g n (fill_entries a n g m))"
  by (simp add: fill_entries_def)

lemma fill_entries_outside:
  assumes "page_aligned a" and "n \<le> 1024" and "unat x < unat a \<or> unat a + 4096 \<le> unat x"
  shows "fill_entries a n g m x = m x"
  using assms(2)
proof (induction n)
  case 0
  then show ?case by (simp add: fill_entries_def)
next
  case (Suc n)
  have "unat (a + 4 * of_nat n) = unat a + 4 * n"
    using unat_entry [OF assms(1), of "of_nat n"] Suc.prems by (simp add: unat_of_nat)
  with Suc assms(3) page_aligned_room [OF assms(1)] show ?case
    unfolding fill_entries_Suc by (subst store32_other) auto
qed

lemma load_fill_other [mem_simps]:
  assumes "page_aligned a" and "page_aligned b" and "a \<noteq> b" and "unat i < 1024"
  shows "load32 (fill_entries a 1024 g m) (b + 4 * i) = load32 m (b + 4 * i)"
proof (rule load32_cong)
  note e = unat_entry [OF assms(2,4)]
  show "unat (b + 4 * i) + 4 \<le> 2 ^ 32" using e page_aligned_room [OF assms(2)] assms(4) by simp
  fix x :: u32
  assume "unat (b + 4 * i) \<le> unat x" "unat x < unat (b + 4 * i) + 4"
  then show "fill_entries a 1024 g m x = m x"
    using e assms(4) pages_apart [OF assms(1,2,3)]
    by (intro fill_entries_outside [OF assms(1)]) auto
qed

lemma load_fill [mem_simps]:
  assumes a: "page_aligned a" and i: "unat i < 1024"
    and g: "\<And>k m'. k < 1024 \<Longrightarrow> (\<And>x. unat x < unat a \<or> unat a + 4096 \<le> unat x \<Longrightarrow> m' x = m x) \<Longrightarrow>
      g k m' = h k"
  shows "load32 (fill_entries a 1024 g m) (a + 4 * i) = h (unat i)"
proof -
  have "unat i < n \<Longrightarrow> n \<le> 1024 \<Longrightarrow> load32 (fill_entries a n g m) (a + 4 * i) = h (unat i)" for n
  proof (induction n)
    case (Suc n)
    have n: "unat (of_nat n :: u32) = n" using Suc.prems by (simp add: unat_of_nat)
    have "g n (fill_entries a n g m) = h n"
      by (rule g) (use Suc.prems fill_entries_outside [OF a] in auto)
    moreover have "(of_nat n = i) = (n = unat i)"
      using n by (auto simp: word_unat_eq_iff)
    ultimately show ?case
      using Suc load_entry_store [OF a a, of "of_nat n" i] i n by (auto simp: fill_entries_Suc)
  qed simp
  with i show ?thesis by simp
qed

text \<open>The indices are below 1024 and a page number is their combination.\<close>

lemma idx_bound [simp]: "unat (VMM_DIR_IDX va) < 1024" "unat (VMM_TBL_IDX va) < 1024"
  by (simp_all add: VMM_DIR_IDX_def VMM_TBL_IDX_def unat_and_3FF)

lemma unat_idx:
  "unat (VMM_DIR_IDX va) = unat va div 4096 div 1024"
  "unat (VMM_TBL_IDX va) = unat va div 4096 mod 1024"
proof -
  have "unat va div 4194304 < 1024" using unat_bound32 [of va] by simp
  then show "unat (VMM_DIR_IDX va) = unat va div 4096 div 1024"
    by (simp add: VMM_DIR_IDX_def unat_and_3FF unat_drop flip: div_mult2_eq)
  show "unat (VMM_TBL_IDX va) = unat va div 4096 mod 1024"
    by (simp add: VMM_TBL_IDX_def unat_and_3FF unat_drop)
qed

lemma same_page_iff:
  "VMM_DIR_IDX v = VMM_DIR_IDX w \<and> VMM_TBL_IDX v = VMM_TBL_IDX w \<longleftrightarrow> unat v div 4096 = unat w div 4096"
  unfolding word_unat_eq_iff unat_idx by (metis div_mult_mod_eq)

lemma PAGE_MASK_eq: "PAGE_MASK = NOT 0xFFF"
  by (simp add: PAGE_MASK_def)

lemma unat_PAGE_MASK: "unat (w AND PAGE_MASK) = unat w div 4096 * 4096"
  unfolding PAGE_MASK_eq by (rule unat_and_not_FFF)

lemma page_aligned_mask [simp]: "page_aligned (w AND PAGE_MASK)"
  by (simp add: page_aligned_def unat_PAGE_MASK)

lemma mask_aligned: "page_aligned a \<Longrightarrow> a AND PAGE_MASK = a"
proof (rule word_eq_by_unat)
  assume "page_aligned a"
  then show "unat (a AND PAGE_MASK) = unat a"
    by (auto simp: page_aligned_def unat_PAGE_MASK)
qed

lemma mask_or_flags: "page_aligned a \<Longrightarrow> f AND PAGE_MASK = 0 \<Longrightarrow> (a OR f) AND PAGE_MASK = a"
  by (simp add: bit.conj_disj_distrib2 mask_aligned)

lemma flags_mask [simp]:
  "PAGE_PRESENT AND PAGE_MASK = 0" "PAGE_WRITE AND PAGE_MASK = 0" "PAGE_USER AND PAGE_MASK = 0"
  by (simp_all add: PAGE_PRESENT_def PAGE_WRITE_def PAGE_USER_def PAGE_MASK_def)

lemma pde_frame [simp]:
  "page_aligned a \<Longrightarrow> (a OR PAGE_PRESENT OR PAGE_WRITE OR PAGE_USER) AND PAGE_MASK = a"
  "page_aligned a \<Longrightarrow> (a OR PAGE_PRESENT OR PAGE_WRITE) AND PAGE_MASK = a"
  by (simp_all add: mask_or_flags bit.conj_disj_distrib2 mask_aligned)

lemma or_present [simp]:
  "(a OR PAGE_PRESENT) AND PAGE_PRESENT \<noteq> 0" "(a OR PAGE_PRESENT OR b) AND PAGE_PRESENT \<noteq> 0"
proof -
  have "bit ((a OR PAGE_PRESENT) AND PAGE_PRESENT) 0"
      "bit ((a OR PAGE_PRESENT OR b) AND PAGE_PRESENT) 0"
    by (simp_all add: PAGE_PRESENT_def bit_simps)
  then show "(a OR PAGE_PRESENT) AND PAGE_PRESENT \<noteq> 0" "(a OR PAGE_PRESENT OR b) AND PAGE_PRESENT \<noteq> 0"
    by (metis bit_0_eq bot_apply bot_bool_def)+
qed

section \<open>Well-formed directories\<close>

definition pde :: "mem \<Rightarrow> u32 \<Rightarrow> u32 \<Rightarrow> u32" where
  "pde m dir i = load32 m (dir + 4 * i)"

definition present :: "u32 \<Rightarrow> bool" where
  "present e \<longleftrightarrow> e AND PAGE_PRESENT \<noteq> 0"

text \<open>No table of a directory is the directory itself, and no two slots share a table.\<close>

definition tables_ok :: "mem \<Rightarrow> u32 \<Rightarrow> bool" where
  "tables_ok m dir \<longleftrightarrow> page_aligned dir \<and>
     (\<forall>i. unat i < 1024 \<and> present (pde m dir i) \<longrightarrow> pde m dir i AND PAGE_MASK \<noteq> dir \<and>
       (\<forall>j. unat j < 1024 \<and> present (pde m dir j) \<and>
          pde m dir j AND PAGE_MASK = pde m dir i AND PAGE_MASK \<longrightarrow> j = i))"

text \<open>Moreover none of these frames is in the allocator's hands.\<close>

definition dir_wf :: "'a vmm_state_scheme \<Rightarrow> u32 \<Rightarrow> bool" where
  "dir_wf s dir \<longleftrightarrow> tables_ok (mem s) dir \<and> unat dir div 4096 \<notin> free_frames s \<and>
     (\<forall>i. unat i < 1024 \<and> present (pde (mem s) dir i) \<longrightarrow>
       unat (pde (mem s) dir i AND PAGE_MASK) div 4096 \<notin> free_frames s)"

lemma walk_pde:
  "walk m dir va = (if \<not> present (pde m dir (VMM_DIR_IDX va)) then None
     else let pte = load32 m ((pde m dir (VMM_DIR_IDX va) AND PAGE_MASK) + 4 * VMM_TBL_IDX va)
       in if present pte then Some pte else None)"
  by (simp add: walk_def pde_def present_def Let_def)

lemma tables_okD:
  assumes "tables_ok m dir" and "unat i < 1024" and "present (pde m dir i)"
  shows "pde m dir i AND PAGE_MASK \<noteq> dir"
    and "unat j < 1024 \<Longrightarrow> present (pde m dir j) \<Longrightarrow>
      pde m dir j AND PAGE_MASK = pde m dir i AND PAGE_MASK \<Longrightarrow> j = i"
  using assms by (auto simp: tables_ok_def)

lemma tables_ok_cong:
  assumes "\<And>i. unat i < 1024 \<Longrightarrow> pde m' dir i = pde m dir i"
  shows "tables_ok m' dir = tables_ok m dir"
proof -
  have "(unat i < 1024 \<and> P (pde m' dir i)) = (unat i < 1024 \<and> P (pde m dir i))" for i P
    using assms by auto
  then show ?thesis unfolding tables_ok_def using assms by (simp cong: conj_cong)
qed

text \<open>Writing one entry of a directory's table changes exactly one page's translation.\<close>

lemma pde_store_pte:
  assumes "tables_ok m dir" and "present (pde m dir (VMM_DIR_IDX virt))"
    and "pt = pde m dir (VMM_DIR_IDX virt) AND PAGE_MASK" and "unat i < 1024"
  shows "pde (store32 m (pt + 4 * VMM_TBL_IDX virt) w) dir i = pde m dir i"
  using assms tables_okD(1) [OF assms(1) idx_bound(1) assms(2)]
  by (auto simp: pde_def load_entry_store tables_ok_def)

lemma walk_store_pte:
  assumes ok: "tables_ok m dir" and pr: "present (pde m dir (VMM_DIR_IDX virt))"
    and pt: "pt = pde m dir (VMM_DIR_IDX virt) AND PAGE_MASK"
  shows "walk (store32 m (pt + 4 * VMM_TBL_IDX virt) w) dir v =
    (if unat v div 4096 = unat virt div 4096 then (if present w then Some w else None)
     else walk m dir v)"
proof -
  let ?m = "store32 m (pt + 4 * VMM_TBL_IDX virt) w"
  note pde [simp] = pde_store_pte [OF ok pr pt]
  show ?thesis
  proof (cases "present (pde m dir (VMM_DIR_IDX v))")
    case False
    with pr have "VMM_DIR_IDX v \<noteq> VMM_DIR_IDX virt" by auto
    then have "unat v div 4096 \<noteq> unat virt div 4096" using same_page_iff by blast
    with False show ?thesis by (simp add: walk_pde)
  next
    case True
    let ?pv = "pde m dir (VMM_DIR_IDX v) AND PAGE_MASK"
    have "(pt = ?pv) = (VMM_DIR_IDX v = VMM_DIR_IDX virt)"
      using tables_okD(2) [OF ok idx_bound(1) pr idx_bound(1) True] pt by metis
    then have "load32 ?m (?pv + 4 * VMM_TBL_IDX v) =
        (if unat v div 4096 = unat virt div 4096 then w else load32 m (?pv + 4 * VMM_TBL_IDX v))"
      using load_entry_store [OF _ page_aligned_mask idx_bound(2) idx_bound(2), of pt m virt w] pt
      by (simp add: same_page_iff [symmetric])
    with True show ?thesis by (simp add: walk_pde Let_def)
  qed
qed

text \<open>Installing an empty table in an absent slot changes no translation.\<close>

lemma install_table:
  assumes ok: "tables_ok m dir" and ab: "\<not> present (pde m dir di)" and di: "unat di < 1024"
    and pt: "page_aligned pt" "pt \<noteq> dir"
    and fresh: "\<And>i. unat i < 1024 \<Longrightarrow> present (pde m dir i) \<Longrightarrow> pde m dir i AND PAGE_MASK \<noteq> pt"
  defines "e \<equiv> pt OR PAGE_PRESENT OR PAGE_WRITE OR PAGE_USER"
  defines "m' \<equiv> store32 (fill_entries pt 1024 (\<lambda>_ _. 0) m) (dir + 4 * di) e"
  shows "\<And>i. unat i < 1024 \<Longrightarrow> pde m' dir i = (if i = di then e else pde m dir i)"
    and "walk m' dir = walk m dir" and "tables_ok m' dir"
proof -
  have al: "page_aligned dir" using ok by (simp add: tables_ok_def)
  have e: "e AND PAGE_MASK = pt" "present e" using pt by (simp_all add: e_def present_def)
  show p: "pde m' dir i = (if i = di then e else pde m dir i)" if "unat i < 1024" for i
    using that al pt di by (auto simp: m'_def pde_def load_entry_store load_fill_other)
  show "walk m' dir = walk m dir"
  proof
    fix v
    show "walk m' dir v = walk m dir v"
    proof (cases "VMM_DIR_IDX v = di")
      case True
      have "load32 m' (pt + 4 * VMM_TBL_IDX v) = 0"
        using al pt di load_fill [OF pt(1) idx_bound(2), of m "\<lambda>_ _. 0" "\<lambda>_. 0" v]
        by (auto simp: m'_def load_entry_store)
      with True ab e di show ?thesis by (simp add: walk_pde p Let_def) (simp add: present_def)
    next
      case False
      let ?q = "pde m dir (VMM_DIR_IDX v) AND PAGE_MASK"
      have "load32 m' (?q + 4 * VMM_TBL_IDX v) = load32 m (?q + 4 * VMM_TBL_IDX v)"
        if "present (pde m dir (VMM_DIR_IDX v))"
        using that al pt di fresh [OF idx_bound(1) that] tables_okD(1) [OF ok idx_bound(1) that]
        by (auto simp: m'_def load_entry_store load_fill_other)
      with False show ?thesis by (auto simp: walk_pde p Let_def)
    qed
  qed
  show "tables_ok m' dir"
    unfolding tables_ok_def using al e pt ok fresh
    by (auto simp: p tables_ok_def split: if_splits; metis)
qed

section \<open>Fields the operations leave alone\<close>

lemma pmm_upd [simp]:
  "free_frames (s\<lparr>mem := m\<rparr>) = free_frames s" "pmm_inv (s\<lparr>mem := m\<rparr>) = pmm_inv s"
  by (simp_all add: free_frames_def frame_used_def pmm_inv_def pmm_wf_def free_set_def)

lemma pmm_vmm_upd [simp]:
  "free_frames (s\<lparr>tlb := t\<rparr>) = free_frames s" "pmm_inv (s\<lparr>tlb := t\<rparr>) = pmm_inv s"
  "free_frames (s\<lparr>cr3 := a\<rparr>) = free_frames s" "pmm_inv (s\<lparr>cr3 := a\<rparr>) = pmm_inv s"
  "free_frames (s\<lparr>cr0 := a\<rparr>) = free_frames s" "pmm_inv (s\<lparr>cr0 := a\<rparr>) = pmm_inv s"
  by (simp_all add: free_frames_def frame_used_def pmm_inv_def pmm_wf_def free_set_def)

lemma kprintf_vmm_fields [simp]:
  "kernel_dir (kprintf f args s) = kernel_dir s" "identity_pt0 (kprintf f args s) = identity_pt0 s"
  "identity_pt1 (kprintf f args s) = identity_pt1 s" "cr0 (kprintf f args s) = cr0 s"
  "cr3 (kprintf f args s) = cr3 s" "tlb (kprintf f args s) = tlb s"
  by (rule kprintf_frame [of f args s]; simp)+

lemma pmm_kprintf [simp]:
  "free_frames (kprintf f args s) = free_frames s" "pmm_inv (kprintf f args s) = pmm_inv s"
  by (simp_all add: free_frames_def frame_used_def pmm_inv_def)

lemma take_frame_vmm_fields [simp]:
  "kernel_dir (take_frame f s) = kernel_dir s" "identity_pt0 (take_frame f s) = identity_pt0 s"
  "identity_pt1 (take_frame f s) = identity_pt1 s" "cr0 (take_frame f s) = cr0 s"
  "cr3 (take_frame f s) = cr3 s" "tlb (take_frame f s) = tlb s"
  by (simp_all add: take_frame_def bit_set_def Let_def)

text \<open>What an allocation gives the memory manager.\<close>

lemma pmm_alloc_vmm:
  fixes s :: "'a vmm_state_scheme"
  assumes inv: "pmm_inv s" and al: "pmm_alloc_page s = (p, s')"
  shows "mem s' = mem s" "kernel_dir s' = kernel_dir s" "cr3 s' = cr3 s" "tlb s' = tlb s"
    "pmm_inv s'" "free_frames s' \<subseteq> free_frames s" "p = 0 \<longleftrightarrow> free_frames s = {}" "page_aligned p"
    "p \<noteq> 0 \<Longrightarrow> unat p div 4096 \<in> free_frames s - free_frames s'"
proof -
  note a = pmm.alloc_aligned [OF inv al]
  show "p = 0 \<longleftrightarrow> free_frames s = {}" "page_aligned p" "pmm_inv s'"
    using a by (auto simp: page_aligned_def)
  have "s' = s \<or> (\<exists>f. s' = take_frame f s)"
    using pmm_alloc_page_none [OF inv] pmm_alloc_page_some(1) [OF inv] al
    by (cases "free_frames s = {}") auto
  then show "mem s' = mem s" "kernel_dir s' = kernel_dir s" "cr3 s' = cr3 s" "tlb s' = tlb s"
    by auto
  show "free_frames s' \<subseteq> free_frames s" by (rule pmm.alloc_cases [OF inv al]) auto
  show "p \<noteq> 0 \<Longrightarrow> unat p div 4096 \<in> free_frames s - free_frames s'"
    by (rule pmm.alloc_cases [OF inv al]) (auto simp: frame_word)
qed

lemma set_entry_fields [simp]:
  "mem (vmm_set_entry pt virt phys fl s) = store32 (mem s) (pt + 4 * VMM_TBL_IDX virt)
     ((phys AND PAGE_MASK) OR (fl AND 0xFFF) OR PAGE_PRESENT)"
  "tlb (vmm_set_entry pt virt phys fl s) = (tlb s)(drop_bit 12 virt := None)"
  "free_frames (vmm_set_entry pt virt phys fl s) = free_frames s"
  "pmm_inv (vmm_set_entry pt virt phys fl s) = pmm_inv s"
  "kernel_dir (vmm_set_entry pt virt phys fl s) = kernel_dir s"
  "cr3 (vmm_set_entry pt virt phys fl s) = cr3 s"
  by (simp_all add: vmm_set_entry_def invlpg_def)

lemma present_or [simp]: "present (a OR b OR PAGE_PRESENT)" "present (a OR PAGE_PRESENT)"
proof -
  show "present (a OR PAGE_PRESENT)" for a
    by (simp add: present_def) (simp add: PAGE_PRESENT_def)
  from this [of "a OR b"] show "present (a OR b OR PAGE_PRESENT)" by (simp add: or.assoc)
qed

lemma dir_wf_set_entry:
  assumes wf: "dir_wf s dir" and pr: "present (pde (mem s) dir (VMM_DIR_IDX virt))"
    and pt: "pt = pde (mem s) dir (VMM_DIR_IDX virt) AND PAGE_MASK"
  shows "dir_wf (vmm_set_entry pt virt phys fl s) dir"
proof -
  have ok: "tables_ok (mem s) dir" using wf by (simp add: dir_wf_def)
  note p = pde_store_pte [OF ok pr pt]
  show ?thesis using wf tables_ok_cong [OF p] by (auto simp: dir_wf_def p)
qed

section \<open>Mapping\<close>

definition map_entry :: "u32 \<Rightarrow> u32 \<Rightarrow> u32" where
  "map_entry phys fl = (phys AND PAGE_MASK) OR (fl AND 0xFFF) OR PAGE_PRESENT"

lemma vmm_map_page_spec:
  fixes s :: "'a vmm_state_scheme" and phys fl :: u32
  assumes wf: "dir_wf s dir" and inv: "pmm_inv s"
    and room: "present (pde (mem s) dir (VMM_DIR_IDX virt)) \<or> free_frames s \<noteq> {}"
  defines "s' \<equiv> vmm_map_page dir virt phys fl s"
  shows "dir_wf s' dir" and "pmm_inv s'" and "cr3 s' = cr3 s"
    and "tlb s' = (tlb s)(drop_bit 12 virt := None)"
    and "walk (mem s') dir v = (if unat v div 4096 = unat virt div 4096
      then Some (map_entry phys fl) else walk (mem s) dir v)"
proof -
  have ok: "tables_ok (mem s) dir" using wf by (simp add: dir_wf_def)
  let ?di = "VMM_DIR_IDX virt"
  have goal: "dir_wf s' dir \<and> pmm_inv s' \<and> cr3 s' = cr3 s \<and>
      tlb s' = (tlb s)(drop_bit 12 virt := None) \<and>
      walk (mem s') dir v = (if unat v div 4096 = unat virt div 4096
        then Some (map_entry phys fl) else walk (mem s) dir v)"
  proof (cases "present (pde (mem s) dir ?di)")
    case True
    let ?pt = "pde (mem s) dir ?di AND PAGE_MASK"
    have "s' = vmm_set_entry ?pt virt phys fl s"
      using True by (simp add: s'_def vmm_map_page_def pde_def present_def Let_def)
    then show ?thesis
      using dir_wf_set_entry [OF wf True refl, of phys fl] inv walk_store_pte [OF ok True refl]
      by (simp add: map_entry_def)
  next
    case False
    obtain pt s1 where al: "pmm_alloc_page s = (pt, s1)" by (cases "pmm_alloc_page s")
    note a = pmm_alloc_vmm [OF inv al]
    have pt: "pt \<noteq> 0" using a(7) room False by simp
    let ?e = "pt OR PAGE_PRESENT OR PAGE_WRITE OR PAGE_USER"
    define m2 where "m2 = store32 (fill_entries pt 1024 (\<lambda>_ _. 0) (mem s)) (dir + 4 * ?di) ?e"
    have new: "unat pt div 4096 \<in> free_frames s" "unat pt div 4096 \<notin> free_frames s1"
      using a(9) [OF pt] by auto
    have ne: "pt \<noteq> dir" using new(1) wf by (auto simp: dir_wf_def)
    have fresh: "pde (mem s) dir i AND PAGE_MASK \<noteq> pt"
      if "unat i < 1024" "present (pde (mem s) dir i)" for i
      using new(1) wf that by (auto simp: dir_wf_def)
    note i = install_table [OF ok False idx_bound(1) a(8) ne fresh, folded m2_def]
    let ?s2 = "s1\<lparr>mem := m2\<rparr>"
    have s': "s' = vmm_set_entry pt virt phys fl ?s2"
      using False al pt
      by (simp add: s'_def vmm_map_page_def pde_def present_def Let_def m2_def a(1))
    have e: "present ?e" "?e AND PAGE_MASK = pt" using a(8) by (simp_all add: present_def)
    have "dir_wf ?s2 dir"
      unfolding dir_wf_def using wf i(3) a(6) new(2) e
      by (auto simp: i(1) dir_wf_def split: if_splits)
    moreover have pr2: "present (pde m2 dir ?di)" and pt2: "pt = pde m2 dir ?di AND PAGE_MASK"
      using e by (simp_all add: i(1))
    ultimately show ?thesis
      using dir_wf_set_entry [of ?s2 dir virt pt phys fl] a(3,4,5) walk_store_pte [OF i(3) pr2 pt2]
      by (simp add: s' map_entry_def i(2))
  qed
  then show "dir_wf s' dir" "pmm_inv s'" "cr3 s' = cr3 s"
    "tlb s' = (tlb s)(drop_bit 12 virt := None)"
    "walk (mem s') dir v = (if unat v div 4096 = unat virt div 4096
      then Some (map_entry phys fl) else walk (mem s) dir v)" by auto
qed

section \<open>The kernel directory\<close>

text \<open>The linker's part: three aligned, distinct pages.\<close>

definition tables_placed :: "'a vmm_state_scheme \<Rightarrow> bool" where
  "tables_placed s \<longleftrightarrow>
     page_aligned (kernel_dir s) \<and> page_aligned (identity_pt0 s) \<and> page_aligned (identity_pt1 s) \<and>
     distinct [kernel_dir s, identity_pt0 s, identity_pt1 s]"

lemma vmm_tables_pde:
  assumes "tables_placed s" and "unat i < 1024"
  shows "pde (vmm_tables s) (kernel_dir s) i =
    (if i = 0 then identity_pt0 s OR PAGE_PRESENT OR PAGE_WRITE
     else if i = 1 then identity_pt1 s OR PAGE_PRESENT OR PAGE_WRITE else 0)"
proof -
  have al: "page_aligned (kernel_dir s)" using assms by (simp add: tables_placed_def)
  note z = load_fill [OF al assms(2), of _ "\<lambda>_ _. 0" "\<lambda>_. 0"]
  note st = load_entry_store [OF al al _ assms(2), of 0, simplified]
    load_entry_store [OF al al _ assms(2), of 1, simplified]
  show ?thesis by (auto simp: pde_def vmm_tables_def Let_def st z)
qed

lemma vmm_tables_pte:
  assumes "tables_placed s" and "unat i < 1024"
  shows "load32 (vmm_tables s) (identity_pt0 s + 4 * i) =
      i * 4096 OR PAGE_PRESENT OR PAGE_WRITE"
    and "load32 (vmm_tables s) (identity_pt1 s + 4 * i) =
      (1024 + i) * 4096 OR PAGE_PRESENT OR PAGE_WRITE"
proof -
  have al: "page_aligned (kernel_dir s)" "page_aligned (identity_pt0 s)" "page_aligned (identity_pt1 s)"
      "kernel_dir s \<noteq> identity_pt0 s" "kernel_dir s \<noteq> identity_pt1 s" "identity_pt1 s \<noteq> identity_pt0 s"
    using assms by (auto simp: tables_placed_def)
  note st = load_entry_store [OF al(1) _ _ assms(2), of _ 0, simplified]
    load_entry_store [OF al(1) _ _ assms(2), of _ 1, simplified]
  note pt0 = load_fill [OF al(2) assms(2), of _ "\<lambda>i _. of_nat i * 4096 OR PAGE_PRESENT OR PAGE_WRITE"
      "\<lambda>i. of_nat i * 4096 OR PAGE_PRESENT OR PAGE_WRITE"]
  note pt1 = load_fill [OF al(3) assms(2),
      of _ "\<lambda>i _. (1024 + of_nat i) * 4096 OR PAGE_PRESENT OR PAGE_WRITE"
      "\<lambda>i. (1024 + of_nat i) * 4096 OR PAGE_PRESENT OR PAGE_WRITE"]
  show "load32 (vmm_tables s) (identity_pt0 s + 4 * i) =
      i * 4096 OR PAGE_PRESENT OR PAGE_WRITE"
    using al assms(2) by (simp add: vmm_tables_def Let_def st load_fill_other pt0)
  show "load32 (vmm_tables s) (identity_pt1 s + 4 * i) =
      (1024 + i) * 4096 OR PAGE_PRESENT OR PAGE_WRITE"
    using al assms(2) by (simp add: vmm_tables_def Let_def st load_fill_other pt1 [simplified])
qed

lemma vmm_init_fields [simp]:
  "mem (vmm_init s) = vmm_tables s" "kernel_dir (vmm_init s) = kernel_dir s"
  "cr3 (vmm_init s) = kernel_dir s" "cr0 (vmm_init s) = cr0 s OR 0x80000000"
  "tlb (vmm_init s) = (\<lambda>_. None)" "free_frames (vmm_init s) = free_frames s"
  "pmm_inv (vmm_init s) = pmm_inv s"
  by (simp_all add: vmm_init_def vmm_switch_directory_def write_cr3_def Let_def)

lemma page_address:
  "VMM_DIR_IDX v = 0 \<Longrightarrow> VMM_TBL_IDX v * 4096 = v AND PAGE_MASK"
  "VMM_DIR_IDX v = 1 \<Longrightarrow> (1024 + VMM_TBL_IDX v) * 4096 = v AND PAGE_MASK"
proof -
  have t: "unat v div 4096 mod 1024 < 1024" by simp
  assume "VMM_DIR_IDX v = 0"
  then have d: "unat v div 4096 div 1024 = 0" using unat_idx(1) [of v] by simp
  then have "unat v div 4096 mod 1024 = unat v div 4096" by simp
  with t show "VMM_TBL_IDX v * 4096 = v AND PAGE_MASK"
    by (intro word_eq_by_unat) (simp add: unat_PAGE_MASK unat_idx unat_word_ariths unat_of_nat)
next
  have t: "unat v div 4096 mod 1024 < 1024" by simp
  assume "VMM_DIR_IDX v = 1"
  then have d: "unat v div 4096 div 1024 = 1" using unat_idx(1) [of v] by simp
  then have "1024 + unat v div 4096 mod 1024 = unat v div 4096"
    using div_mult_mod_eq [of "unat v div 4096" 1024] by simp
  with t show "(1024 + VMM_TBL_IDX v) * 4096 = v AND PAGE_MASK"
    by (intro word_eq_by_unat) (simp add: unat_PAGE_MASK unat_idx unat_word_ariths unat_of_nat)
qed

lemma dir_idx_low: "unat v < 0x800000 \<longleftrightarrow> VMM_DIR_IDX v = 0 \<or> VMM_DIR_IDX v = 1"
proof -
  have "VMM_DIR_IDX v = 0 \<longleftrightarrow> unat v div 4194304 = 0" "VMM_DIR_IDX v = 1 \<longleftrightarrow> unat v div 4194304 = 1"
    using unat_idx(1) [of v] by (simp_all add: word_unat_eq_iff flip: div_mult2_eq)
  then show ?thesis by auto
qed

lemma vmm_init_walk:
  assumes "tables_placed s"
  shows "walk (vmm_tables s) (kernel_dir s) v =
    (if unat v < 0x800000 then Some ((v AND PAGE_MASK) OR PAGE_PRESENT OR PAGE_WRITE) else None)"
proof -
  have al: "page_aligned (identity_pt0 s)" "page_aligned (identity_pt1 s)"
    using assms by (auto simp: tables_placed_def)
  have pr: "present (a OR PAGE_PRESENT OR PAGE_WRITE)" "\<not> present 0" for a
    by (simp_all add: present_def)
  note p = vmm_tables_pde [OF assms idx_bound(1) [of v]]
  note t = vmm_tables_pte [OF assms idx_bound(2) [of v]]
  consider "VMM_DIR_IDX v = 0" | "VMM_DIR_IDX v = 1" | "VMM_DIR_IDX v \<noteq> 0" "VMM_DIR_IDX v \<noteq> 1" by blast
  then show ?thesis
  proof cases
    case 1
    then show ?thesis
      using dir_idx_low [of v] p t(1) al page_address(1) [of v] by (simp add: walk_pde pr Let_def)
  next
    case 2
    then show ?thesis
      using dir_idx_low [of v] p t(2) al page_address(2) [of v] by (simp add: walk_pde pr Let_def)
  next
    case 3
    then show ?thesis using dir_idx_low [of v] p by (simp add: walk_pde pr)
  qed
qed

lemma dir_wf_vmm_init:
  assumes pl: "tables_placed s"
    and out: "unat (kernel_dir s) div 4096 \<notin> free_frames s"
      "unat (identity_pt0 s) div 4096 \<notin> free_frames s" "unat (identity_pt1 s) div 4096 \<notin> free_frames s"
  shows "dir_wf (vmm_init s) (kernel_dir s)"
proof -
  define k where "k = kernel_dir s"
  define m where "m = vmm_tables s"
  have pl': "page_aligned k" "page_aligned (identity_pt0 s)" "page_aligned (identity_pt1 s)"
      "k \<noteq> identity_pt0 s" "k \<noteq> identity_pt1 s" "identity_pt0 s \<noteq> identity_pt1 s"
    using pl by (auto simp: tables_placed_def k_def)
  have "present (pde m k i) \<longleftrightarrow> i = 0 \<or> i = 1" if "unat i < 1024" for i
    using vmm_tables_pde [OF pl that] by (simp add: m_def k_def present_def)
  moreover have "pde m k 0 AND PAGE_MASK = identity_pt0 s" "pde m k 1 AND PAGE_MASK = identity_pt1 s"
    using pl' vmm_tables_pde [OF pl, of 0] vmm_tables_pde [OF pl, of 1] by (simp_all add: m_def k_def)
  ultimately show ?thesis
    using out pl' unfolding dir_wf_def tables_ok_def vmm_init_fields k_def [symmetric] m_def [symmetric]
    by auto
qed

lemma page_and_offset: "(v AND PAGE_MASK) OR VMM_PAGE_OFF v = v"
  unfolding PAGE_MASK_eq VMM_PAGE_OFF_def
  by (metis and.commute bit.conj_disj_distrib bit.disj_cancel_left or.commute bit.conj_one_right)

section \<open>User directories\<close>

lemma load_copy_entries:
  assumes d: "page_aligned d" and k: "page_aligned k" and ne: "d \<noteq> k" and i: "unat i < 1024"
  shows "load32 (fill_entries d 1024 (\<lambda>i m. load32 m (k + 4 * of_nat i)) m) (d + 4 * i) =
    load32 m (k + 4 * i)"
proof -
  have src: "load32 m' (k + 4 * of_nat n) = load32 m (k + 4 * of_nat n)"
    if "n < 1024" and m': "\<And>x. unat x < unat d \<or> unat d + 4096 \<le> unat x \<Longrightarrow> m' x = m x" for n m'
  proof (rule load32_cong)
    have e: "unat (k + 4 * of_nat n) = unat k + 4 * n"
      using unat_entry [OF k, of "of_nat n"] that by (simp add: unat_of_nat)
    show "unat (k + 4 * of_nat n) + 4 \<le> 2 ^ 32" using e page_aligned_room [OF k] that by simp
    fix x :: u32
    assume "unat (k + 4 * of_nat n) \<le> unat x" "unat x < unat (k + 4 * of_nat n) + 4"
    then show "m' x = m x"
      using e that(1) pages_apart [OF d k ne] by (intro m') auto
  qed
  have "load32 (fill_entries d 1024 (\<lambda>i m. load32 m (k + 4 * of_nat i)) m) (d + 4 * i) =
      (\<lambda>n. load32 m (k + 4 * of_nat n)) (unat i)"
    by (rule load_fill [OF d i]) (rule src)
  then show ?thesis by simp
qed

lemma vmm_create_user_directory_spec:
  fixes s :: "'a vmm_state_scheme"
  assumes inv: "pmm_inv s" and wf: "dir_wf s (kernel_dir s)"
    and c: "vmm_create_user_directory s = (dir, s')" and nz: "dir \<noteq> 0"
  shows "unat dir div 4096 \<in> free_frames s - free_frames s'" and "pmm_inv s'"
    and "kernel_dir s' = kernel_dir s" and "page_aligned dir"
    and "\<And>i. unat i < 1024 \<Longrightarrow> pde (mem s') dir i = pde (mem s) (kernel_dir s) i"
    and "\<And>i. unat i < 1024 \<Longrightarrow> pde (mem s') (kernel_dir s) i = pde (mem s) (kernel_dir s) i"
    and "walk (mem s') dir = walk (mem s) (kernel_dir s)"
    and "walk (mem s') (kernel_dir s) = walk (mem s) (kernel_dir s)"
    and "tables_ok (mem s') dir"
proof -
  let ?k = "kernel_dir s"
  obtain p s1 where al: "pmm_alloc_page s = (p, s1)" by (cases "pmm_alloc_page s")
  note a = pmm_alloc_vmm [OF inv al]
  have p: "p = dir"
    using c al nz by (auto simp: vmm_create_user_directory_def split: if_splits)
  define m' where "m' = fill_entries dir 1024 (\<lambda>i m. load32 m (?k + 4 * of_nat i)) (mem s)"
  have s': "s' = s1\<lparr>mem := m'\<rparr>"
    using c al nz a(1,2) by (auto simp: vmm_create_user_directory_def m'_def split: if_splits)
  have new: "unat dir div 4096 \<in> free_frames s - free_frames s1" using a(9) nz p by simp
  show "unat dir div 4096 \<in> free_frames s - free_frames s'" "pmm_inv s'" "kernel_dir s' = ?k"
    using new a(2,5) by (simp_all add: s')
  show dal: "page_aligned dir" using a(8) p by simp
  have ok: "tables_ok (mem s) ?k" and kal: "page_aligned ?k"
    using wf by (simp_all add: dir_wf_def tables_ok_def)
  have ne: "dir \<noteq> ?k" using new wf by (auto simp: dir_wf_def)
  have nept: "dir \<noteq> pde (mem s) ?k i AND PAGE_MASK" if "unat i < 1024" "present (pde (mem s) ?k i)" for i
    using new wf that by (auto simp: dir_wf_def)
  have k: "pde m' ?k i = pde (mem s) ?k i" if "unat i < 1024" for i
    using load_fill_other [OF dal kal ne that] by (simp add: pde_def m'_def)
  have d: "pde m' dir i = pde (mem s) ?k i" if "unat i < 1024" for i
    using load_copy_entries [OF dal kal ne that] by (simp add: pde_def m'_def)
  have pt: "load32 m' ((pde (mem s) ?k (VMM_DIR_IDX v) AND PAGE_MASK) + 4 * VMM_TBL_IDX v) =
      load32 (mem s) ((pde (mem s) ?k (VMM_DIR_IDX v) AND PAGE_MASK) + 4 * VMM_TBL_IDX v)"
    if "present (pde (mem s) ?k (VMM_DIR_IDX v))" for v
    using load_fill_other [OF dal page_aligned_mask nept [OF idx_bound(1) that] idx_bound(2)]
    by (simp add: m'_def)
  show "pde (mem s') dir i = pde (mem s) ?k i" "pde (mem s') ?k i = pde (mem s) ?k i"
    if "unat i < 1024" for i using d k that by (simp_all add: s')
  show "walk (mem s') dir = walk (mem s) ?k" "walk (mem s') ?k = walk (mem s) ?k"
    by (auto simp: fun_eq_iff walk_pde s' d k pt Let_def)
  show "tables_ok (mem s') dir"
  proof -
    have "pde m' dir i AND PAGE_MASK \<noteq> dir \<and> (\<forall>j. unat j < 1024 \<and> present (pde m' dir j) \<and>
        pde m' dir j AND PAGE_MASK = pde m' dir i AND PAGE_MASK \<longrightarrow> j = i)"
      if "unat i < 1024" "present (pde m' dir i)" for i
      using nept [of i] tables_okD(2) [OF ok, of i] that by (metis d)
    with dal show ?thesis by (simp add: tables_ok_def s')
  qed
qed

section \<open>The address-space interface\<close>

text \<open>A directory as its clients see it: a partial map from pages to entries. \<open>room\<close> says that
  a mapping of the page can be made, which may take a frame.\<close>

locale address_space =
  fixes space_inv :: "'s \<Rightarrow> bool" and lookup :: "'s \<Rightarrow> u32 \<Rightarrow> u32 option"
    and room :: "'s \<Rightarrow> u32 \<Rightarrow> bool"
    and map_op :: "u32 \<Rightarrow> u32 \<Rightarrow> u32 \<Rightarrow> 's \<Rightarrow> 's" and unmap_op :: "u32 \<Rightarrow> 's \<Rightarrow> 's"
  assumes map_inv: "space_inv s \<Longrightarrow> room s v \<Longrightarrow> space_inv (map_op v p fl s)"
    and map_room: "space_inv s \<Longrightarrow> room s v \<Longrightarrow> room (map_op v p fl s) v"
    and map_lookup: "space_inv s \<Longrightarrow> room s v \<Longrightarrow> lookup (map_op v p fl s) w =
      (if unat w div 4096 = unat v div 4096 then Some (map_entry p fl) else lookup s w)"
    and unmap_inv: "space_inv s \<Longrightarrow> space_inv (unmap_op v s)"
    and unmap_lookup: "space_inv s \<Longrightarrow> lookup (unmap_op v s) w =
      (if unat w div 4096 = unat v div 4096 then None else lookup s w)"
begin

lemma unmap_after_map:
  "space_inv s \<Longrightarrow> room s v \<Longrightarrow> lookup (unmap_op v (map_op v p fl s)) w =
     (if unat w div 4096 = unat v div 4096 then None else lookup s w)"
  by (simp add: unmap_lookup map_lookup map_inv)

lemma last_map_wins:
  "space_inv s \<Longrightarrow> room s v \<Longrightarrow>
   lookup (map_op v q fl' (map_op v p fl s)) = lookup (map_op v q fl' s)"
  by (rule ext) (simp add: map_lookup map_inv map_room)

end

definition vm_room :: "u32 \<Rightarrow> 'a vmm_state_scheme \<Rightarrow> u32 \<Rightarrow> bool" where
  "vm_room dir s v \<longleftrightarrow> present (pde (mem s) dir (VMM_DIR_IDX v)) \<or> free_frames s \<noteq> {}"

definition vm_inv :: "u32 \<Rightarrow> 'a vmm_state_scheme \<Rightarrow> bool" where
  "vm_inv dir s \<longleftrightarrow> dir_wf s dir \<and> pmm_inv s"

lemma vm_room_map:
  fixes s :: "'a vmm_state_scheme"
  assumes "vm_inv dir s" and "vm_room dir s v"
  shows "vm_room dir (vmm_map_page dir v p fl s) v"
proof -
  have "walk (mem (vmm_map_page dir v p fl s)) dir v \<noteq> None"
    using assms vmm_map_page_spec(5) [of s dir v p fl v] by (simp add: vm_inv_def vm_room_def)
  then show ?thesis by (auto simp: vm_room_def walk_pde)
qed

lemma vmm_unmap_page_spec:
  assumes inv: "vm_inv dir s"
  shows "vm_inv dir (vmm_unmap_page dir virt s)"
    and "walk (mem (vmm_unmap_page dir virt s)) dir v =
      (if unat v div 4096 = unat virt div 4096 then None else walk (mem s) dir v)"
proof -
  have wf: "dir_wf s dir" and ok: "tables_ok (mem s) dir" using inv by (simp_all add: vm_inv_def dir_wf_def)
  let ?pt = "pde (mem s) dir (VMM_DIR_IDX virt) AND PAGE_MASK"
  have z: "\<not> present 0" by (simp add: present_def)
  have "vm_inv dir (vmm_unmap_page dir virt s) \<and> walk (mem (vmm_unmap_page dir virt s)) dir v =
      (if unat v div 4096 = unat virt div 4096 then None else walk (mem s) dir v)"
  proof (cases "present (pde (mem s) dir (VMM_DIR_IDX virt))")
    case False
    then have "vmm_unmap_page dir virt s = s"
      by (simp add: vmm_unmap_page_def pde_def present_def)
    moreover have "unat v div 4096 = unat virt div 4096 \<Longrightarrow> walk (mem s) dir v = None"
      using False same_page_iff [of v virt] by (simp add: walk_pde)
    ultimately show ?thesis using inv by simp
  next
    case True
    let ?s = "invlpg virt (s\<lparr>mem := store32 (mem s) (?pt + 4 * VMM_TBL_IDX virt) 0\<rparr>)"
    have "vmm_unmap_page dir virt s = ?s"
      using True by (simp add: vmm_unmap_page_def pde_def present_def Let_def)
    moreover have "vm_inv dir ?s"
      using inv tables_ok_cong [OF pde_store_pte [OF ok True refl]] pde_store_pte [OF ok True refl]
      by (auto simp: vm_inv_def dir_wf_def invlpg_def)
    ultimately show ?thesis
      using walk_store_pte [OF ok True refl, of 0 v] z by (simp add: invlpg_def)
  qed
  then show "vm_inv dir (vmm_unmap_page dir virt s)"
    "walk (mem (vmm_unmap_page dir virt s)) dir v =
      (if unat v div 4096 = unat virt div 4096 then None else walk (mem s) dir v)" by auto
qed

interpretation vm: address_space "vm_inv dir" "\<lambda>s. walk (mem s) dir" "vm_room dir"
    "vmm_map_page dir" "vmm_unmap_page dir" for dir
proof unfold_locales
  fix s :: "'a vmm_state_scheme" and v w p fl
  assume inv: "vm_inv dir s"
  show "vm_inv dir (vmm_unmap_page dir v s)"
    "walk (mem (vmm_unmap_page dir v s)) dir w =
      (if unat w div 4096 = unat v div 4096 then None else walk (mem s) dir w)"
    by (rule vmm_unmap_page_spec [OF inv])+
  assume r: "vm_room dir s v"
  show "vm_room dir (vmm_map_page dir v p fl s) v" by (rule vm_room_map [OF inv r])
  show "vm_inv dir (vmm_map_page dir v p fl s)"
    "walk (mem (vmm_map_page dir v p fl s)) dir w = (if unat w div 4096 = unat v div 4096
       then Some (map_entry p fl) else walk (mem s) dir w)"
    using inv r vmm_map_page_spec [of s dir v] by (auto simp: vm_inv_def vm_room_def)
qed

text \<open>The TLB never holds a translation the tables no longer give.\<close>

definition tlb_ok :: "'a vmm_state_scheme \<Rightarrow> bool" where
  "tlb_ok s \<longleftrightarrow> (\<forall>v pte. tlb s (drop_bit 12 v) = Some pte \<longrightarrow> walk (mem s) (cr3 s) v = Some pte)"

lemma page_number_eq: "drop_bit 12 v = (drop_bit 12 w :: u32) \<longleftrightarrow> unat v div 4096 = unat w div 4096"
  using unat_drop [of 12 v] unat_drop [of 12 w] unfolding word_unat_eq_iff [of "drop_bit 12 v"] by simp

section \<open>Properties\<close>

lemma map_entry_frame: "map_entry phys fl AND PAGE_MASK = phys AND PAGE_MASK"
proof -
  have "(0xFFF :: u32) AND PAGE_MASK = 0" by (simp add: PAGE_MASK_def)
  then have "(fl AND 0xFFF) AND PAGE_MASK = 0" by (simp add: and.assoc)
  then show ?thesis
    by (simp add: map_entry_def bit.conj_disj_distrib2 and.assoc)
qed

text \<open>A booted machine for the examples: the static tables behind the kernel image, and frame
  300 free.\<close>

definition vmm_boot :: vmm_state where
  "vmm_boot = vmm_init (frame_300_free
     \<lparr>ports = [], vga_buf = [], vga_col = 0, vga_row = 0, vga_color = 7, mem = (\<lambda>_. 0),
      bitmap = [], total_pages = 0, used_pages = 0, kernel_dir = 0x110000, identity_pt0 = 0x111000,
      identity_pt1 = 0x112000, cr0 = 17, cr3 = 0, tlb = (\<lambda>_. None)\<rparr>)"

lemma frame_300_free_vmm [simp]:
  "kernel_dir (frame_300_free s) = kernel_dir s" "identity_pt0 (frame_300_free s) = identity_pt0 s"
  "identity_pt1 (frame_300_free s) = identity_pt1 s" "cr0 (frame_300_free s) = cr0 s"
  "cr3 (frame_300_free s) = cr3 s" "tlb (frame_300_free s) = tlb s"
  by (simp_all add: frame_300_free_def give_frame_def bit_clear_def all_used_def Let_def)

lemma vmm_boot_facts:
  "kernel_dir vmm_boot = 0x110000" "vm_inv 0x110000 vmm_boot" "cr3 vmm_boot = 0x110000"
  "pmm_inv vmm_boot" "free_frames vmm_boot = {300}" "tlb vmm_boot = (\<lambda>_. None)"
  "walk (mem vmm_boot) 0x110000 v =
    (if unat v < 0x800000 then Some ((v AND PAGE_MASK) OR PAGE_PRESENT OR PAGE_WRITE) else None)"
proof -
  let ?s = "frame_300_free \<lparr>ports = [], vga_buf = [], vga_col = 0, vga_row = 0, vga_color = 7,
    mem = (\<lambda>_. 0), bitmap = [], total_pages = 0, used_pages = 0, kernel_dir = 0x110000,
    identity_pt0 = 0x111000, identity_pt1 = 0x112000, cr0 = 17, cr3 = 0, tlb = (\<lambda>_. None)\<rparr> :: vmm_state"
  have pl: "tables_placed ?s" by (simp add: tables_placed_def page_aligned_def)
  show "kernel_dir vmm_boot = 0x110000" "cr3 vmm_boot = 0x110000" "pmm_inv vmm_boot"
    "free_frames vmm_boot = {300}" "tlb vmm_boot = (\<lambda>_. None)"
    by (simp_all add: vmm_boot_def frame_300_free_facts)
  have "dir_wf vmm_boot (kernel_dir ?s)"
    unfolding vmm_boot_def by (rule dir_wf_vmm_init [OF pl]) (simp_all add: frame_300_free_facts)
  then show "vm_inv 0x110000 vmm_boot" using \<open>pmm_inv vmm_boot\<close> by (simp add: vm_inv_def)
  show "walk (mem vmm_boot) 0x110000 v =
    (if unat v < 0x800000 then Some ((v AND PAGE_MASK) OR PAGE_PRESENT OR PAGE_WRITE) else None)"
    using vmm_init_walk [OF pl, of v] by (simp add: vmm_boot_def)
qed

lemma vmm_boot_pde:
  "unat i < 1024 \<Longrightarrow> pde (mem vmm_boot) 0x110000 i =
     (if i = 0 then 0x111003 else if i = 1 then 0x112003 else 0)"
proof -
  let ?s = "frame_300_free \<lparr>ports = [], vga_buf = [], vga_col = 0, vga_row = 0, vga_color = 7,
    mem = (\<lambda>_. 0), bitmap = [], total_pages = 0, used_pages = 0, kernel_dir = 0x110000,
    identity_pt0 = 0x111000, identity_pt1 = 0x112000, cr0 = 17, cr3 = 0, tlb = (\<lambda>_. None)\<rparr> :: vmm_state"
  have pl: "tables_placed ?s" by (simp add: tables_placed_def page_aligned_def)
  show "unat i < 1024 \<Longrightarrow> ?thesis"
    using vmm_tables_pde [OF pl, of i] by (simp add: vmm_boot_def PAGE_PRESENT_def PAGE_WRITE_def)
qed

text \<open>
  C8. After \<open>vmm_init\<close> paging is on, CR3 holds the kernel directory, every address of the first
  8 MB translates to itself, every other address faults, and ring 3 can reach none of them.
\<close>

theorem vmm_init_identity:
  fixes s :: "'a vmm_state_scheme"
  assumes "tables_placed s"
  shows "cr3 (vmm_init s) = kernel_dir s \<and> bit (cr0 (vmm_init s)) 31 \<and>
    (\<forall>v. translate (mem (vmm_init s)) (cr3 (vmm_init s)) v =
        (if unat v < 8 * 1024 * 1024 then Some v else None)) \<and>
    (\<forall>v. \<not> user_access (mem (vmm_init s)) (cr3 (vmm_init s)) v)"
proof -
  have "bit (0x80000000 :: u32) 31" by simp
  then have b: "bit (cr0 (vmm_init s)) 31" by (simp add: bit_or_iff)
  have pf: "((v AND PAGE_MASK) OR PAGE_PRESENT OR PAGE_WRITE) AND PAGE_MASK = v AND PAGE_MASK" for v
    using pde_frame(2) [OF page_aligned_mask] by simp
  have "translate (mem (vmm_init s)) (kernel_dir s) v =
      (if unat v < 8 * 1024 * 1024 then Some v else None)" for v
    using vmm_init_walk [OF assms, of v] by (simp add: translate_def pf page_and_offset)
  moreover have "(v AND PAGE_MASK OR PAGE_PRESENT OR PAGE_WRITE) AND PAGE_USER = 0" for v
    by (simp add: bit.conj_disj_distrib2 and.assoc)
      (simp add: PAGE_MASK_def PAGE_USER_def PAGE_PRESENT_def PAGE_WRITE_def)
  then have "\<not> user_access (mem (vmm_init s)) (kernel_dir s) v" for v
    using vmm_init_walk [OF assms, of v] by (simp add: user_access_def)
  ultimately show ?thesis using b by simp
qed

theorem vmm_init_identity_witness:
  "let s = \<lparr>ports = [], vga_buf = [], vga_col = 0, vga_row = 0, vga_color = 7, mem = (\<lambda>_. 0),
     bitmap = [], total_pages = 0, used_pages = 0, kernel_dir = 0x110000, identity_pt0 = 0x111000,
     identity_pt1 = 0x112000, cr0 = 17, cr3 = 0, tlb = (\<lambda>_. None)\<rparr>
   in tables_placed s \<and> translate (mem (vmm_init s)) (cr3 (vmm_init s)) 0xB8000 = Some 0xB8000 \<and>
     translate (mem (vmm_init s)) (cr3 (vmm_init s)) 0x800000 = None"
proof -
  let ?s = "\<lparr>ports = [], vga_buf = [], vga_col = 0, vga_row = 0, vga_color = 7, mem = (\<lambda>_. 0),
     bitmap = [], total_pages = 0, used_pages = 0, kernel_dir = 0x110000, identity_pt0 = 0x111000,
     identity_pt1 = 0x112000, cr0 = 17, cr3 = 0, tlb = (\<lambda>_. None)\<rparr>"
  have "tables_placed ?s" by (simp add: tables_placed_def page_aligned_def)
  then show ?thesis using vmm_init_identity [of ?s] by (simp add: Let_def)
qed



text \<open>
  When a table is needed and no frame is left, \<open>vmm_map_page\<close> only prints: memory, TLB,
  CR3 and the allocator are unchanged, so the mapping is silently absent.
\<close>

theorem vmm_map_page_no_frame:
  fixes s :: "'a vmm_state_scheme"
  assumes "vm_inv dir s" and "\<not> vm_room dir s virt"
  shows "mem (vmm_map_page dir virt phys fl s) = mem s \<and>
    bitmap (vmm_map_page dir virt phys fl s) = bitmap s \<and>
    walk (mem (vmm_map_page dir virt phys fl s)) dir virt = None"
proof -
  have "pmm_alloc_page s = (0, s)" using assms pmm_alloc_page_none [of s] by (simp add: vm_inv_def vm_room_def)
  then show ?thesis
    using assms(2) by (auto simp: vm_room_def vmm_map_page_def present_def pde_def walk_def Let_def)
qed

theorem vmm_map_page_no_frame_witness:
  "\<not> vm_room 0x110000 (snd (pmm_alloc_page vmm_boot)) 0x900000 \<and>
   walk (mem (vmm_map_page 0x110000 0x900000 0x5000 2 (snd (pmm_alloc_page vmm_boot)))) 0x110000 0x900000 = None"
proof -
  let ?s = "snd (pmm_alloc_page vmm_boot)"
  note a = pmm_alloc_vmm [OF vmm_boot_facts(4), of "fst (pmm_alloc_page vmm_boot)" ?s, simplified]
  have f: "free_frames ?s = {}"
    using pmm_alloc_page_some [OF vmm_boot_facts(4)] by (simp add: vmm_boot_facts(5))
  have inv: "vm_inv 0x110000 ?s"
    using vmm_boot_facts(2) a(1,5) f by (simp add: vm_inv_def dir_wf_def)
  have "\<not> present (pde (mem vmm_boot) 0x110000 (VMM_DIR_IDX 0x900000))"
    by (simp add: vmm_boot_pde) (simp add: VMM_DIR_IDX_def present_def)
  then have r: "\<not> vm_room 0x110000 ?s 0x900000" using f a(1) by (simp add: vm_room_def)
  show ?thesis using vmm_map_page_no_frame [OF inv r] r by blast
qed

text \<open>
  \<open>vmm_create_user_directory\<close> returns NULL exactly when no frame is left; otherwise the new
  directory is a frame taken from the allocator, translates every address as the kernel
  directory does, and the kernel directory's own translations are untouched.
\<close>

theorem vmm_user_directory_copies_kernel:
  fixes s :: "'a vmm_state_scheme"
  assumes inv: "vm_inv (kernel_dir s) s" and c: "vmm_create_user_directory s = (dir, s')"
  shows "(dir = 0 \<longleftrightarrow> free_frames s = {}) \<and>
    (if dir = 0 then s' = s
     else unat dir div 4096 \<in> free_frames s - free_frames s' \<and> pmm_inv s' \<and>
       translate (mem s') dir = translate (mem s) (kernel_dir s) \<and>
       translate (mem s') (kernel_dir s') = translate (mem s) (kernel_dir s))"
proof -
  have pi: "pmm_inv s" and wf: "dir_wf s (kernel_dir s)" using inv by (simp_all add: vm_inv_def)
  obtain p s1 where al: "pmm_alloc_page s = (p, s1)" by (cases "pmm_alloc_page s")
  have "dir = p" using c al by (auto simp: vmm_create_user_directory_def split: if_splits)
  then have z: "dir = 0 \<longleftrightarrow> free_frames s = {}" using pmm_alloc_vmm(7) [OF pi al] by simp
  show ?thesis
  proof (cases "dir = 0")
    case True
    then have "s' = s"
      using z c pmm_alloc_page_none [OF pi] by (simp add: vmm_create_user_directory_def)
    with z True show ?thesis by simp
  next
    case False
    note d = vmm_create_user_directory_spec [OF pi wf c False]
    have "translate (mem s') dir = translate (mem s) (kernel_dir s)"
      "translate (mem s') (kernel_dir s) = translate (mem s) (kernel_dir s)"
      unfolding translate_def d(7) d(8) by simp_all
    with d(1-3) z False show ?thesis by simp
  qed
qed

theorem vmm_user_directory_copies_kernel_witness:
  "vm_inv (kernel_dir vmm_boot) vmm_boot \<and> fst (vmm_create_user_directory vmm_boot) \<noteq> 0"
  using vmm_user_directory_copies_kernel [of vmm_boot "fst (vmm_create_user_directory vmm_boot)"
      "snd (vmm_create_user_directory vmm_boot)"] vmm_boot_facts
  by simp

text \<open>
  C10. A user directory shares the kernel's page tables: mapping a page through it below a slot the
  kernel directory already uses (all of the first 8 MB) changes the kernel's own translation of
  that page as well.
\<close>

theorem vmm_user_map_changes_kernel:
  fixes s :: "'a vmm_state_scheme"
  assumes inv: "vm_inv (kernel_dir s) s" and c: "vmm_create_user_directory s = (dir, s')"
    and nz: "dir \<noteq> 0" and pr: "walk (mem s) (kernel_dir s) virt \<noteq> None"
  shows "walk (mem (vmm_map_page dir virt phys fl s')) (kernel_dir s) virt = Some (map_entry phys fl)"
proof -
  have pi: "pmm_inv s" and wf: "dir_wf s (kernel_dir s)" using inv by (simp_all add: vm_inv_def)
  note d = vmm_create_user_directory_spec [OF pi wf c nz]
  let ?di = "VMM_DIR_IDX virt" and ?k = "kernel_dir s"
  have p: "present (pde (mem s) ?k ?di)" using pr by (auto simp: walk_pde split: if_splits)
  have eq: "pde (mem s') dir ?di = pde (mem s') ?k ?di" using d(5,6) by simp
  have "tables_ok (mem s') ?k" using wf tables_ok_cong [OF d(6)] by (simp add: dir_wf_def)
  moreover have p': "present (pde (mem s') ?k ?di)" using p d(6) by simp
  moreover have "vmm_map_page dir virt phys fl s' =
      vmm_set_entry (pde (mem s') ?k ?di AND PAGE_MASK) virt phys fl s'"
    using p' eq by (simp add: vmm_map_page_def pde_def present_def Let_def)
  ultimately show ?thesis using walk_store_pte [of "mem s'" ?k virt] by (simp add: map_entry_def)
qed

theorem vmm_user_map_changes_kernel_witness:
  "let d = vmm_create_user_directory vmm_boot
   in walk (mem vmm_boot) 0x110000 0x600000 = Some 0x600003 \<and>
      walk (mem (vmm_map_page (fst d) 0x600000 0x5000 7 (snd d))) 0x110000 0x600000 = Some 0x5007"
proof -
  let ?d = "vmm_create_user_directory vmm_boot"
  have eq: "?d = (fst ?d, snd ?d)" by simp
  have inv: "vm_inv (kernel_dir vmm_boot) vmm_boot" by (simp add: vmm_boot_facts)
  have w: "walk (mem vmm_boot) 0x110000 0x600000 = Some 0x600003"
    by (simp add: vmm_boot_facts PAGE_MASK_def PAGE_PRESENT_def PAGE_WRITE_def)
  have "fst (pmm_alloc_page vmm_boot) \<noteq> 0"
    using pmm_alloc_vmm(7) [OF vmm_boot_facts(4) prod.collapse [symmetric]] vmm_boot_facts(5)
    by simp
  then have nz: "fst ?d \<noteq> 0"
    by (auto simp: vmm_create_user_directory_def split: prod.splits)
  show ?thesis
    using vmm_user_map_changes_kernel [OF inv eq nz, of "0x600000" "0x5000" 7] w vmm_boot_facts(1)
    by (simp add: Let_def map_entry_def PAGE_MASK_def PAGE_PRESENT_def)
qed

text \<open>
  A page-table slot that already exists keeps its directory entry, so asking for a user page
  below it does not make the page reachable from ring 3 when that entry lacks the user bit. All
  of the first 8 MB is of this kind after \<open>vmm_init\<close>.
\<close>

theorem vmm_map_page_user_flag_ignored:
  fixes s :: "'a vmm_state_scheme"
  assumes inv: "vm_inv dir s" and pr: "walk (mem s) dir virt \<noteq> None"
    and sup: "load32 (mem s) (dir + 4 * VMM_DIR_IDX virt) AND PAGE_USER = 0"
  shows "\<not> user_access (mem (vmm_map_page dir virt phys fl s)) dir virt"
proof -
  have ok: "tables_ok (mem s) dir" using inv by (simp add: vm_inv_def dir_wf_def)
  have p: "present (pde (mem s) dir (VMM_DIR_IDX virt))" using pr by (auto simp: walk_pde split: if_splits)
  have "mem (vmm_map_page dir virt phys fl s) = store32 (mem s)
      ((pde (mem s) dir (VMM_DIR_IDX virt) AND PAGE_MASK) + 4 * VMM_TBL_IDX virt) (map_entry phys fl)"
    using p by (simp add: vmm_map_page_def pde_def present_def Let_def map_entry_def)
  then have "pde (mem (vmm_map_page dir virt phys fl s)) dir (VMM_DIR_IDX virt) =
      pde (mem s) dir (VMM_DIR_IDX virt)"
    using pde_store_pte [OF ok p refl idx_bound(1)] by simp
  then show ?thesis using sup by (simp add: user_access_def pde_def split: option.splits)
qed

theorem vmm_map_page_user_flag_ignored_witness:
  "walk (mem vmm_boot) 0x110000 0x600000 \<noteq> None \<and>
   \<not> user_access (mem (vmm_map_page 0x110000 0x600000 0x600000 7 vmm_boot)) 0x110000 0x600000"
proof -
  have w: "walk (mem vmm_boot) 0x110000 0x600000 \<noteq> None" by (simp add: vmm_boot_facts)
  have l: "load32 (mem vmm_boot) (0x110000 + 4 * VMM_DIR_IDX 0x600000) AND PAGE_USER = 0"
    using vmm_boot_pde [of "VMM_DIR_IDX 0x600000"] unfolding pde_def
    by simp (simp add: VMM_DIR_IDX_def PAGE_USER_def)
  show ?thesis using vmm_map_page_user_flag_ignored [OF vmm_boot_facts(2) w l] w by blast
qed

lemma walk_same_page: "unat v div 4096 = unat w div 4096 \<Longrightarrow> walk m dir v = walk m dir w"
  using same_page_iff [of v w] by (simp add: walk_pde)

lemma tlb_ok_fill:
  assumes "tlb_ok s"
  shows "tlb_ok (tlb_fill virt s)"
  unfolding tlb_ok_def
proof (intro allI impI)
  fix v pte
  assume "tlb (tlb_fill virt s) (drop_bit 12 v) = Some pte"
  then show "walk (mem (tlb_fill virt s)) (cr3 (tlb_fill virt s)) v = Some pte"
    using assms walk_same_page [of v virt "mem s" "cr3 s"]
    by (cases "unat v div 4096 = unat virt div 4096")
      (simp_all add: tlb_fill_def page_number_eq tlb_ok_def)
qed



end
