(* ===== verification/Kheap.thy ===== *)
theory Kheap
  imports Vmm
begin

text \<open>
  The kernel heap (kernel/mm/heap.c): 16-byte block headers in memory, chained by address.
  \<open>chain\<close> relates the headers to the list of blocks they describe, \<open>alloc_blocks\<close> and
  \<open>free_blocks\<close> are the allocator on that list, and \<open>heap_rel\<close> is the refinement relation.
\<close>

definition HEAP_MAGIC :: u32 where "HEAP_MAGIC = 0xC0FFEE42"
definition ALIGN4 :: "u32 \<Rightarrow> u32" where "ALIGN4 x = (x + 3) AND NOT 3"
definition HDR_SIZE :: u32 where "HDR_SIZE = 16"

record heap_state = vmm_state +
  heap_head :: u32
  heap_start_addr :: u32
  heap_end_addr :: u32
  heap_used :: u32

section \<open>The source, function by function\<close>

text \<open>The fields of \<open>block_hdr_t\<close> at their offsets.\<close>

definition hdr_magic :: "mem \<Rightarrow> u32 \<Rightarrow> u32" where "hdr_magic m b = load32 m b"
definition hdr_size :: "mem \<Rightarrow> u32 \<Rightarrow> u32" where "hdr_size m b = load32 m (b + 4)"
definition hdr_used :: "mem \<Rightarrow> u32 \<Rightarrow> u8" where "hdr_used m b = m (b + 8)"
definition hdr_next :: "mem \<Rightarrow> u32 \<Rightarrow> u32" where "hdr_next m b = load32 m (b + 12)"

definition write_hdr :: "u32 \<Rightarrow> u32 \<Rightarrow> u8 \<Rightarrow> u32 \<Rightarrow> mem \<Rightarrow> mem" where
  "write_hdr b sz used nxt m =
     store32 ((store32 (store32 m b HEAP_MAGIC) (b + 4) sz)(b + 8 := used)) (b + 12) nxt"

definition heap_init :: "u32 \<Rightarrow> u32 \<Rightarrow> 'a heap_state_scheme \<Rightarrow> 'a heap_state_scheme" where
  "heap_init start sz s =
     (let s1 = s\<lparr>heap_start_addr := start, heap_end_addr := start + sz, heap_used := 0,
            heap_head := start, mem := write_hdr start (sz - HDR_SIZE) 0 0 (mem s)\<rparr>
      in kprintf ''[HEAP] Initialised at 0x%x, size %u KB\<newline>'' [AWord start, AWord (sz div 1024)] s1)"

text \<open>The split of a block that is large enough, then the marking of the block as used.\<close>

definition split_block :: "u32 \<Rightarrow> u32 \<Rightarrow> mem \<Rightarrow> mem" where
  "split_block blk sz m =
     (let split = blk + HDR_SIZE + sz;
          m1 = store32 m split HEAP_MAGIC;
          m2 = store32 m1 (split + 4) (hdr_size m1 blk - sz - HDR_SIZE);
          m3 = m2(split + 8 := 0);
          m4 = store32 m3 (split + 12) (hdr_next m3 blk);
          m5 = store32 m4 (blk + 4) sz
      in store32 m5 (blk + 12) split)"

definition take_block :: "u32 \<Rightarrow> u32 \<Rightarrow> 'a heap_state_scheme \<Rightarrow> u32 \<times> 'a heap_state_scheme" where
  "take_block sz blk s =
     (let m1 = (if sz + HDR_SIZE + 4 \<le> hdr_size (mem s) blk then split_block blk sz (mem s) else mem s);
          m2 = m1(blk + 8 := 1)
      in (blk + HDR_SIZE, s\<lparr>mem := m2, heap_used := heap_used s + hdr_size m2 blk\<rparr>))"

partial_function (option) kmalloc_walk ::
  "u32 \<Rightarrow> u32 \<Rightarrow> 'a heap_state_scheme \<Rightarrow> (u32 \<times> 'a heap_state_scheme) option" where
  "kmalloc_walk sz blk s =
     (if blk \<noteq> 0 then
        if hdr_magic (mem s) blk \<noteq> HEAP_MAGIC
        then Some (0, kprintf ''[HEAP] CORRUPTION: bad magic at 0x%x\<newline>'' [AWord blk] s)
        else if hdr_used (mem s) blk = 0 \<and> sz \<le> hdr_size (mem s) blk
        then Some (take_block sz blk s)
        else kmalloc_walk sz (hdr_next (mem s) blk) s
      else Some (0, kprintf ''[HEAP] Out of memory! Requested %u bytes\<newline>'' [AWord sz] s))"

definition kmalloc :: "u32 \<Rightarrow> 'a heap_state_scheme \<Rightarrow> (u32 \<times> 'a heap_state_scheme) option" where
  "kmalloc sz s =
     (if sz = 0 then Some (0, s) else kmalloc_walk (ALIGN4 sz) (heap_head s) s)"

definition kzalloc :: "u32 \<Rightarrow> 'a heap_state_scheme \<Rightarrow> (u32 \<times> 'a heap_state_scheme) option" where
  "kzalloc sz s =
     (case kmalloc sz s of
        None \<Rightarrow> None
      | Some (p, s1) \<Rightarrow> Some (p,
          if p \<noteq> 0 then s1\<lparr>mem := store_bytes (mem s1) p (replicate (unat sz) 0)\<rparr> else s1))"

definition coalesce :: "u32 \<Rightarrow> mem \<Rightarrow> mem" where
  "coalesce blk m =
     (if hdr_next m blk \<noteq> 0 \<and> hdr_used m (hdr_next m blk) = 0 then
        (let m1 = store32 m (blk + 4) (hdr_size m blk + (HDR_SIZE + hdr_size m (hdr_next m blk)))
         in store32 m1 (blk + 12) (hdr_next m1 (hdr_next m1 blk)))
      else m)"

definition kfree :: "u32 \<Rightarrow> 'a heap_state_scheme \<Rightarrow> 'a heap_state_scheme" where
  "kfree ptr s =
     (if ptr = 0 then s
      else let blk = ptr - HDR_SIZE in
        if hdr_magic (mem s) blk \<noteq> HEAP_MAGIC
        then kprintf (''[HEAP] kfree: bad magic at 0x%x '' @ [CHR 0xE2, CHR 0x80, CHR 0x94] @
               '' double-free or corruption\<newline>'') [AWord blk] s
        else if hdr_used (mem s) blk = 0
        then kprintf ''[HEAP] kfree: double-free detected at 0x%x\<newline>'' [AWord ptr] s
        else s\<lparr>heap_used := heap_used s - hdr_size (mem s) blk,
               mem := coalesce blk ((mem s)(blk + 8 := 0))\<rparr>)"

definition heap_dump_stats :: "'a heap_state_scheme \<Rightarrow> 'a heap_state_scheme" where
  "heap_dump_stats s =
     (let total = heap_end_addr s - heap_start_addr s;
          free_b = total - heap_used s - HDR_SIZE
      in kprintf ''[HEAP] Total: %u KB  Used: %u B  Free: %u B\<newline>''
           [AWord (total div 1024), AWord (heap_used s), AWord free_b] s)"

section \<open>The allocator on a list of blocks\<close>

text \<open>A block is its size and whether it is in use; \<open>a\<close> is the address of the first header.\<close>

type_synonym block = "nat \<times> bool"

fun alloc_blocks :: "nat \<Rightarrow> nat \<Rightarrow> block list \<Rightarrow> (nat \<times> block list) option" where
  "alloc_blocks k a [] = None"
| "alloc_blocks k a ((n, u) # bs) =
     (if \<not> u \<and> k \<le> n then
        Some (a + 16, if k + 20 \<le> n then (k, True) # (n - k - 16, False) # bs else (n, True) # bs)
      else case alloc_blocks k (a + 16 + n) bs of
          None \<Rightarrow> None | Some (p, bs') \<Rightarrow> Some (p, (n, u) # bs'))"

fun merge_next :: "nat \<Rightarrow> block list \<Rightarrow> block list" where
  "merge_next n ((k, False) # bs) = (n + 16 + k, False) # bs"
| "merge_next n bs = (n, False) # bs"

fun free_blocks :: "nat \<Rightarrow> nat \<Rightarrow> block list \<Rightarrow> block list" where
  "free_blocks p a [] = []"
| "free_blocks p a ((n, u) # bs) =
     (if p = a + 16 then merge_next n bs else (n, u) # free_blocks p (a + 16 + n) bs)"

text \<open>The blocks handed out, as payload address and size, and the bytes they hold.\<close>

fun live :: "nat \<Rightarrow> block list \<Rightarrow> (nat \<times> nat) set" where
  "live a [] = {}"
| "live a ((n, u) # bs) = (if u then {(a + 16, n)} else {}) \<union> live (a + 16 + n) bs"

definition used_bytes :: "block list \<Rightarrow> nat" where
  "used_bytes bs = (\<Sum>(n, u) \<leftarrow> bs. if u then n else 0)"

definition free_bytes :: "block list \<Rightarrow> nat" where
  "free_bytes bs = (\<Sum>(n, u) \<leftarrow> bs. if u then 0 else n)"

section \<open>Headers and blocks\<close>

definition is_hdr :: "mem \<Rightarrow> nat \<Rightarrow> nat \<Rightarrow> bool \<Rightarrow> nat \<Rightarrow> bool" where
  "is_hdr m a n u nxt \<longleftrightarrow> hdr_magic m (of_nat a) = HEAP_MAGIC \<and> hdr_size m (of_nat a) = of_nat n \<and>
     hdr_used m (of_nat a) = of_bool u \<and> hdr_next m (of_nat a) = of_nat nxt"

text \<open>The blocks tile the addresses from \<open>a\<close> up to \<open>e\<close>, in units of four bytes.\<close>

fun chain :: "mem \<Rightarrow> nat \<Rightarrow> block list \<Rightarrow> nat \<Rightarrow> bool" where
  "chain m a [] e = (a = e)"
| "chain m a ((n, u) # bs) e \<longleftrightarrow> n mod 4 = 0 \<and> is_hdr m a n u (if bs = [] then 0 else a + 16 + n) \<and>
     chain m (a + 16 + n) bs e"

lemma chain_le: "chain m a bs e \<Longrightarrow> a \<le> e"
  by (induction m a bs e rule: chain.induct) auto

lemma unat_of_nat32: "a < 2 ^ 32 \<Longrightarrow> unat (of_nat a :: u32) = a"
  by (simp add: unat_of_nat)

lemma is_hdr_cong:
  assumes "\<And>x. a \<le> unat x \<Longrightarrow> unat x < a + 16 \<Longrightarrow> m' x = m x" and "a + 16 \<le> 2 ^ 32"
  shows "is_hdr m' a n u nxt = is_hdr m a n u nxt"
proof -
  have a: "unat (of_nat a :: u32) = a" using assms(2) by (intro unat_of_nat32) simp
  then have u: "unat (of_nat a + 4 :: u32) = a + 4" "unat (of_nat a + 8 :: u32) = a + 8"
      "unat (of_nat a + 12 :: u32) = a + 12"
    using assms(2) by (simp_all add: unat_add_num)
  have "load32 m' (of_nat a) = load32 m (of_nat a)"
      "load32 m' (of_nat a + 4) = load32 m (of_nat a + 4)"
      "load32 m' (of_nat a + 12) = load32 m (of_nat a + 12)"
    using assms a u by (auto intro!: load32_cong)
  moreover have "m' (of_nat a + 8) = m (of_nat a + 8)" using u by (intro assms(1)) auto
  ultimately show ?thesis
    by (simp add: is_hdr_def hdr_magic_def hdr_size_def hdr_used_def hdr_next_def)
qed

lemma chain_cong:
  assumes "\<And>x. a \<le> unat x \<Longrightarrow> unat x < e \<Longrightarrow> m' x = m x" and "e < 2 ^ 32"
  shows "chain m a bs e \<Longrightarrow> chain m' a bs e"
  using assms
proof (induction m a bs e rule: chain.induct)
  case (2 m a n u bs e)
  then have le: "a + 16 + n \<le> e" using chain_le [of m "a + 16 + n" bs e] by simp
  have "is_hdr m' a n u nxt = is_hdr m a n u nxt" for nxt
    by (rule is_hdr_cong) (use 2 le in auto)
  moreover have "chain m' (a + 16 + n) bs e" by (rule 2) (use 2 in auto)
  ultimately show ?case using 2 by simp
qed simp

lemma is_hdr_write:
  assumes "a + 16 \<le> 2 ^ 32"
  shows "is_hdr (write_hdr (of_nat a) (of_nat n) (of_bool u) (of_nat nxt) m) a n u nxt"
proof -
  have a: "unat (of_nat a :: u32) = a" using assms by (intro unat_of_nat32) simp
  then have u: "unat (of_nat a + 4 :: u32) = a + 4" "unat (of_nat a + 8 :: u32) = a + 8"
      "unat (of_nat a + 12 :: u32) = a + 12"
    using assms by (simp_all add: unat_add_num)
  then show ?thesis using a assms
    by (simp add: is_hdr_def hdr_magic_def hdr_size_def hdr_used_def hdr_next_def write_hdr_def
        load32_store32_other load32_upd_other store32_other)
qed

lemma write_hdr_other:
  assumes "a + 16 \<le> 2 ^ 32" and "unat x < a \<or> a + 16 \<le> unat x"
  shows "write_hdr (of_nat a) n u nxt m x = m x"
proof -
  have a: "unat (of_nat a :: u32) = a" using assms by (intro unat_of_nat32) simp
  then have u: "unat (of_nat a + 4 :: u32) = a + 4" "unat (of_nat a + 8 :: u32) = a + 8"
      "unat (of_nat a + 12 :: u32) = a + 12"
    using assms(1) by (simp_all add: unat_add_num)
  then have "x \<noteq> of_nat a + 8" using assms(2) by auto
  with a u assms show ?thesis by (auto simp: write_hdr_def store32_other)
qed

section \<open>Updates of a header\<close>

lemma hdr_addrs:
  assumes "a + 16 \<le> 2 ^ 32"
  shows "unat (of_nat a :: u32) = a" "unat (of_nat a + 4 :: u32) = a + 4"
    "unat (of_nat a + 8 :: u32) = a + 8" "unat (of_nat a + 12 :: u32) = a + 12"
proof -
  show a: "unat (of_nat a :: u32) = a" using assms by (intro unat_of_nat32) simp
  show "unat (of_nat a + 4 :: u32) = a + 4" "unat (of_nat a + 8 :: u32) = a + 8"
    "unat (of_nat a + 12 :: u32) = a + 12"
    using a assms by (simp_all add: unat_add_num)
qed

lemmas hdr_defs = is_hdr_def hdr_magic_def hdr_size_def hdr_used_def hdr_next_def

lemma is_hdr_set_used:
  assumes "is_hdr m a n u nxt" and "a + 16 \<le> 2 ^ 32"
  shows "is_hdr (m(of_nat a + 8 := of_bool v)) a n v nxt"
  using assms hdr_addrs [OF assms(2)] by (simp add: hdr_defs load32_upd_other)

lemma is_hdr_set_size_next:
  assumes "is_hdr m a n u nxt" and "a + 16 \<le> 2 ^ 32"
  shows "is_hdr (store32 (store32 m (of_nat a + 4) (of_nat n')) (of_nat a + 12) (of_nat nxt')) a n' u nxt'"
  using assms hdr_addrs [OF assms(2)]
  by (simp add: hdr_defs load32_store32_other store32_other)

lemma hdr_store_other:
  assumes "a + 16 \<le> 2 ^ 32" and "unat x < a \<or> a + 16 \<le> unat x"
  shows "(m(of_nat a + 8 := v)) x = m x"
    and "store32 m (of_nat a + 4) w x = m x" and "store32 m (of_nat a + 12) w x = m x"
  using assms hdr_addrs [OF assms(1)] by (auto simp: store32_other)

lemma hdr_load_other:
  assumes "a + 16 \<le> 2 ^ 32" and "b + 16 \<le> 2 ^ 32" and "a + 16 \<le> b \<or> b + 16 \<le> a"
  shows "load32 (store32 m (of_nat a) w) (of_nat b + 4) = load32 m (of_nat b + 4)"
    and "load32 (store32 m (of_nat a) w) (of_nat b + 12) = load32 m (of_nat b + 12)"
    and "load32 (store32 m (of_nat a + 4) w) (of_nat b + 12) = load32 m (of_nat b + 12)"
    and "load32 (m(of_nat a + 8 := v)) (of_nat b + 12) = load32 m (of_nat b + 12)"
  using assms hdr_addrs [OF assms(1)] hdr_addrs [OF assms(2)]
  by (auto simp: load32_store32_other load32_upd_other)

section \<open>Taking a block\<close>

lemma split_block_eq:
  assumes h: "is_hdr m a n False nxt" and room: "a + 16 + n < 2 ^ 32" and fits: "k + 20 \<le> n"
  defines "b \<equiv> of_nat (a + 16 + k) :: u32"
  shows "split_block (of_nat a) (of_nat k) m =
    store32 (store32 (write_hdr b (of_nat (n - k - 16)) 0 (of_nat nxt) m) (of_nat a + 4) (of_nat k))
      (of_nat a + 12) b"
proof -
  have r: "a + 16 + k + 16 \<le> 2 ^ 32" "a + 16 \<le> 2 ^ 32" using room fits by auto
  have b: "of_nat a + HDR_SIZE + of_nat k = b" by (simp add: b_def HDR_SIZE_def)
  have "(of_nat n - of_nat k - HDR_SIZE :: u32) = of_nat (n - k - 16)"
    using fits by (simp add: HDR_SIZE_def of_nat_diff)
  then show ?thesis
    using h hdr_load_other [OF r] unfolding split_block_def b write_hdr_def
    by (simp add: Let_def hdr_defs b_def)
qed

lemma split_block_spec:
  assumes h: "is_hdr m a n False nxt" and room: "a + 16 + n < 2 ^ 32" and fits: "k + 20 \<le> n"
  defines "m' \<equiv> split_block (of_nat a) (of_nat k) m"
  shows "is_hdr m' a k False (a + 16 + k)" "is_hdr m' (a + 16 + k) (n - k - 16) False nxt"
    and "\<And>x. unat x < a \<or> a + 16 + n \<le> unat x \<Longrightarrow> m' x = m x"
proof -
  let ?b = "of_nat (a + 16 + k) :: u32"
  let ?w = "write_hdr ?b (of_nat (n - k - 16)) 0 (of_nat nxt) m"
  have r: "a + 16 + k + 16 \<le> 2 ^ 32" "a + 16 \<le> 2 ^ 32" using room fits by auto
  have m': "m' = store32 (store32 ?w (of_nat a + 4) (of_nat k)) (of_nat a + 12) ?b"
    unfolding m'_def by (rule split_block_eq [OF h room fits])
  have "is_hdr ?w a n False nxt"
    using h is_hdr_cong [of a ?w m n False nxt] write_hdr_other [OF r(1)] r(2) by auto
  then show "is_hdr m' a k False (a + 16 + k)"
    unfolding m' using r(2) by (rule is_hdr_set_size_next)
  have "is_hdr ?w (a + 16 + k) (n - k - 16) False nxt"
    using is_hdr_write [OF r(1), of "n - k - 16" False nxt m] by simp
  moreover have "is_hdr m' (a + 16 + k) (n - k - 16) False nxt = is_hdr ?w (a + 16 + k) (n - k - 16) False nxt"
    by (rule is_hdr_cong [OF _ r(1)]) (auto simp: m' hdr_store_other [OF r(2)])
  ultimately show "is_hdr m' (a + 16 + k) (n - k - 16) False nxt" by simp
  show "m' x = m x" if "unat x < a \<or> a + 16 + n \<le> unat x" for x
  proof -
    have "unat x < a \<or> a + 16 \<le> unat x" "unat x < a + 16 + k \<or> a + 16 + k + 16 \<le> unat x"
      using that fits by auto
    then show ?thesis
      unfolding m' by (simp only: hdr_store_other [OF r(2)] write_hdr_other [OF r(1)])
  qed
qed

lemma take_block_spec:
  fixes s :: "'a heap_state_scheme"
  assumes h: "is_hdr (mem s) a n False nxt" and room: "a + 16 + n < 2 ^ 32" and a: "4 \<le> a" and k: "k \<le> n"
  obtains m' where "take_block (of_nat k) (of_nat a) s =
      (of_nat (a + 16), s\<lparr>mem := m', heap_used := heap_used s + of_nat (if k + 20 \<le> n then k else n)\<rparr>)"
    and "if k + 20 \<le> n then is_hdr m' a k True (a + 16 + k) \<and> is_hdr m' (a + 16 + k) (n - k - 16) False nxt
      else is_hdr m' a n True nxt"
    and "\<And>x. unat x < a \<or> a + 16 + n \<le> unat x \<Longrightarrow> m' x = mem s x"
proof -
  have r: "a + 16 \<le> 2 ^ 32" using room by simp
  have sz: "hdr_size (mem s) (of_nat a) = of_nat n" using h by (simp add: is_hdr_def)
  have "unat (of_nat k + HDR_SIZE + 4 :: u32) = k + 20"
    using k room a by (simp add: HDR_SIZE_def unat_word_ariths unat_of_nat)
  then have c: "(of_nat k + HDR_SIZE + 4 \<le> (of_nat n :: u32)) = (k + 20 \<le> n)"
    using room by (simp add: word_le_nat_alt unat_of_nat32)
  define m1 where "m1 = (if k + 20 \<le> n then split_block (of_nat a) (of_nat k) (mem s) else mem s)"
  define sz' where "sz' = (if k + 20 \<le> n then k else n)"
  define nxt' where "nxt' = (if k + 20 \<le> n then a + 16 + k else nxt)"
  let ?m2 = "m1(of_nat a + 8 := 1)"
  note sp = split_block_spec [OF h room]
  have m1: "is_hdr m1 a sz' False nxt'" using h sp(1) by (simp add: m1_def sz'_def nxt'_def)
  then have m2: "is_hdr ?m2 a sz' True nxt'" using is_hdr_set_used [OF m1 r, of True] by simp
  have out: "?m2 x = m1 x" if "unat x < a \<or> a + 16 \<le> unat x" for x
    using hdr_store_other(1) [OF r that] .
  show thesis
  proof (rule that [of ?m2])
    show "take_block (of_nat k) (of_nat a) s = (of_nat (a + 16),
        s\<lparr>mem := ?m2, heap_used := heap_used s + of_nat (if k + 20 \<le> n then k else n)\<rparr>)"
    proof -
      have "hdr_size ?m2 (of_nat a) = of_nat sz'" using m2 by (simp add: is_hdr_def)
      moreover have "(of_nat a + HDR_SIZE :: u32) = of_nat (a + 16)" by (simp add: HDR_SIZE_def)
      ultimately show ?thesis
        unfolding take_block_def sz c m1_def [symmetric] Let_def sz'_def by simp
    qed
    have "is_hdr ?m2 (a + 16 + k) (n - k - 16) False nxt" if f: "k + 20 \<le> n"
    proof -
      have "is_hdr ?m2 (a + 16 + k) (n - k - 16) False nxt = is_hdr m1 (a + 16 + k) (n - k - 16) False nxt"
        by (rule is_hdr_cong) (use out f room in auto)
      then show ?thesis using sp(2) [OF f] f by (simp add: m1_def)
    qed
    with m2 show "if k + 20 \<le> n then is_hdr ?m2 a k True (a + 16 + k) \<and>
        is_hdr ?m2 (a + 16 + k) (n - k - 16) False nxt else is_hdr ?m2 a n True nxt"
      by (auto simp: sz'_def nxt'_def)
    show "?m2 x = mem s x" if "unat x < a \<or> a + 16 + n \<le> unat x" for x
    proof -
      have "?m2 x = m1 x" using that by (intro out) auto
      also have "\<dots> = mem s x" using that sp(3) [of k x] by (simp add: m1_def)
      finally show ?thesis .
    qed
  qed
qed

section \<open>The list allocator\<close>

fun span :: "block list \<Rightarrow> nat" where
  "span [] = 0"
| "span ((n, u) # bs) = 16 + n + span bs"

lemma chain_span: "chain m a bs e \<Longrightarrow> e = a + span bs"
  by (induction m a bs e rule: chain.induct) auto

lemma used_bytes_simps [simp]:
  "used_bytes [] = 0" "used_bytes ((n, u) # bs) = (if u then n else 0) + used_bytes bs"
  by (simp_all add: used_bytes_def)

lemma free_bytes_simps [simp]:
  "free_bytes [] = 0" "free_bytes ((n, u) # bs) = (if u then 0 else n) + free_bytes bs"
  by (simp_all add: free_bytes_def)

lemma span_bytes: "span bs = used_bytes bs + free_bytes bs + 16 * length bs"
  by (induction bs rule: span.induct) auto

lemma live_bounds: "(q, n) \<in> live a bs \<Longrightarrow> a + 16 \<le> q \<and> q + n \<le> a + span bs"
proof (induction a bs rule: live.induct)
  case (2 a n' u bs)
  then show ?case by (auto split: if_splits)
qed simp

text \<open>Distinct live blocks do not touch: at least a header lies between them.\<close>

lemma live_apart:
  "(p, n) \<in> live a bs \<Longrightarrow> (q, k) \<in> live a bs \<Longrightarrow> (p, n) \<noteq> (q, k) \<Longrightarrow> p + n + 16 \<le> q \<or> q + k + 16 \<le> p"
proof (induction a bs rule: live.induct)
  case (2 a n' u bs)
  consider "(p, n) \<in> live (a + 16 + n') bs" "(q, k) \<in> live (a + 16 + n') bs"
    | "(p, n) = (a + 16, n')" "(q, k) \<in> live (a + 16 + n') bs"
    | "(q, k) = (a + 16, n')" "(p, n) \<in> live (a + 16 + n') bs"
    using 2 by (auto split: if_splits)
  then show ?case
  proof cases
    case 1
    with 2 show ?thesis by blast
  next
    case 2
    then show ?thesis using live_bounds [of q k "a + 16 + n'" bs] by auto
  next
    case 3
    then show ?thesis using live_bounds [of p n "a + 16 + n'" bs] by auto
  qed
qed simp

lemma alloc_blocks_live:
  "alloc_blocks k a bs = Some (p, bs') \<Longrightarrow>
   \<exists>n. k \<le> n \<and> n < k + 20 \<and> live a bs' = insert (p, n) (live a bs) \<and> (p, n) \<notin> live a bs \<and>
     used_bytes bs' = used_bytes bs + n \<and> span bs' = span bs"
proof (induction k a bs arbitrary: p bs' rule: alloc_blocks.induct)
  case (2 k a n u bs)
  show ?case
  proof (cases "\<not> u \<and> k \<le> n")
    case True
    have fresh: "(a + 16, i) \<notin> live (a + 16 + j) bs" for i j
      using live_bounds [of "a + 16" i "a + 16 + j" bs] by auto
    have "a + 16 + (k + 16 + (n - (k + 16))) = a + 16 + n" if "k + 20 \<le> n" using that by simp
    with True 2 fresh show ?thesis
      by (intro exI [of _ "if k + 20 \<le> n then k else n"]) (auto simp: add.assoc split: if_splits)
  next
    case False
    then obtain bs'' where bs'': "alloc_blocks k (a + 16 + n) bs = Some (p, bs'')" "bs' = (n, u) # bs''"
      using 2(2) by (auto split: option.splits if_splits)
    obtain i where i: "k \<le> i" "i < k + 20" "live (a + 16 + n) bs'' = insert (p, i) (live (a + 16 + n) bs)"
        "(p, i) \<notin> live (a + 16 + n) bs" "used_bytes bs'' = used_bytes bs + i" "span bs'' = span bs"
      using 2(1) [OF False bs''(1)] by auto
    have "(p, i) \<in> live (a + 16 + n) bs''" using i(3) by simp
    then have "p \<noteq> a + 16" using live_bounds [of p i "a + 16 + n" bs''] by auto
    then show ?thesis using i bs''(2) by (intro exI [of _ i]) auto
  qed
qed simp

lemma alloc_blocks_none: "alloc_blocks k a bs = None \<longleftrightarrow> (\<forall>(n, u) \<in> set bs. u \<or> n < k)"
proof (induction k a bs rule: alloc_blocks.induct)
  case (2 k a n u bs)
  then show ?case by (cases "\<not> u \<and> k \<le> n") (auto split: option.splits)
qed simp

section \<open>The walk of the chain\<close>

definition mem_frame :: "nat \<Rightarrow> nat \<Rightarrow> (nat \<times> nat) set \<Rightarrow> mem \<Rightarrow> mem \<Rightarrow> bool" where
  "mem_frame a e L m m' \<longleftrightarrow> (\<forall>x. unat x < a \<or> e \<le> unat x \<or>
     (\<exists>(q, n) \<in> L. q \<le> unat x \<and> unat x < q + n) \<longrightarrow> m' x = m x)"

lemma mem_frame_Cons:
  assumes "mem_frame (a + 16 + n) e (live (a + 16 + n) bs) m m'"
  shows "mem_frame a e (live a ((n, u) # bs)) m m'"
  using assms by (force simp: mem_frame_def split: if_splits)

lemma chain_Cons_frame:
  assumes "chain m a ((n, u) # bs) e" and "mem_frame (a + 16 + n) e L m m'" and "e < 2 ^ 32"
    and "chain m' (a + 16 + n) bs' e" and "bs \<noteq> []" and "bs' \<noteq> []"
  shows "chain m' a ((n, u) # bs') e"
proof -
  have "a + 16 + n \<le> e" using assms(1) chain_le [of m "a + 16 + n" bs e] by simp
  then have "is_hdr m' a n u (a + 16 + n) = is_hdr m a n u (a + 16 + n)"
    using assms(2,3) by (intro is_hdr_cong) (auto simp: mem_frame_def)
  with assms show ?thesis by simp
qed

definition cut_block :: "nat \<Rightarrow> nat \<Rightarrow> block list \<Rightarrow> block list" where
  "cut_block k n bs = (if k + 20 \<le> n then (k, True) # (n - k - 16, False) # bs else (n, True) # bs)"

lemma used_bytes_cut:
  "(of_nat (used_bytes (cut_block k n bs)) - of_nat (used_bytes ((n, False) # bs)) :: u32) =
     of_nat (if k + 20 \<le> n then k else n)"
  by (simp add: cut_block_def)

lemma take_block_chain:
  fixes s :: "'a heap_state_scheme"
  assumes ch: "chain (mem s) a ((n, False) # bs) e" and a: "4 \<le> a" and e: "e < 2 ^ 32"
    and k: "k \<le> n" "k mod 4 = 0"
  obtains m' where "take_block (of_nat k) (of_nat a) s = (of_nat (a + 16),
      s\<lparr>mem := m', heap_used := heap_used s + of_nat (if k + 20 \<le> n then k else n)\<rparr>)"
    and "chain m' a (cut_block k n bs) e" and "mem_frame a e (live a ((n, False) # bs)) (mem s) m'"
proof -
  let ?nxt = "if bs = [] then 0 else a + 16 + n"
  have le: "a + 16 + n \<le> e" using ch chain_le [of "mem s" "a + 16 + n" bs e] by simp
  then have room: "a + 16 + n < 2 ^ 32" using e by simp
  have h: "is_hdr (mem s) a n False ?nxt" and n4: "n mod 4 = 0" using ch by auto
  obtain m' where m': "take_block (of_nat k) (of_nat a) s =
        (of_nat (a + 16), s\<lparr>mem := m', heap_used := heap_used s + of_nat (if k + 20 \<le> n then k else n)\<rparr>)"
      "if k + 20 \<le> n then is_hdr m' a k True (a + 16 + k) \<and> is_hdr m' (a + 16 + k) (n - k - 16) False ?nxt
       else is_hdr m' a n True ?nxt"
      "\<And>x. unat x < a \<or> a + 16 + n \<le> unat x \<Longrightarrow> m' x = mem s x"
    using take_block_spec [OF h room a k(1)] by metis
  have tl: "chain m' (a + 16 + n) bs e"
    using ch e m'(3) chain_cong [of "a + 16 + n" e m' "mem s" bs] by auto
  have "k + 20 \<le> n \<Longrightarrow> (n - k - 16) mod 4 = 0 \<and> a + 16 + k + 16 + (n - k - 16) = a + 16 + n"
    using n4 k(2) by presburger
  then have "chain m' a (cut_block k n bs) e"
    using m'(2) tl n4 k(2) by (auto simp: cut_block_def ac_simps)
  moreover have "mem_frame a e (live a ((n, False) # bs)) (mem s) m'"
    unfolding mem_frame_def
  proof (intro allI impI)
    fix x :: u32
    assume "unat x < a \<or> e \<le> unat x \<or>
      (\<exists>(q, i)\<in>live a ((n, False) # bs). q \<le> unat x \<and> unat x < q + i)"
    then show "m' x = mem s x"
      using le live_bounds [of _ _ "a + 16 + n" bs] by (intro m'(3)) force
  qed
  ultimately show thesis using m'(1) by (rule that [rotated 1])
qed

lemma kmalloc_walk_spec:
  fixes s :: "'a heap_state_scheme"
  assumes "chain (mem s) a bs e" and "4 \<le> a" and "e < 2 ^ 32" and "k < 2 ^ 32" and "k mod 4 = 0"
  shows "case alloc_blocks k a bs of
    None \<Rightarrow> kmalloc_walk (of_nat k) (if bs = [] then 0 else of_nat a) s =
      Some (0, kprintf ''[HEAP] Out of memory! Requested %u bytes\<newline>'' [AWord (of_nat k)] s)
  | Some (p, bs') \<Rightarrow> \<exists>m'. kmalloc_walk (of_nat k) (if bs = [] then 0 else of_nat a) s =
        Some (of_nat p, s\<lparr>mem := m',
          heap_used := heap_used s + (of_nat (used_bytes bs') - of_nat (used_bytes bs))\<rparr>) \<and>
      chain m' a bs' e \<and> bs' \<noteq> [] \<and> mem_frame a e (live a bs) (mem s) m'"
  using assms
proof (induction k a bs rule: alloc_blocks.induct)
  case (1 k a)
  then show ?case by (simp add: kmalloc_walk.simps)
next
  case (2 k a n u bs)
  have le: "a + 16 + n \<le> e" using "2.prems"(1) chain_le [of "mem s" "a + 16 + n" bs e] by simp
  let ?nxt = "if bs = [] then 0 else a + 16 + n"
  have h: "is_hdr (mem s) a n u ?nxt" and n4: "n mod 4 = 0" using "2.prems"(1) by auto
  have a: "(of_nat a :: u32) \<noteq> 0"
    using "2.prems"(2,3) le by (simp add: word_unat_eq_iff unat_of_nat32)
  have fit: "(of_nat k \<le> (of_nat n :: u32)) = (k \<le> n)"
    using "2.prems"(3,4) le by (simp add: word_le_nat_alt unat_of_nat32)
  have mg: "hdr_magic (mem s) (of_nat a) = HEAP_MAGIC" "hdr_size (mem s) (of_nat a) = of_nat n"
      "(hdr_used (mem s) (of_nat a) = 0) = (\<not> u)" "hdr_next (mem s) (of_nat a) = of_nat ?nxt"
    using h by (simp_all add: is_hdr_def)
  show ?case
  proof (cases "\<not> u \<and> k \<le> n")
    case True
    then have u: "u = False" and kn: "k \<le> n" by auto
    have ch: "chain (mem s) a ((n, False) # bs) e" using "2.prems"(1) u by simp
    have walk: "kmalloc_walk (of_nat k) (of_nat a) s = Some (take_block (of_nat k) (of_nat a) s)"
      using True a mg fit by (subst kmalloc_walk.simps) simp
    obtain m' where "take_block (of_nat k) (of_nat a) s = (of_nat (a + 16),
          s\<lparr>mem := m', heap_used := heap_used s + of_nat (if k + 20 \<le> n then k else n)\<rparr>)"
        "chain m' a (cut_block k n bs) e" "mem_frame a e (live a ((n, False) # bs)) (mem s) m'"
      using take_block_chain [OF ch "2.prems"(2,3) kn "2.prems"(5)] by metis
    then show ?thesis
      using u kn walk used_bytes_cut [of k n bs] by (auto simp: cut_block_def intro!: exI [of _ m'])
  next
    case False
    have step: "kmalloc_walk (of_nat k) (of_nat a) s =
        kmalloc_walk (of_nat k) (if bs = [] then 0 else of_nat (a + 16 + n)) s"
      using False a mg fit by (subst kmalloc_walk.simps) auto
    note IH = "2.IH" [OF False _ _ "2.prems"(3-5)]
    have c: "chain (mem s) (a + 16 + n) bs e" "4 \<le> a + 16 + n" using "2.prems" by auto
    show ?thesis
    proof (cases "alloc_blocks k (a + 16 + n) bs")
      case None
      with IH [OF c] False step show ?thesis by auto
    next
      case (Some r)
      obtain p bs' where r: "r = (p, bs')" by (cases r)
      then have ne: "bs \<noteq> []" using Some by auto
      obtain m' where m': "kmalloc_walk (of_nat k) (if bs = [] then 0 else of_nat (a + 16 + n)) s =
          Some (of_nat p, s\<lparr>mem := m', heap_used := heap_used s + (of_nat (used_bytes bs') - of_nat (used_bytes bs))\<rparr>)"
          "chain m' (a + 16 + n) bs' e" "bs' \<noteq> []"
          "mem_frame (a + 16 + n) e (live (a + 16 + n) bs) (mem s) m'"
        using IH [OF c] Some r by auto
      have "chain m' a ((n, u) # bs') e"
        by (rule chain_Cons_frame [OF "2.prems"(1) m'(4) "2.prems"(3) m'(2) ne m'(3)])
      moreover have "alloc_blocks k a ((n, u) # bs) = Some (p, (n, u) # bs')"
        using False Some r by auto
      ultimately show ?thesis
        using m'(1) step mem_frame_Cons [OF m'(4), of u] by (simp del: live.simps chain.simps) blast
    qed
  qed
qed

section \<open>Freeing a block\<close>

lemma coalesce_head:
  assumes h: "is_hdr m a n False (if bs = [] then 0 else a + 16 + n)"
    and ch: "chain m (a + 16 + n) bs e" and a: "4 \<le> a" and e: "e < 2 ^ 32" and n4: "n mod 4 = 0"
  shows "chain (coalesce (of_nat a) m) a (merge_next n bs) e"
    and "\<And>x. unat x < a \<or> a + 16 \<le> unat x \<Longrightarrow> coalesce (of_nat a) m x = m x"
proof -
  have le: "a + 16 + n \<le> e" using chain_le [OF ch] .
  have r: "a + 16 \<le> 2 ^ 32" using le e by simp
  have "chain (coalesce (of_nat a) m) a (merge_next n bs) e \<and>
    (\<forall>x. unat x < a \<or> a + 16 \<le> unat x \<longrightarrow> coalesce (of_nat a) m x = m x)"
  proof (cases bs)
    case Nil
    then have "coalesce (of_nat a) m = m" using h by (simp add: coalesce_def is_hdr_def)
    then show ?thesis using Nil h ch n4 by simp
  next
    case (Cons b bs2)
    obtain k v where b: "b = (k, v)" by (cases b)
    let ?q = "a + 16 + n" and ?nxt = "if bs2 = [] then 0 else a + 16 + n + 16 + k"
    have q: "is_hdr m ?q k v ?nxt" and tl: "chain m (?q + 16 + k) bs2 e" and k4: "k mod 4 = 0"
      using ch Cons b by auto
    have rq: "?q + 16 \<le> 2 ^ 32" using chain_le [OF tl] e by simp
    then have "unat (of_nat ?q :: u32) \<noteq> 0" by (subst unat_of_nat32) simp_all
    then have nz: "(of_nat ?q :: u32) \<noteq> 0" by (metis unat_0)
    have nx: "hdr_next m (of_nat a) = of_nat ?q" "hdr_used m (of_nat ?q) = of_bool v"
        "hdr_size m (of_nat a) = of_nat n" "hdr_size m (of_nat ?q) = of_nat k"
      using h q Cons by (simp_all add: is_hdr_def)
    show ?thesis
    proof (cases v)
      case True
      then have "coalesce (of_nat a) m = m" using nx by (simp add: coalesce_def)
      then show ?thesis using Cons b True h ch n4 by simp
    next
      case False
      let ?m1 = "store32 m (of_nat a + 4) (of_nat (n + 16 + k))"
      have "hdr_next ?m1 (of_nat a) = of_nat ?q"
        using nx(1) hdr_addrs [OF r] r by (simp add: hdr_next_def load32_store32_other)
      moreover have "hdr_next ?m1 (of_nat ?q) = of_nat ?nxt"
        using q hdr_load_other(3) [OF r rq, of m] by (simp add: hdr_next_def is_hdr_def)
      moreover have "(of_nat n + (HDR_SIZE + of_nat k) :: u32) = of_nat (n + 16 + k)"
        by (simp add: HDR_SIZE_def)
      ultimately have m': "coalesce (of_nat a) m = store32 ?m1 (of_nat a + 12) (of_nat ?nxt)"
        using nx nz False unfolding coalesce_def by (simp only: Let_def) simp
      have out: "coalesce (of_nat a) m x = m x" if "unat x < a \<or> a + 16 \<le> unat x" for x
        unfolding m' by (simp only: hdr_store_other(2,3) [OF r that])
      have "is_hdr (coalesce (of_nat a) m) a (n + 16 + k) False ?nxt"
        unfolding m' by (rule is_hdr_set_size_next [OF h r])
      moreover have "chain (coalesce (of_nat a) m) (?q + 16 + k) bs2 e"
        by (rule chain_cong [OF _ e tl]) (auto intro: out)
      moreover have "(n + 16 + k) mod 4 = 0" using n4 k4 by presburger
      ultimately have "chain (coalesce (of_nat a) m) a (merge_next n bs) e"
        using Cons b False by (cases "bs2 = []") (simp_all add: ac_simps)
      with out show ?thesis by blast
    qed
  qed
  then show "chain (coalesce (of_nat a) m) a (merge_next n bs) e"
    "\<And>x. unat x < a \<or> a + 16 \<le> unat x \<Longrightarrow> coalesce (of_nat a) m x = m x" by auto
qed

lemma merge_next_not_Nil [simp]: "merge_next n bs \<noteq> []"
  by (cases "(n, bs)" rule: merge_next.cases) auto

lemma free_blocks_not_Nil: "(p, n) \<in> live a bs \<Longrightarrow> free_blocks p a bs \<noteq> []"
  by (cases "(p, a, bs)" rule: free_blocks.cases) auto

text \<open>What freeing does to the blocks in use.\<close>

lemma merge_next_live:
  "live a (merge_next n bs) = live (a + 16 + n) bs" "used_bytes (merge_next n bs) = used_bytes bs"
  by (induction n bs rule: merge_next.induct) (auto simp: ac_simps)

lemma free_blocks_live:
  "(p, n) \<in> live a bs \<Longrightarrow> live a (free_blocks p a bs) = live a bs - {(p, n)} \<and>
     used_bytes bs = used_bytes (free_blocks p a bs) + n"
proof (induction a bs rule: live.induct)
  case (2 a k u bs)
  show ?case
  proof (cases "p = a + 16")
    case True
    have "(a + 16, j) \<notin> live (a + 16 + k) bs" for j
      using live_bounds [of "a + 16" j "a + 16 + k" bs] by auto
    then show ?thesis using 2 True by (auto simp: merge_next_live split: if_splits)
  next
    case False
    then have "(p, n) \<in> live (a + 16 + k) bs" using 2(2) by (auto split: if_splits)
    then show ?thesis using 2(1) False by auto
  qed
qed simp

lemma kfree_head:
  assumes ch: "chain m a ((n, True) # bs) e" and a: "4 \<le> a" and e: "e < 2 ^ 32"
  defines "m' \<equiv> coalesce (of_nat a) (m(of_nat a + 8 := 0))"
  shows "chain m' a (merge_next n bs) e" and "mem_frame a e (live (a + 16 + n) bs) m m'"
proof -
  let ?m1 = "m(of_nat a + 8 := 0)" and ?nxt = "if bs = [] then 0 else a + 16 + n"
  have le: "a + 16 + n \<le> e" using ch chain_le [of m "a + 16 + n" bs e] by simp
  have r: "a + 16 \<le> 2 ^ 32" using le e by simp
  note out = hdr_store_other(1) [OF r]
  have h: "is_hdr ?m1 a n False ?nxt"
    using is_hdr_set_used [of m a n True ?nxt False, OF _ r] ch by simp
  have tl: "chain ?m1 (a + 16 + n) bs e"
    by (rule chain_cong [OF out e]) (use ch in auto)
  note c = coalesce_head [OF h tl a e]
  show "chain m' a (merge_next n bs) e" using c(1) ch by (simp add: m'_def)
  have same: "m' x = m x" if "unat x < a \<or> a + 16 \<le> unat x" for x
    using c(2) [OF _ that] out [OF that] ch by (simp add: m'_def)
  show "mem_frame a e (live (a + 16 + n) bs) m m'"
    unfolding mem_frame_def
  proof (intro allI impI)
    fix x :: u32
    assume "unat x < a \<or> e \<le> unat x \<or> (\<exists>(q, i)\<in>live (a + 16 + n) bs. q \<le> unat x \<and> unat x < q + i)"
    then show "m' x = m x" using le live_bounds [of _ _ "a + 16 + n" bs] by (intro same) force
  qed
qed

lemma kfree_chain:
  assumes "chain m a bs e" and "(p, n) \<in> live a bs" and "4 \<le> a" and "e < 2 ^ 32"
  defines "m' \<equiv> coalesce (of_nat (p - 16)) (m(of_nat (p - 16) + 8 := 0))"
  shows "(\<exists>nxt. is_hdr m (p - 16) n True nxt) \<and> (\<exists>i nxt. is_hdr m' (p - 16) i False nxt) \<and>
    chain m' a (free_blocks p a bs) e \<and> mem_frame a e (live a bs - {(p, n)}) m m'"
  using assms(1-3)
proof (induction a bs rule: live.induct)
  case (2 a k u bs)
  show ?case
  proof (cases "p = a + 16")
    case True
    have "(p, j) \<notin> live (a + 16 + k) bs" for j
      using live_bounds [of p j "a + 16 + k" bs] True by auto
    then have u: "u" "n = k" "live a ((k, u) # bs) - {(p, n)} = live (a + 16 + k) bs"
      using 2(3) True by (auto split: if_splits)
    have "is_hdr m a k True (if bs = [] then 0 else a + 16 + k)" using 2(2) u by simp
    moreover have k: "chain m' a (merge_next k bs) e" "mem_frame a e (live (a + 16 + k) bs) m m'"
      using kfree_head [of m a k bs e] 2(2,4) assms(4) True u by (auto simp: m'_def)
    moreover have "\<exists>i nxt. is_hdr m' a i False nxt"
      using k(1) by (cases "(k, bs)" rule: merge_next.cases) auto
    ultimately show ?thesis using True u by auto
  next
    case False
    then have l: "(p, n) \<in> live (a + 16 + k) bs" using 2(3) by (auto split: if_splits)
    then have ne: "bs \<noteq> []" by auto
    have ch: "chain m (a + 16 + k) bs e" using 2(2) by simp
    have IH: "\<exists>nxt. is_hdr m (p - 16) n True nxt" "chain m' (a + 16 + k) (free_blocks p (a + 16 + k) bs) e"
        "mem_frame (a + 16 + k) e (live (a + 16 + k) bs - {(p, n)}) m m'"
        "\<exists>i nxt. is_hdr m' (p - 16) i False nxt"
      using 2(1) [OF ch l] 2(4) by auto
    have "chain m' a ((k, u) # free_blocks p (a + 16 + k) bs) e"
      by (rule chain_Cons_frame [OF 2(2) IH(3) assms(4) IH(2) ne free_blocks_not_Nil [OF l]])
    moreover have "mem_frame a e (live a ((k, u) # bs) - {(p, n)}) m m'"
      using IH(3) by (force simp: mem_frame_def split: if_splits)
    ultimately show ?thesis using IH(1,4) False by simp
  qed
qed simp

section \<open>The refinement relation\<close>

definition heap_rel :: "'a heap_state_scheme \<Rightarrow> block list \<Rightarrow> bool" where
  "heap_rel s bs \<longleftrightarrow> bs \<noteq> [] \<and> heap_head s = heap_start_addr s \<and> 4 \<le> unat (heap_start_addr s) \<and>
     4 dvd unat (heap_start_addr s) \<and> heap_used s = of_nat (used_bytes bs) \<and>
     chain (mem s) (unat (heap_start_addr s)) bs (unat (heap_end_addr s))"

lemma unat_ALIGN4: "sz \<le> 0xFFFFFFFC \<Longrightarrow> unat (ALIGN4 sz) = (unat sz + 3) div 4 * 4"
proof -
  assume "sz \<le> 0xFFFFFFFC"
  then have "unat (sz + 3) = unat sz + 3" by (subst unat_add_num) (simp_all add: word_le_nat_alt)
  then show ?thesis unfolding ALIGN4_def by (simp only: unat_and_not_3)
qed

lemma kprintf_heap_fields [simp]:
  "heap_head (kprintf f args s) = heap_head s" "heap_start_addr (kprintf f args s) = heap_start_addr s"
  "heap_end_addr (kprintf f args s) = heap_end_addr s" "heap_used (kprintf f args s) = heap_used s"
  by (rule kprintf_frame [of f args s]; simp)+

lemma heap_rel_kprintf [simp]: "heap_rel (kprintf f args s) bs = heap_rel s bs"
  by (simp add: heap_rel_def)

abbreviation heap_base :: "'a heap_state_scheme \<Rightarrow> nat" where
  "heap_base s \<equiv> unat (heap_start_addr s)"

abbreviation heap_top :: "'a heap_state_scheme \<Rightarrow> nat" where
  "heap_top s \<equiv> unat (heap_end_addr s)"

lemma kmalloc_refines:
  fixes s :: "'a heap_state_scheme"
  assumes rel: "heap_rel s bs" and sz: "sz \<noteq> 0"
  shows "case alloc_blocks (unat (ALIGN4 sz)) (heap_base s) bs of
    None \<Rightarrow> kmalloc sz s =
      Some (0, kprintf ''[HEAP] Out of memory! Requested %u bytes\<newline>'' [AWord (ALIGN4 sz)] s)
  | Some (p, bs') \<Rightarrow> \<exists>s'. kmalloc sz s = Some (of_nat p, s') \<and> heap_rel s' bs' \<and>
      heap_start_addr s' = heap_start_addr s \<and> heap_end_addr s' = heap_end_addr s \<and>
      mem_frame (heap_base s) (heap_top s) (live (heap_base s) bs) (mem s) (mem s')"
proof -
  let ?k = "unat (ALIGN4 sz)"
  have k: "?k < 2 ^ 32" "?k mod 4 = 0"
    using unat_bound32 [of "ALIGN4 sz"] unat_and_not_3 [of "sz + 3"]
    unfolding ALIGN4_def [symmetric] by simp_all
  have e: "heap_top s < 2 ^ 32" using unat_bound32 [of "heap_end_addr s"] by simp
  have r: "bs \<noteq> []" "heap_head s = heap_start_addr s" "4 \<le> heap_base s" "4 dvd heap_base s"
      "heap_used s = of_nat (used_bytes bs)" "chain (mem s) (heap_base s) bs (heap_top s)"
    using rel by (auto simp: heap_rel_def)
  have "kmalloc sz s = kmalloc_walk (of_nat ?k) (of_nat (heap_base s)) s"
    using sz r(2) by (simp add: kmalloc_def)
  with kmalloc_walk_spec [OF r(6,3) e k] r show ?thesis
    by (auto simp: heap_rel_def split: option.splits prod.splits)
qed

lemma kfree_refines:
  fixes s :: "'a heap_state_scheme"
  assumes rel: "heap_rel s bs" and l: "(p, n) \<in> live (heap_base s) bs"
  shows "heap_rel (kfree (of_nat p) s) (free_blocks p (heap_base s) bs)"
    and "heap_start_addr (kfree (of_nat p) s) = heap_start_addr s"
    and "heap_end_addr (kfree (of_nat p) s) = heap_end_addr s"
    and "mem_frame (heap_base s) (heap_top s) (live (heap_base s) bs - {(p, n)}) (mem s)
      (mem (kfree (of_nat p) s))"
    and "kfree (of_nat p) (kfree (of_nat p) s) =
      kprintf ''[HEAP] kfree: double-free detected at 0x%x\<newline>'' [AWord (of_nat p)] (kfree (of_nat p) s)"
proof -
  have e: "heap_top s < 2 ^ 32" using unat_bound32 [of "heap_end_addr s"] by simp
  have ch: "chain (mem s) (heap_base s) bs (heap_top s)" and a: "4 \<le> heap_base s"
    using rel by (auto simp: heap_rel_def)
  let ?m' = "coalesce (of_nat (p - 16)) ((mem s)(of_nat (p - 16) + 8 := 0))"
  obtain nxt i nxt' where h: "is_hdr (mem s) (p - 16) n True nxt" "is_hdr ?m' (p - 16) i False nxt'"
    and c: "chain (coalesce (of_nat (p - 16)) ((mem s)(of_nat (p - 16) + 8 := 0))) (heap_base s)
      (free_blocks p (heap_base s) bs) (heap_top s)"
    and f: "mem_frame (heap_base s) (heap_top s) (live (heap_base s) bs - {(p, n)}) (mem s)
      (coalesce (of_nat (p - 16)) ((mem s)(of_nat (p - 16) + 8 := 0)))"
    using kfree_chain [OF ch l a e] by blast
  have b: "heap_base s + 16 \<le> p" "p \<le> heap_top s"
    using live_bounds [OF l] chain_span [OF ch] by auto
  have "unat (of_nat p :: u32) = p" using b e by (intro unat_of_nat32) simp
  then have p0: "(of_nat p :: u32) \<noteq> 0" using b a by (metis unat_0 add_is_0 le_zero_eq zero_neq_numeral)
  have p16: "(of_nat p - HDR_SIZE :: u32) = of_nat (p - 16)" using b by (simp add: HDR_SIZE_def of_nat_diff)
  have k: "kfree (of_nat p) s = s\<lparr>heap_used := heap_used s - of_nat n,
      mem := coalesce (of_nat (p - 16)) ((mem s)(of_nat (p - 16) + 8 := 0))\<rparr>"
    using h(1) p0 unfolding kfree_def p16 by (simp add: is_hdr_def Let_def)
  have "used_bytes bs = used_bytes (free_blocks p (heap_base s) bs) + n"
    using free_blocks_live [OF l] by simp
  then show "heap_rel (kfree (of_nat p) s) (free_blocks p (heap_base s) bs)"
    using rel c free_blocks_not_Nil [OF l] by (simp add: heap_rel_def k)
  show "heap_start_addr (kfree (of_nat p) s) = heap_start_addr s"
    "heap_end_addr (kfree (of_nat p) s) = heap_end_addr s"
    "mem_frame (heap_base s) (heap_top s) (live (heap_base s) bs - {(p, n)}) (mem s)
      (mem (kfree (of_nat p) s))"
    using f by (simp_all add: k)
  have "mem (kfree (of_nat p) s) = ?m'" by (simp add: k)
  then show "kfree (of_nat p) (kfree (of_nat p) s) =
      kprintf ''[HEAP] kfree: double-free detected at 0x%x\<newline>'' [AWord (of_nat p)] (kfree (of_nat p) s)"
    using h(2) p0 unfolding kfree_def [of _ "kfree (of_nat p) s"] p16 by (simp add: is_hdr_def Let_def)
qed

text \<open>The headers determine the blocks.\<close>

lemma chain_unique:
  assumes "chain m a bs e" and "chain m a bs' e" and "e < 2 ^ 32"
  shows "bs = bs'"
  using assms(1,2)
proof (induction bs arbitrary: a bs')
  case Nil
  then show ?case using chain_span [of m a bs' e] by (cases bs' rule: span.cases) auto
next
  case (Cons b bs)
  obtain n u where b: "b = (n, u)" by (cases b)
  obtain n' u' ds where bs': "bs' = (n', u') # ds"
    using Cons.prems chain_span [of m a bs' e] chain_span [of m a "b # bs" e] b
    by (cases bs' rule: span.cases) auto
  have le: "a + 16 + n \<le> e" "a + 16 + n' \<le> e"
    using Cons.prems b bs' chain_le [of m _ _ e] by auto
  have n: "(of_nat n :: u32) = of_nat n'" and u: "(of_bool u :: u8) = of_bool u'"
    using Cons.prems b bs' by (auto simp: is_hdr_def)
  have "unat (of_nat n :: u32) = n" "unat (of_nat n' :: u32) = n'"
    using assms(3) le by (auto intro!: unat_of_nat32)
  then have "n = n'" using n by metis
  moreover have "u = u'" using u by (cases u; cases u'; simp)
  ultimately show ?case using Cons b bs' by auto
qed

definition heap_inv :: "'a heap_state_scheme \<Rightarrow> bool" where
  "heap_inv s \<longleftrightarrow> (\<exists>bs. heap_rel s bs)"

definition heap_live :: "'a heap_state_scheme \<Rightarrow> (nat \<times> nat) set" where
  "heap_live s = {b. \<exists>bs. heap_rel s bs \<and> b \<in> live (heap_base s) bs}"

lemma heap_rel_chain: "heap_rel s bs \<Longrightarrow> chain (mem s) (heap_base s) bs (heap_top s)"
  by (simp add: heap_rel_def)

lemma heap_top_bound: "heap_top s < 2 ^ 32"
  using unat_bound32 [of "heap_end_addr s"] by simp

lemma heap_live_eq: "heap_rel s bs \<Longrightarrow> heap_live s = live (heap_base s) bs"
proof -
  assume rel: "heap_rel s bs"
  have "bs' = bs" if "heap_rel s bs'" for bs'
    by (rule chain_unique [OF heap_rel_chain [OF that] heap_rel_chain [OF rel] heap_top_bound])
  then have "heap_rel s bs' \<longleftrightarrow> bs' = bs" for bs' using rel by blast
  then show ?thesis by (simp add: heap_live_def)
qed

definition keeps_blocks :: "(nat \<times> nat) set \<Rightarrow> mem \<Rightarrow> mem \<Rightarrow> bool" where
  "keeps_blocks L m m' \<longleftrightarrow> (\<forall>(q, n) \<in> L. \<forall>x. q \<le> unat x \<and> unat x < q + n \<longrightarrow> m' x = m x)"

lemma mem_frame_keeps: "mem_frame a e L m m' \<Longrightarrow> keeps_blocks L m m'"
  by (force simp: mem_frame_def keeps_blocks_def)

lemma keeps_blocks_trans:
  "keeps_blocks L m m' \<Longrightarrow> keeps_blocks L m' m'' \<Longrightarrow> keeps_blocks L m m''"
  unfolding keeps_blocks_def by fastforce

section \<open>The allocator interface\<close>

text \<open>What the rest of the kernel relies on. A block is an address and a size.\<close>

locale block_allocator =
  fixes alloc :: "u32 \<Rightarrow> 's \<Rightarrow> (u32 \<times> 's) option" and release :: "u32 \<Rightarrow> 's \<Rightarrow> 's"
    and in_use :: "'s \<Rightarrow> (nat \<times> nat) set" and contents :: "'s \<Rightarrow> mem" and alloc_inv :: "'s \<Rightarrow> bool"
  assumes alloc_ok: "alloc_inv s \<Longrightarrow> 0 < sz \<Longrightarrow> sz \<le> 0xFFFFFFFC \<Longrightarrow>
      \<exists>p s'. alloc sz s = Some (p, s') \<and> alloc_inv s' \<and> keeps_blocks (in_use s) (contents s) (contents s') \<and>
        (if p = 0 then in_use s' = in_use s
         else \<exists>n. unat sz \<le> n \<and> (unat p, n) \<notin> in_use s \<and> in_use s' = insert (unat p, n) (in_use s))"
    and apart: "alloc_inv s \<Longrightarrow> (a, n) \<in> in_use s \<Longrightarrow> (b, k) \<in> in_use s \<Longrightarrow> (a, n) \<noteq> (b, k) \<Longrightarrow>
      a + n \<le> b \<or> b + k \<le> a"
    and release_ok: "alloc_inv s \<Longrightarrow> (unat p, n) \<in> in_use s \<Longrightarrow> alloc_inv (release p s) \<and>
      in_use (release p s) = in_use s - {(unat p, n)} \<and>
      keeps_blocks (in_use s - {(unat p, n)}) (contents s) (contents (release p s))"
begin

lemma alloc_fresh:
  assumes "alloc_inv s" and "0 < sz" and "sz \<le> 0xFFFFFFFC" and "alloc sz s = Some (p, s')" and "p \<noteq> 0"
  obtains n where "unat sz \<le> n" "in_use s' = insert (unat p, n) (in_use s)" "(unat p, n) \<notin> in_use s"
    "alloc_inv s'" "keeps_blocks (in_use s) (contents s) (contents s')"
    "\<And>q k. (q, k) \<in> in_use s \<Longrightarrow> unat p + n \<le> q \<or> q + k \<le> unat p"
proof -
  obtain n where n: "unat sz \<le> n" "(unat p, n) \<notin> in_use s" "in_use s' = insert (unat p, n) (in_use s)"
      "alloc_inv s'" "keeps_blocks (in_use s) (contents s) (contents s')"
    using alloc_ok [OF assms(1-3)] assms(4,5) by auto
  moreover have "unat p + n \<le> q \<or> q + k \<le> unat p" if "(q, k) \<in> in_use s" for q k
    using apart [OF n(4), of "unat p" n q k] n(2,3) that by auto
  ultimately show thesis using that by blast
qed

lemma alloc_release:
  assumes "alloc_inv s" and "0 < sz" and "sz \<le> 0xFFFFFFFC" and "alloc sz s = Some (p, s')" and "p \<noteq> 0"
  shows "in_use (release p s') = in_use s \<and> alloc_inv (release p s') \<and>
    keeps_blocks (in_use s) (contents s) (contents (release p s'))"
proof -
  obtain n where n: "in_use s' = insert (unat p, n) (in_use s)" "(unat p, n) \<notin> in_use s" "alloc_inv s'"
      "keeps_blocks (in_use s) (contents s) (contents s')"
    using alloc_fresh [OF assms] by metis
  then have "in_use s' - {(unat p, n)} = in_use s" by auto
  with n release_ok [OF n(3), of p n] show ?thesis
    using keeps_blocks_trans [OF n(4)] by simp
qed

lemma alloc_twice:
  assumes "alloc_inv s" and "0 < sz" and "sz \<le> 0xFFFFFFFC" and "alloc sz s = Some (p, s1)" and "p \<noteq> 0"
    and "0 < sz'" and "sz' \<le> 0xFFFFFFFC" and "alloc sz' s1 = Some (q, s2)" and "q \<noteq> 0"
  shows "unat p + unat sz \<le> unat q \<or> unat q + unat sz' \<le> unat p"
proof -
  obtain n where n: "unat sz \<le> n" "in_use s1 = insert (unat p, n) (in_use s)" "alloc_inv s1"
    using alloc_fresh [OF assms(1-5)] by metis
  then have "(unat p, n) \<in> in_use s1" by simp
  moreover obtain k where "unat sz' \<le> k"
      "\<And>r i. (r, i) \<in> in_use s1 \<Longrightarrow> unat q + k \<le> r \<or> r + i \<le> unat q"
    using alloc_fresh [OF n(3) assms(6-9)] by metis
  ultimately show ?thesis using n(1) by fastforce
qed

end

lemma kmalloc_alloc_ok:
  fixes s :: "'a heap_state_scheme"
  assumes inv: "heap_inv s" and sz: "0 < sz" "sz \<le> 0xFFFFFFFC"
  shows "\<exists>p s'. kmalloc sz s = Some (p, s') \<and> heap_inv s' \<and> keeps_blocks (heap_live s) (mem s) (mem s') \<and>
     (if p = 0 then heap_live s' = heap_live s
      else \<exists>n. unat sz \<le> n \<and> (unat p, n) \<notin> heap_live s \<and> heap_live s' = insert (unat p, n) (heap_live s))"
proof -
  obtain bs where rel: "heap_rel s bs" using inv by (auto simp: heap_inv_def)
  note live = heap_live_eq [OF rel]
  have sz0: "sz \<noteq> 0" using sz(1) by auto
  have k: "unat sz \<le> unat (ALIGN4 sz)"
    unfolding unat_ALIGN4 [OF sz(2)] using div_mult_mod_eq [of "unat sz + 3" 4] mod_less_divisor [of 4 "unat sz + 3"]
    by linarith
  note r = kmalloc_refines [OF rel sz0]
  show ?thesis
  proof (cases "alloc_blocks (unat (ALIGN4 sz)) (heap_base s) bs")
    case None
    let ?s' = "kprintf ''[HEAP] Out of memory! Requested %u bytes\<newline>'' [AWord (ALIGN4 sz)] s"
    have "kmalloc sz s = Some (0, ?s')" using r None by simp
    moreover have "heap_live ?s' = heap_live s" by (simp add: heap_live_def)
    ultimately show ?thesis using inv by (auto simp: heap_inv_def keeps_blocks_def)
  next
    case (Some pb)
    obtain p bs' where pb: "pb = (p, bs')" by (cases pb)
    obtain s' where s': "kmalloc sz s = Some (of_nat p, s')" "heap_rel s' bs'"
        "heap_start_addr s' = heap_start_addr s" "heap_end_addr s' = heap_end_addr s"
        "mem_frame (heap_base s) (heap_top s) (live (heap_base s) bs) (mem s) (mem s')"
      using r Some pb by auto
    obtain n where n: "unat (ALIGN4 sz) \<le> n" "live (heap_base s) bs' = insert (p, n) (live (heap_base s) bs)"
        "(p, n) \<notin> live (heap_base s) bs"
      using alloc_blocks_live Some pb by blast
    have "(p, n) \<in> live (heap_base s) bs'" using n(2) by simp
    then have "heap_base s + 16 \<le> p" "p \<le> heap_top s"
      using live_bounds [of p n "heap_base s" bs'] chain_span [OF heap_rel_chain [OF s'(2)]] s'(3,4)
      by auto
    then have p: "unat (of_nat p :: u32) = p" "p \<noteq> 0"
      using unat_bound32 [of "heap_end_addr s"] by (auto intro!: unat_of_nat32)
    then have "(of_nat p :: u32) \<noteq> 0" by (metis unat_0)
    with s' n p k mem_frame_keeps [OF s'(5)] heap_live_eq [OF s'(2)] live show ?thesis
      by (auto simp: heap_inv_def intro!: exI [of _ n])
  qed
qed

interpretation kheap: block_allocator kmalloc kfree heap_live mem heap_inv
proof unfold_locales
  fix s :: "'a heap_state_scheme" and sz :: u32
  assume "heap_inv s" "0 < sz" "sz \<le> 0xFFFFFFFC"
  then show "\<exists>p s'. kmalloc sz s = Some (p, s') \<and> heap_inv s' \<and> keeps_blocks (heap_live s) (mem s) (mem s') \<and>
     (if p = 0 then heap_live s' = heap_live s
      else \<exists>n. unat sz \<le> n \<and> (unat p, n) \<notin> heap_live s \<and> heap_live s' = insert (unat p, n) (heap_live s))"
    by (rule kmalloc_alloc_ok)
next
  fix s :: "'a heap_state_scheme" and p n q k
  assume "heap_inv s" "(p, n) \<in> heap_live s" "(q, k) \<in> heap_live s" "(p, n) \<noteq> (q, k)"
  then show "p + n \<le> q \<or> q + k \<le> p"
    using live_apart heap_live_eq by (fastforce simp: heap_inv_def)
next
  fix s :: "'a heap_state_scheme" and p :: u32 and n
  assume inv: "heap_inv s" and l: "(unat p, n) \<in> heap_live s"
  obtain bs where rel: "heap_rel s bs" using inv by (auto simp: heap_inv_def)
  note l' = l [unfolded heap_live_eq [OF rel]]
  note f = kfree_refines [OF rel l', simplified]
  show "heap_inv (kfree p s) \<and> heap_live (kfree p s) = heap_live s - {(unat p, n)} \<and>
      keeps_blocks (heap_live s - {(unat p, n)}) (mem s) (mem (kfree p s))"
    using f(1,2) heap_live_eq [OF f(1)] heap_live_eq [OF rel] free_blocks_live [OF l'] mem_frame_keeps [OF f(4)]
    by (auto simp: heap_inv_def)
qed

section \<open>Properties\<close>

lemma heap_init_rel:
  assumes "4 \<le> unat start" and "4 dvd unat start" and "16 \<le> unat sz" and "4 dvd unat sz"
    and "unat start + unat sz < 2 ^ 32"
  shows "heap_rel (heap_init start sz s) [(unat sz - 16, False)]"
    and "heap_start_addr (heap_init start sz s) = start" and "heap_end_addr (heap_init start sz s) = start + sz"
proof -
  let ?m = "write_hdr start (sz - HDR_SIZE) 0 0 (mem s)"
  have "sz - HDR_SIZE = of_nat (unat sz - 16)"
    using assms(3) by (simp add: HDR_SIZE_def of_nat_diff)
  moreover have "unat start + 16 \<le> 2 ^ 32" using assms(3,5) by simp
  ultimately have h: "is_hdr ?m (unat start) (unat sz - 16) False 0"
    using is_hdr_write [of "unat start" "unat sz - 16" False 0 "mem s"] by simp
  have "(unat sz - 16) mod 4 = 0" using assms(3,4) by presburger
  moreover have "unat (start + sz) = unat start + unat sz" using assms(5) by (rule unat_add_lt)
  ultimately show "heap_rel (heap_init start sz s) [(unat sz - 16, False)]"
    using assms h by (simp add: heap_init_def heap_rel_def Let_def)
  show "heap_start_addr (heap_init start sz s) = start" "heap_end_addr (heap_init start sz s) = start + sz"
    by (simp_all add: heap_init_def Let_def)
qed

text \<open>A heap of one page at 2 MB, for the examples.\<close>

definition heap_boot :: heap_state where
  "heap_boot = heap_init 0x200000 0x1000
     \<lparr>ports = [], vga_buf = [], vga_col = 0, vga_row = 0, vga_color = 7, mem = (\<lambda>_. 0), bitmap = [],
      total_pages = 0, used_pages = 0, kernel_dir = 0, identity_pt0 = 0, identity_pt1 = 0, cr0 = 0,
      cr3 = 0, tlb = (\<lambda>_. None), heap_head = 0, heap_start_addr = 0, heap_end_addr = 0, heap_used = 0\<rparr>"

lemma heap_boot_facts:
  "heap_rel heap_boot [(4080, False)]" "heap_base heap_boot = 0x200000" "heap_inv heap_boot"
  "heap_live heap_boot = {}"
proof -
  show r: "heap_rel heap_boot [(4080, False)]" and b: "heap_base heap_boot = 0x200000"
    by (simp_all add: heap_boot_def heap_init_rel [of "0x200000" "0x1000", simplified])
  then show "heap_inv heap_boot" "heap_live heap_boot = {}"
    using heap_live_eq [OF r] by (auto simp: heap_inv_def)
qed

lemma live_aligned:
  "chain m a bs e \<Longrightarrow> 4 dvd a \<Longrightarrow> (q, n) \<in> live a bs \<Longrightarrow> 4 dvd q"
proof (induction m a bs e rule: chain.induct)
  case (2 m a k u bs e)
  have "4 dvd a + 16" "4 dvd a + 16 + k" using 2(2,3) by (auto intro!: dvd_add)
  then show ?case using 2 by (auto split: if_splits)
qed simp

text \<open>
  C11. \<open>kmalloc\<close> implements first fit on the list of blocks: for every non-zero size it returns,
  with NULL exactly when no free block is large enough (and then the heap is untouched), and
  otherwise with the payload of the first free block that fits, split when at least 20 bytes
  remain. The header chain, the tiling of the heap and the byte counter are kept.
\<close>

theorem kmalloc_first_fit:
  fixes s :: "'a heap_state_scheme"
  assumes "heap_rel s bs" and "sz \<noteq> 0"
  shows "case alloc_blocks (unat (ALIGN4 sz)) (heap_base s) bs of
    None \<Rightarrow> (\<exists>s'. kmalloc sz s = Some (0, s') \<and> heap_rel s' bs \<and> mem s' = mem s) \<and>
      (\<forall>b \<in> set bs. snd b \<or> fst b < unat (ALIGN4 sz))
  | Some (p, bs') \<Rightarrow> \<exists>s'. kmalloc sz s = Some (of_nat p, s') \<and> heap_rel s' bs' \<and>
      heap_base s' = heap_base s \<and> heap_top s' = heap_top s"
  using kmalloc_refines [OF assms] alloc_blocks_none [of "unat (ALIGN4 sz)" "heap_base s" bs] assms(1)
  by (auto split: option.splits)

theorem kmalloc_first_fit_witness:
  "heap_rel heap_boot [(4080, False)] \<and>
   (\<exists>s'. kmalloc 30 heap_boot = Some (0x200010, s') \<and> heap_rel s' [(32, True), (4032, False)])"
proof -
  have "unat (ALIGN4 30) = 32" by (simp add: unat_ALIGN4)
  then have "alloc_blocks (unat (ALIGN4 30)) (heap_base heap_boot) [(4080, False)] =
      Some (0x200010, [(32, True), (4032, False)])"
    by (simp add: heap_boot_facts)
  then show ?thesis
    using kmalloc_first_fit [OF heap_boot_facts(1), of 30] heap_boot_facts(1) by auto
qed

text \<open>
  C12. A block that \<open>kmalloc\<close> hands out holds the requested bytes, is aligned to four bytes, lies
  inside the heap and overlaps no block in use; the contents of all blocks in use are kept. The
  request must be at most 0xFFFFFFFC bytes.
\<close>

theorem kmalloc_fresh_block:
  fixes s :: "'a heap_state_scheme"
  assumes inv: "heap_inv s" and sz: "0 < sz" "sz \<le> 0xFFFFFFFC"
    and k: "kmalloc sz s = Some (p, s')" and nz: "p \<noteq> 0"
  shows "heap_inv s' \<and> 4 dvd unat p \<and> keeps_blocks (heap_live s) (mem s) (mem s') \<and>
    (\<exists>n. unat sz \<le> n \<and> heap_live s' = insert (unat p, n) (heap_live s) \<and>
       heap_base s' + 16 \<le> unat p \<and> unat p + n \<le> heap_top s' \<and>
       (\<forall>(q, i) \<in> heap_live s. unat p + n \<le> q \<or> q + i \<le> unat p))"
proof -
  obtain n where n: "unat sz \<le> n" "heap_live s' = insert (unat p, n) (heap_live s)" "heap_inv s'"
      "keeps_blocks (heap_live s) (mem s) (mem s')"
      "\<And>q i. (q, i) \<in> heap_live s \<Longrightarrow> unat p + n \<le> q \<or> q + i \<le> unat p"
    using kheap.alloc_fresh [OF inv sz k nz] by metis
  obtain bs where rel: "heap_rel s' bs" using n(3) by (auto simp: heap_inv_def)
  have l: "(unat p, n) \<in> live (heap_base s') bs" using n(2) heap_live_eq [OF rel] by simp
  have "4 dvd heap_base s'" using rel by (simp add: heap_rel_def)
  then have "4 dvd unat p" using live_aligned [OF heap_rel_chain [OF rel] _ l] by simp
  moreover have "heap_base s' + 16 \<le> unat p" "unat p + n \<le> heap_top s'"
    using live_bounds [OF l] chain_span [OF heap_rel_chain [OF rel]] by simp_all
  ultimately show ?thesis using n by (auto intro!: exI [of _ n])
qed

theorem kmalloc_fresh_block_witness:
  "\<exists>p s'. heap_inv heap_boot \<and> kmalloc 100 heap_boot = Some (p, s') \<and> p \<noteq> 0 \<and> 4 dvd unat p"
proof -
  have "unat (ALIGN4 100) = 100" by (simp add: unat_ALIGN4)
  then have "alloc_blocks (unat (ALIGN4 100)) (heap_base heap_boot) [(4080, False)] =
      Some (0x200010, [(100, True), (3964, False)])"
    by (simp add: heap_boot_facts)
  then obtain s' where k: "kmalloc 100 heap_boot = Some (0x200010, s')"
    using kmalloc_refines [OF heap_boot_facts(1), of 100] by auto
  have "4 dvd unat (0x200010 :: u32)"
    using kmalloc_fresh_block [OF heap_boot_facts(3) _ _ k] by simp
  with k heap_boot_facts(3) show ?thesis by (intro exI [of _ "0x200010"] exI [of _ s']) simp
qed

text \<open>
  C13. \<open>kfree\<close> of a block in use releases exactly that block, merges it with the block after it when
  that one is free, keeps the contents of every other block and the byte counter, and a second
  \<open>kfree\<close> of the same pointer is detected: it prints and leaves the heap as it is.
\<close>

theorem kfree_releases_block:
  fixes s :: "'a heap_state_scheme"
  assumes rel: "heap_rel s bs" and l: "(unat p, n) \<in> live (heap_base s) bs"
  shows "heap_rel (kfree p s) (free_blocks (unat p) (heap_base s) bs) \<and>
    heap_live (kfree p s) = heap_live s - {(unat p, n)} \<and>
    keeps_blocks (heap_live s - {(unat p, n)}) (mem s) (mem (kfree p s)) \<and>
    heap_used (kfree p s) = heap_used s - of_nat n \<and>
    mem (kfree p (kfree p s)) = mem (kfree p s) \<and> heap_used (kfree p (kfree p s)) = heap_used (kfree p s)"
proof -
  note f = kfree_refines [OF rel l, simplified]
  have u: "used_bytes bs = used_bytes (free_blocks (unat p) (heap_base s) bs) + n"
    using free_blocks_live [OF l] by simp
  have "heap_inv s" "(unat p, n) \<in> heap_live s" using rel l heap_live_eq [OF rel] by (auto simp: heap_inv_def)
  note k = kheap.release_ok [OF this]
  have "heap_used s = of_nat (used_bytes bs)" using rel by (simp add: heap_rel_def)
  moreover have "heap_used (kfree p s) = of_nat (used_bytes (free_blocks (unat p) (heap_base s) bs))"
    using f(1) by (simp add: heap_rel_def)
  ultimately have "heap_used (kfree p s) = heap_used s - of_nat n" using u by simp
  with f k show ?thesis by simp
qed

theorem kfree_releases_block_witness:
  "\<exists>s :: heap_state. heap_rel s [(32, True), (4032, False)] \<and> heap_rel (kfree 0x200010 s) [(4080, False)]"
proof -
  have "unat (ALIGN4 32) = 32" by (simp add: unat_ALIGN4)
  then have "alloc_blocks (unat (ALIGN4 32)) (heap_base heap_boot) [(4080, False)] =
      Some (0x200010, [(32, True), (4032, False)])"
    by (simp add: heap_boot_facts)
  then obtain s :: heap_state where s: "heap_rel s [(32, True), (4032, False)]" "heap_base s = 0x200000"
    using kmalloc_refines [OF heap_boot_facts(1), of 32] heap_boot_facts(2) by auto
  then show ?thesis using kfree_releases_block [OF s(1), of "0x200010" 32] by auto
qed

text \<open>
  \<open>kzalloc\<close> returns a block whose requested bytes are all zero, and disturbs no other block.
\<close>

theorem kzalloc_zeroes:
  fixes s :: "'a heap_state_scheme"
  assumes inv: "heap_inv s" and sz: "0 < sz" "sz \<le> 0xFFFFFFFC"
    and k: "kzalloc sz s = Some (p, s')" and nz: "p \<noteq> 0"
  shows "load_bytes (mem s') p (unat sz) = replicate (unat sz) 0 \<and>
    keeps_blocks (heap_live s) (mem s) (mem s')"
proof -
  obtain s1 where s1: "kmalloc sz s = Some (p, s1)"
      and s': "s' = s1\<lparr>mem := store_bytes (mem s1) p (replicate (unat sz) 0)\<rparr>"
    using k nz by (auto simp: kzalloc_def split: option.splits prod.splits)
  obtain n where n: "unat sz \<le> n" "heap_live s1 = insert (unat p, n) (heap_live s)" "heap_inv s1"
      "keeps_blocks (heap_live s) (mem s) (mem s1)"
      "\<And>q i. (q, i) \<in> heap_live s \<Longrightarrow> unat p + n \<le> q \<or> q + i \<le> unat p"
    using kheap.alloc_fresh [OF inv sz s1 nz] by metis
  obtain bs where rel: "heap_rel s1 bs" using n(3) by (auto simp: heap_inv_def)
  have "(unat p, n) \<in> live (heap_base s1) bs" using n(2) heap_live_eq [OF rel] by simp
  then have "unat p + n \<le> heap_top s1"
    using live_bounds chain_span [OF heap_rel_chain [OF rel]] by auto
  then have top: "unat p + unat sz \<le> 2 ^ 32" using n(1) heap_top_bound [of s1] by simp
  have "load_bytes (mem s') p (unat sz) = replicate (unat sz) 0"
    using load_store_bytes [of p "replicate (unat sz) 0" "mem s1"] top by (simp add: s')
  moreover have "keeps_blocks (heap_live s) (mem s1) (mem s')"
    unfolding keeps_blocks_def
  proof (clarify)
    fix q i and x :: u32
    assume "(q, i) \<in> heap_live s" "q \<le> unat x" "unat x < q + i"
    then show "mem s' x = mem s1 x"
      using n(1) n(5) [of q i] top by (auto simp: s' intro!: store_bytes_other)
  qed
  ultimately show ?thesis using keeps_blocks_trans [OF n(4)] by blast
qed

theorem kzalloc_zeroes_witness:
  "\<exists>p s'. kzalloc 8 heap_boot = Some (p, s') \<and> p \<noteq> 0 \<and> load_bytes (mem s') p 8 = replicate 8 0"
proof -
  have "unat (ALIGN4 8) = 8" by (simp add: unat_ALIGN4)
  then have "alloc_blocks (unat (ALIGN4 8)) (heap_base heap_boot) [(4080, False)] =
      Some (0x200010, [(8, True), (4056, False)])"
    by (simp add: heap_boot_facts)
  then obtain s1 where "kmalloc 8 heap_boot = Some (0x200010, s1)"
    using kmalloc_refines [OF heap_boot_facts(1), of 8] by auto
  then obtain s' where k: "kzalloc 8 heap_boot = Some (0x200010, s')" by (simp add: kzalloc_def)
  then have "load_bytes (mem s') 0x200010 (unat (8 :: u32)) = replicate (unat (8 :: u32)) 0"
    using kzalloc_zeroes [OF heap_boot_facts(3) _ _ k] by simp
  with k show ?thesis by (intro exI [of _ "0x200010"] exI [of _ s']) simp
qed



text \<open>
  \<open>kfree\<close> never merges with the block before: freeing two neighbours in address order leaves
  two adjacent free blocks, and a request that only their union could serve fails although
  every byte of the heap is free.
\<close>

theorem kfree_no_backward_merge:
  fixes s :: "'a heap_state_scheme"
  assumes rel: "heap_rel s [(n, True), (k, True), (r, False)]" and sz: "n < unat sz" "k + 16 + r < unat sz"
    and al: "4 dvd unat sz"
  defines "p \<equiv> of_nat (heap_base s + 16) :: u32" and "q \<equiv> of_nat (heap_base s + 16 + n + 16) :: u32"
  shows "heap_rel (kfree q (kfree p s)) [(n, False), (k + 16 + r, False)] \<and>
    (\<exists>s'. kmalloc sz (kfree q (kfree p s)) = Some (0, s'))"
proof -
  let ?a = "heap_base s"
  let ?s1 = "kfree p s" and ?s2 = "kfree q (kfree p s)"
  have l1: "(?a + 16, n) \<in> live ?a [(n, True), (k, True), (r, False)]" by simp
  note f1 = kfree_refines [OF rel l1, folded p_def]
  have r1: "heap_rel ?s1 [(n, False), (k, True), (r, False)]" using f1(1) by simp
  have l2: "(?a + 16 + n + 16, k) \<in> live (heap_base ?s1) [(n, False), (k, True), (r, False)]"
    using f1(2) by simp
  have r2: "heap_rel ?s2 [(n, False), (k + 16 + r, False)]"
    using kfree_refines(1) [OF r1 l2, folded q_def] f1(2) by simp
  have "sz \<le> 0xFFFFFFFC"
  proof -
    have "unat sz < 4 * 1073741824" using unat_bound32 [of sz] by simp
    then have "unat sz div 4 < 1073741824" by simp
    moreover have "unat sz = 4 * (unat sz div 4)" using al by simp
    ultimately have "unat sz \<le> 4294967292" by linarith
    then show ?thesis by (simp add: word_le_nat_alt)
  qed
  then have "unat (ALIGN4 sz) = (unat sz + 3) div 4 * 4" by (rule unat_ALIGN4)
  also have "\<dots> = unat sz" using al by (auto elim!: dvdE)
  finally have "alloc_blocks (unat (ALIGN4 sz)) (heap_base ?s2) [(n, False), (k + 16 + r, False)] = None"
    using sz by simp
  moreover have "sz \<noteq> 0" using sz(1) by auto
  ultimately show ?thesis using r2 kmalloc_refines [OF r2, of sz] by auto
qed

theorem kfree_no_backward_merge_witness:
  "\<exists>s :: heap_state. heap_rel s [(16, True), (16, True), (4016, False)] \<and>
     (\<exists>s'. kmalloc 4080 (kfree 0x200030 (kfree 0x200010 s)) = Some (0, s'))"
proof -
  have a: "unat (ALIGN4 16) = 16" by (simp add: unat_ALIGN4)
  then have "alloc_blocks (unat (ALIGN4 16)) (heap_base heap_boot) [(4080, False)] =
      Some (0x200010, [(16, True), (4048, False)])"
    by (simp add: heap_boot_facts)
  then obtain s1 :: heap_state where s1: "heap_rel s1 [(16, True), (4048, False)]" "heap_base s1 = 0x200000"
    using kmalloc_refines [OF heap_boot_facts(1), of 16] heap_boot_facts(2) by auto
  have "alloc_blocks (unat (ALIGN4 16)) (heap_base s1) [(16, True), (4048, False)] =
      Some (0x200030, [(16, True), (16, True), (4016, False)])"
    using a s1(2) by simp
  then obtain s :: heap_state where s: "heap_rel s [(16, True), (16, True), (4016, False)]" "heap_base s = 0x200000"
    using kmalloc_refines [OF s1(1), of 16] s1(2) by auto
  with kfree_no_backward_merge [OF s(1), of 4080] show ?thesis by (intro exI [of _ s]) simp
qed

text \<open>
  \<open>heap_dump_stats\<close> subtracts one header only, so with \<open>n\<close> blocks in the chain the number it
  prints as free exceeds the free bytes by 16 for every block after the first.
\<close>

theorem heap_stats_overstate_free:
  fixes s :: "'a heap_state_scheme"
  assumes rel: "heap_rel s bs"
  shows "heap_dump_stats s = kprintf ''[HEAP] Total: %u KB  Used: %u B  Free: %u B\<newline>''
    [AWord ((heap_end_addr s - heap_start_addr s) div 1024), AWord (of_nat (used_bytes bs)),
     AWord (of_nat (free_bytes bs + 16 * (length bs - 1)))] s"
proof -
  have "heap_top s = heap_base s + span bs" using chain_span [OF heap_rel_chain [OF rel]] .
  then have "(of_nat (heap_top s) :: u32) = of_nat (heap_base s + span bs)" by (rule arg_cong)
  then have t: "heap_end_addr s - heap_start_addr s = of_nat (span bs)" by simp
  obtain n where n: "length bs = Suc n" using rel by (cases bs) (auto simp: heap_rel_def)
  have "(of_nat (span bs) - of_nat (used_bytes bs) - HDR_SIZE :: u32) =
      of_nat (free_bytes bs + 16 * (length bs - 1))"
    by (simp add: span_bytes n HDR_SIZE_def)
  with t rel show ?thesis by (simp add: heap_dump_stats_def heap_rel_def Let_def)
qed

theorem heap_stats_overstate_free_witness:
  "heap_dump_stats heap_boot = kprintf ''[HEAP] Total: %u KB  Used: %u B  Free: %u B\<newline>''
    [AWord ((heap_end_addr heap_boot - heap_start_addr heap_boot) div 1024), AWord 0, AWord 4080] heap_boot"
  using heap_stats_overstate_free [OF heap_boot_facts(1)] by simp

section \<open>What clients need to know of the rest of the state\<close>

lemma kprintf_with_mem:
  "\<exists>po b c w m u. kprintf f args s =
     s\<lparr>ports := po, vga_buf := b, vga_col := c, vga_row := w, mem := m, heap_used := u\<rparr>"
proof (rule kprintf_frame [of f args s])
  fix po b c w
  assume "kprintf f args s = s\<lparr>ports := po, vga_buf := b, vga_col := c, vga_row := w\<rparr>"
  then have "kprintf f args s =
      s\<lparr>ports := po, vga_buf := b, vga_col := c, vga_row := w, mem := mem s, heap_used := heap_used s\<rparr>"
    by simp
  then show ?thesis by blast
qed

lemma kmalloc_walk_frame:
  assumes "kmalloc_walk sz blk s = Some r"
  shows "\<exists>po b c w m u.
     snd r = s\<lparr>ports := po, vga_buf := b, vga_col := c, vga_row := w, mem := m, heap_used := u\<rparr>"
proof (rule kmalloc_walk.raw_induct [OF _ assms])
  fix walk sz blk s r
  assume IH: "\<And>sz blk s r. walk sz blk s = Some r \<Longrightarrow> \<exists>po b c w m u.
      snd r = s\<lparr>ports := po, vga_buf := b, vga_col := c, vga_row := w, mem := m, heap_used := u\<rparr>"
    and r: "(if blk \<noteq> 0 then
        if hdr_magic (mem s) blk \<noteq> HEAP_MAGIC
        then Some (0, kprintf ''[HEAP] CORRUPTION: bad magic at 0x%x\<newline>'' [AWord blk] s)
        else if hdr_used (mem s) blk = 0 \<and> sz \<le> hdr_size (mem s) blk
        then Some (take_block sz blk s)
        else walk sz (hdr_next (mem s) blk) s
      else Some (0, kprintf ''[HEAP] Out of memory! Requested %u bytes\<newline>'' [AWord sz] s)) = Some r"
  have k: "\<exists>po b c w m u. kprintf f args s =
      s\<lparr>ports := po, vga_buf := b, vga_col := c, vga_row := w, mem := m, heap_used := u\<rparr>" for f args
    by (rule kprintf_with_mem)
  have t: "\<exists>po b c w m u. snd (take_block sz blk s) =
      s\<lparr>ports := po, vga_buf := b, vga_col := c, vga_row := w, mem := m, heap_used := u\<rparr>"
  proof -
    obtain m u where "snd (take_block sz blk s) = s\<lparr>mem := m, heap_used := u\<rparr>"
      by (simp add: take_block_def Let_def)
    then have "snd (take_block sz blk s) = s\<lparr>ports := ports s, vga_buf := vga_buf s, vga_col := vga_col s,
        vga_row := vga_row s, mem := m, heap_used := u\<rparr>" by simp
    then show ?thesis by blast
  qed
  show "\<exists>po b c w m u. snd r =
      s\<lparr>ports := po, vga_buf := b, vga_col := c, vga_row := w, mem := m, heap_used := u\<rparr>"
  proof (cases "blk \<noteq> 0 \<and> hdr_magic (mem s) blk = HEAP_MAGIC \<and>
      \<not> (hdr_used (mem s) blk = 0 \<and> sz \<le> hdr_size (mem s) blk)")
    case True
    with r have "walk sz (hdr_next (mem s) blk) s = Some r" by auto
    then show ?thesis by (rule IH)
  next
    case False
    with r consider f args where "snd r = kprintf f args s" | "snd r = snd (take_block sz blk s)"
      by (auto split: if_splits)
    then show ?thesis using k t by cases metis+
  qed
qed

lemma kmalloc_frame:
  assumes "kmalloc sz s = Some (p, s')"
  obtains po b c w m u where
    "s' = s\<lparr>ports := po, vga_buf := b, vga_col := c, vga_row := w, mem := m, heap_used := u\<rparr>"
proof (cases "sz = 0")
  case True
  then have "s' = s\<lparr>ports := ports s, vga_buf := vga_buf s, vga_col := vga_col s, vga_row := vga_row s,
      mem := mem s, heap_used := heap_used s\<rparr>"
    using assms by (simp add: kmalloc_def)
  then show thesis by (rule that)
next
  case False
  then show thesis
    using kmalloc_walk_frame [of "ALIGN4 sz" "heap_head s" s "(p, s')"] assms that by (auto simp: kmalloc_def)
qed

lemma kzalloc_frame:
  assumes "kzalloc sz s = Some (p, s')"
  obtains po b c w m u where
    "s' = s\<lparr>ports := po, vga_buf := b, vga_col := c, vga_row := w, mem := m, heap_used := u\<rparr>"
proof -
  obtain s1 where s1: "kmalloc sz s = Some (p, s1)"
      "s' = (if p \<noteq> 0 then s1\<lparr>mem := store_bytes (mem s1) p (replicate (unat sz) 0)\<rparr> else s1)"
    using assms by (auto simp: kzalloc_def split: option.splits prod.splits)
  obtain po b c w m u where
    "s1 = s\<lparr>ports := po, vga_buf := b, vga_col := c, vga_row := w, mem := m, heap_used := u\<rparr>"
    by (rule kmalloc_frame [OF s1(1)])
  then have "s' = s\<lparr>ports := po, vga_buf := b, vga_col := c, vga_row := w, mem := mem s', heap_used := u\<rparr>"
    using s1(2) by simp
  then show thesis by (rule that)
qed

lemma kfree_cases:
  obtains (skip) "kfree p s = s"
  | (report) f args where "kfree p s = kprintf f args s"
  | (release) m u where "kfree p s = s\<lparr>mem := m, heap_used := u\<rparr>"
proof (cases "p = 0")
  case True
  then show thesis by (intro skip) (simp add: kfree_def)
next
  case p: False
  show thesis
  proof (cases "hdr_magic (mem s) (p - HDR_SIZE) \<noteq> HEAP_MAGIC \<or> hdr_used (mem s) (p - HDR_SIZE) = 0")
    case True
    with p show thesis
      by (cases "hdr_magic (mem s) (p - HDR_SIZE) \<noteq> HEAP_MAGIC") (auto intro: report simp: kfree_def Let_def)
  next
    case False
    with p have "kfree p s = s\<lparr>mem := coalesce (p - HDR_SIZE) ((mem s)(p - HDR_SIZE + 8 := 0)),
        heap_used := heap_used s - hdr_size (mem s) (p - HDR_SIZE)\<rparr>"
      by (simp add: kfree_def Let_def)
    then show thesis by (rule release)
  qed
qed

lemma kfree_frame:
  obtains po b c w m u where
    "kfree p s = s\<lparr>ports := po, vga_buf := b, vga_col := c, vga_row := w, mem := m, heap_used := u\<rparr>"
proof (cases rule: kfree_cases [of p s])
  case skip
  then have "kfree p s = s\<lparr>ports := ports s, vga_buf := vga_buf s, vga_col := vga_col s, vga_row := vga_row s,
      mem := mem s, heap_used := heap_used s\<rparr>" by simp
  then show thesis by (rule that)
next
  case (report f args)
  with kprintf_with_mem [of f args s] that show thesis by metis
next
  case (release m u)
  then have "kfree p s = s\<lparr>ports := ports s, vga_buf := vga_buf s, vga_col := vga_col s, vga_row := vga_row s,
      mem := m, heap_used := u\<rparr>" by simp
  then show thesis by (rule that)
qed

lemma kmalloc_heap_fields:
  assumes "kmalloc sz s = Some (p, s')"
  shows "heap_head s' = heap_head s" "heap_start_addr s' = heap_start_addr s" "heap_end_addr s' = heap_end_addr s"
  by (rule kmalloc_frame [OF assms]; simp)+

lemma kzalloc_heap_fields:
  assumes "kzalloc sz s = Some (p, s')"
  shows "heap_head s' = heap_head s" "heap_start_addr s' = heap_start_addr s" "heap_end_addr s' = heap_end_addr s"
  by (rule kzalloc_frame [OF assms]; simp)+

lemma kfree_heap_fields [simp]:
  "heap_head (kfree p s) = heap_head s" "heap_start_addr (kfree p s) = heap_start_addr s"
  "heap_end_addr (kfree p s) = heap_end_addr s"
  by (rule kfree_frame [of p s]; simp)+

text \<open>The heap depends on five fields of the state.\<close>

lemma heap_rel_same:
  assumes "heap_head s' = heap_head s" "heap_start_addr s' = heap_start_addr s"
    "heap_end_addr s' = heap_end_addr s" "heap_used s' = heap_used s" "mem s' = mem s"
  shows "heap_rel s' bs = heap_rel s bs"
  by (simp add: heap_rel_def assms)

lemma heap_same:
  assumes "heap_head s' = heap_head s" "heap_start_addr s' = heap_start_addr s"
    "heap_end_addr s' = heap_end_addr s" "heap_used s' = heap_used s" "mem s' = mem s"
  shows "heap_inv s' = heap_inv s" "heap_live s' = heap_live s"
  using heap_rel_same [OF assms] by (simp_all add: heap_inv_def heap_live_def assms)

lemma heap_inv_kprintf [simp]: "heap_inv (kprintf f args s) = heap_inv s" "heap_live (kprintf f args s) = heap_live s"
  by (rule heap_same; simp)+

text \<open>A client may write inside its own blocks.\<close>

definition agree_off :: "(nat \<times> nat) set \<Rightarrow> mem \<Rightarrow> mem \<Rightarrow> bool" where
  "agree_off L m m' \<longleftrightarrow> (\<forall>x. (\<forall>(q, n) \<in> L. unat x < q \<or> q + n \<le> unat x) \<longrightarrow> m' x = m x)"

lemma agree_off_trans: "agree_off L m m' \<Longrightarrow> agree_off L m' m'' \<Longrightarrow> agree_off L m m''"
  unfolding agree_off_def by fastforce

lemma agree_off_mono: "agree_off L m m' \<Longrightarrow> L \<subseteq> L' \<Longrightarrow> agree_off L' m m'"
  unfolding agree_off_def by fast

lemma chain_payload:
  assumes "chain m a bs e" and "e < 2 ^ 32" and "agree_off (live a bs \<union> L) m m'"
    and "\<And>q n. (q, n) \<in> L \<Longrightarrow> q + n \<le> a \<or> e \<le> q"
  shows "chain m' a bs e"
  using assms
proof (induction m a bs e arbitrary: L rule: chain.induct)
  case (2 m a n u bs e)
  have ch: "chain m (a + 16 + n) bs e" using "2.prems"(1) by simp
  note le = chain_le [OF ch]
  have x: "m' x = m x" if "a \<le> unat x" "unat x < a + 16" for x
  proof -
    have "unat x < q \<or> q + k \<le> unat x" if qk: "(q, k) \<in> live a ((n, u) # bs) \<union> L" for q k
    proof (cases "(q, k) \<in> L")
      case True
      then show ?thesis using "2.prems"(4) [of q k] le that \<open>a \<le> unat x\<close> \<open>unat x < a + 16\<close> by auto
    next
      case False
      then show ?thesis using qk live_bounds [of q k "a + 16 + n" bs] \<open>unat x < a + 16\<close> by (auto split: if_splits)
    qed
    then show ?thesis using "2.prems"(3) unfolding agree_off_def by blast
  qed
  have h: "is_hdr m' a n u nxt = is_hdr m a n u nxt" for nxt
    by (rule is_hdr_cong) (use x le "2.prems"(2) in auto)
  have "chain m' (a + 16 + n) bs e"
  proof (rule "2.IH" [of "(if u then {(a + 16, n)} else {}) \<union> L"])
    show "agree_off (live (a + 16 + n) bs \<union> ((if u then {(a + 16, n)} else {}) \<union> L)) m m'"
      using "2.prems"(3) by (rule agree_off_mono) auto
    show "q + k \<le> a + 16 + n \<or> e \<le> q" if "(q, k) \<in> (if u then {(a + 16, n)} else {}) \<union> L" for q k
      using that "2.prems"(4) [of q k] by (auto split: if_splits)
  qed (use "2.prems" ch in auto)
  with h show ?case using "2.prems"(1) by simp
qed simp

lemma heap_write:
  fixes s :: "'a heap_state_scheme"
  assumes "heap_inv s" and "agree_off (heap_live s) (mem s) m'"
  shows "heap_inv (s\<lparr>mem := m'\<rparr>)" and "heap_live (s\<lparr>mem := m'\<rparr>) = heap_live s"
proof -
  obtain bs where rel: "heap_rel s bs" using assms(1) by (auto simp: heap_inv_def)
  have "chain m' (heap_base s) bs (heap_top s)"
    using chain_payload [OF heap_rel_chain [OF rel] heap_top_bound, of "{}" m'] assms(2) heap_live_eq [OF rel] by simp
  then have "heap_rel (s\<lparr>mem := m'\<rparr>) bs" using rel by (simp add: heap_rel_def)
  then show "heap_inv (s\<lparr>mem := m'\<rparr>)" "heap_live (s\<lparr>mem := m'\<rparr>) = heap_live s"
    using heap_live_eq [of "s\<lparr>mem := m'\<rparr>" bs] heap_live_eq [OF rel] by (auto simp: heap_inv_def)
qed

lemma heap_live_range:
  assumes "heap_inv s" and "(q, n) \<in> heap_live s"
  shows "heap_base s + 16 \<le> q" "q + n \<le> heap_top s" "4 dvd q" "4 \<le> heap_base s"
proof -
  obtain bs where rel: "heap_rel s bs" using assms(1) by (auto simp: heap_inv_def)
  have l: "(q, n) \<in> live (heap_base s) bs" using assms(2) heap_live_eq [OF rel] by simp
  show "heap_base s + 16 \<le> q" "q + n \<le> heap_top s"
    using live_bounds [OF l] chain_span [OF heap_rel_chain [OF rel]] by simp_all
  show "4 dvd q" "4 \<le> heap_base s"
    using live_aligned [OF heap_rel_chain [OF rel] _ l] rel by (simp_all add: heap_rel_def)
qed

text \<open>Everything a caller of \<open>kzalloc\<close> may rely on.\<close>

lemma kmalloc_mem_frame:
  fixes s :: "'a heap_state_scheme"
  assumes inv: "heap_inv s" and sz: "sz \<noteq> 0" and k: "kmalloc sz s = Some (p, s')"
  shows "mem_frame (heap_base s) (heap_top s) (heap_live s) (mem s) (mem s')"
    and "p = 0 \<Longrightarrow> mem s' = mem s"
proof -
  obtain bs where rel: "heap_rel s bs" using inv by (auto simp: heap_inv_def)
  note r = kmalloc_refines [OF rel sz]
  have "mem_frame (heap_base s) (heap_top s) (heap_live s) (mem s) (mem s') \<and> (p = 0 \<longrightarrow> mem s' = mem s)"
  proof (cases "alloc_blocks (unat (ALIGN4 sz)) (heap_base s) bs")
    case None
    then have "mem s' = mem s" using r k by auto
    then show ?thesis by (simp add: mem_frame_def)
  next
    case (Some pb)
    obtain q bs' where pb: "pb = (q, bs')" by (cases pb)
    obtain s1 where s1: "kmalloc sz s = Some (of_nat q, s1)" "heap_rel s1 bs'"
        "mem_frame (heap_base s) (heap_top s) (live (heap_base s) bs) (mem s) (mem s1)"
        "heap_start_addr s1 = heap_start_addr s" "heap_end_addr s1 = heap_end_addr s"
      using r Some pb by auto
    obtain n where "live (heap_base s) bs' = insert (q, n) (live (heap_base s) bs)"
      using alloc_blocks_live Some pb by blast
    then have "(q, n) \<in> heap_live s1" using heap_live_eq [OF s1(2)] s1(4) by simp
    moreover have "heap_inv s1" using s1(2) by (auto simp: heap_inv_def)
    ultimately have "q \<noteq> 0" "q < 2 ^ 32"
      using heap_live_range [of s1 q n] heap_top_bound [of s1] by auto
    then have "(of_nat q :: u32) \<noteq> 0" using unat_of_nat32 [of q] by (metis unat_0)
    then show ?thesis using s1 k heap_live_eq [OF rel] by simp
  qed
  then show "mem_frame (heap_base s) (heap_top s) (heap_live s) (mem s) (mem s')" "p = 0 \<Longrightarrow> mem s' = mem s"
    by auto
qed

lemma mem_frame_trans:
  assumes "mem_frame a e L m m'" and "mem_frame a e L m' m''"
  shows "mem_frame a e L m m''"
  unfolding mem_frame_def
proof (intro allI impI)
  fix x :: u32
  assume c: "unat x < a \<or> e \<le> unat x \<or> (\<exists>(q, n) \<in> L. q \<le> unat x \<and> unat x < q + n)"
  have "m' x = m x" "m'' x = m' x" using assms c unfolding mem_frame_def by blast+
  then show "m'' x = m x" by simp
qed

lemma mem_frame_mono: "mem_frame a e L m m' \<Longrightarrow> L' \<subseteq> L \<Longrightarrow> mem_frame a e L' m m'"
  unfolding mem_frame_def by blast

lemma kmalloc_cases:
  fixes s :: "'a heap_state_scheme"
  assumes inv: "heap_inv s" and sz: "0 < sz" "sz \<le> 0xFFFFFFFC"
  obtains (oom) s' where "kmalloc sz s = Some (0, s')" "heap_inv s'" "heap_live s' = heap_live s" "mem s' = mem s"
  | (ok) p n s' where "kmalloc sz s = Some (p, s')" "p \<noteq> 0" "heap_inv s'"
      "heap_live s' = insert (unat p, n) (heap_live s)" "(unat p, n) \<notin> heap_live s" "unat sz \<le> n"
      "mem_frame (heap_base s) (heap_top s) (heap_live s) (mem s) (mem s')"
      "\<And>q i. (q, i) \<in> heap_live s \<Longrightarrow> unat p + n \<le> q \<or> q + i \<le> unat p"
proof -
  have sz0: "sz \<noteq> 0" using sz(1) by auto
  obtain p s' where k: "kmalloc sz s = Some (p, s')" and r: "heap_inv s'"
      "if p = 0 then heap_live s' = heap_live s
       else \<exists>n. unat sz \<le> n \<and> (unat p, n) \<notin> heap_live s \<and> heap_live s' = insert (unat p, n) (heap_live s)"
    using kheap.alloc_ok [OF inv sz] by blast
  note f = kmalloc_mem_frame [OF inv sz0 k]
  show thesis
  proof (cases "p = 0")
    case True
    with k r f show thesis by (intro oom [of s']) auto
  next
    case False
    obtain n where "unat sz \<le> n" "heap_live s' = insert (unat p, n) (heap_live s)" "(unat p, n) \<notin> heap_live s"
        "\<And>q i. (q, i) \<in> heap_live s \<Longrightarrow> unat p + n \<le> q \<or> q + i \<le> unat p"
      by (rule kheap.alloc_fresh [OF inv sz k False]) blast
    with k r f(1) False show thesis by (intro ok [of p s' n]) auto
  qed
qed

lemma kzalloc_cases:
  fixes s :: "'a heap_state_scheme"
  assumes inv: "heap_inv s" and sz: "0 < sz" "sz \<le> 0xFFFFFFFC"
  obtains (oom) s' where "kzalloc sz s = Some (0, s')" "heap_inv s'" "heap_live s' = heap_live s" "mem s' = mem s"
  | (ok) p n s' where "kzalloc sz s = Some (p, s')" "p \<noteq> 0" "heap_inv s'"
      "heap_live s' = insert (unat p, n) (heap_live s)" "(unat p, n) \<notin> heap_live s" "unat sz \<le> n"
      "mem_frame (heap_base s) (heap_top s) (heap_live s) (mem s) (mem s')"
      "\<And>q i. (q, i) \<in> heap_live s \<Longrightarrow> unat p + n \<le> q \<or> q + i \<le> unat p"
      "\<And>x. unat p \<le> unat x \<Longrightarrow> unat x < unat p + unat sz \<Longrightarrow> mem s' x = 0"
proof (cases rule: kmalloc_cases [OF inv sz])
  case (1 s')
  then show thesis by (intro oom [of s']) (simp_all add: kzalloc_def)
next
  case (2 p n s1)
  let ?m = "store_bytes (mem s1) p (replicate (unat sz) 0)"
  have hf: "heap_start_addr s1 = heap_start_addr s" "heap_end_addr s1 = heap_end_addr s"
    using kmalloc_heap_fields [OF 2(1)] by simp_all
  have rng: "heap_base s + 16 \<le> unat p" "unat p + n \<le> heap_top s"
    using heap_live_range [OF 2(3), of "unat p" n] 2(4) hf by simp_all
  have top: "unat p + unat sz \<le> 2 ^ 32" using rng(2) 2(6) heap_top_bound [of s] by simp
  have off: "?m x = mem s1 x" if "unat x < unat p \<or> unat p + n \<le> unat x" for x
    by (rule store_bytes_other) (use that 2(6) top in auto)
  have ag: "agree_off (heap_live s1) (mem s1) ?m" using off 2(4) by (auto simp: agree_off_def)
  have fr: "mem_frame (heap_base s) (heap_top s) (heap_live s) (mem s1) ?m"
    unfolding mem_frame_def
  proof (intro allI impI off)
    fix x :: u32
    assume "unat x < heap_base s \<or> heap_top s \<le> unat x \<or> (\<exists>(q, i)\<in>heap_live s. q \<le> unat x \<and> unat x < q + i)"
    then show "unat x < unat p \<or> unat p + n \<le> unat x" using rng 2(8) by fastforce
  qed
  have z: "?m x = 0" if "unat p \<le> unat x" "unat x < unat p + unat sz" for x
  proof -
    let ?i = "unat x - unat p"
    have "x = p + of_nat ?i" using that by (intro word_eq_by_unat) (simp add: unat_word_ariths unat_of_nat)
    moreover have "load_bytes ?m p (unat sz) ! ?i = 0"
      using load_store_bytes [of p "replicate (unat sz) 0" "mem s1"] top that by simp
    ultimately show ?thesis using that nth_load_bytes [of ?i "unat sz" ?m p] by simp
  qed
  show thesis
    by (rule ok [of p "s1\<lparr>mem := ?m\<rparr>" n])
      (use 2 ag z mem_frame_trans [OF 2(7) fr] in \<open>simp_all add: kzalloc_def heap_write\<close>)
qed

lemma kfree_live:
  fixes s :: "'a heap_state_scheme"
  assumes "heap_inv s" and "(unat p, n) \<in> heap_live s"
  shows "heap_inv (kfree p s)" "heap_live (kfree p s) = heap_live s - {(unat p, n)}"
    and "mem_frame (heap_base s) (heap_top s) (heap_live s - {(unat p, n)}) (mem s) (mem (kfree p s))"
proof -
  show "heap_inv (kfree p s)" "heap_live (kfree p s) = heap_live s - {(unat p, n)}"
    using kheap.release_ok [OF assms] by auto
  obtain bs where rel: "heap_rel s bs" using assms(1) by (auto simp: heap_inv_def)
  show "mem_frame (heap_base s) (heap_top s) (heap_live s - {(unat p, n)}) (mem s) (mem (kfree p s))"
    using kfree_refines(4) [OF rel, of "unat p" n] assms(2) heap_live_eq [OF rel] by simp
qed

text \<open>A free block that is large enough means success, and a larger one survives in part.\<close>

lemma alloc_blocks_keeps_room:
  assumes "alloc_blocks k a bs = Some (p, bs')" and "(n, False) \<in> set bs" and "k + 20 \<le> n"
  shows "\<exists>i. (i, False) \<in> set bs' \<and> n - k - 16 \<le> i"
  using assms
proof (induction k a bs arbitrary: bs' rule: alloc_blocks.induct)
  case (2 k a i u bs)
  show ?case
  proof (cases "\<not> u \<and> k \<le> i")
    case True
    with 2(2-4) show ?thesis
      by (cases "(i, u) = (n, False)") (auto split: if_splits)
  next
    case False
    obtain ds where r: "alloc_blocks k (a + 16 + i) bs = Some (p, ds)" "bs' = (i, u) # ds"
      using False 2(2) by (auto split: option.splits prod.splits)
    have "(n, False) \<in> set bs" using 2(3,4) False by auto
    then show ?thesis using 2(1) [OF False r(1)] r 2(4) by auto
  qed
qed simp

end
