(* ===== verification/Arch.thy ===== *)
theory Arch
  imports Kheap
begin

text \<open>
  The processor tables and interrupt plumbing (kernel/arch: gdt.c, tss.c, idt.c, irq.c and
  the register frame of idt.h). Descriptors are records with the bit fields of the hardware
  format; \<open>seg_base\<close>, \<open>seg_limit\<close> and \<open>gate_offset\<close> read them the way the processor does. The
  addresses of the tables and of the assembly stubs come from the linker and are fields of
  the state.
\<close>

section \<open>Descriptors\<close>

record gdt_entry =
  seg_limit_low :: u16
  seg_base_low :: u16
  seg_base_mid :: u8
  access :: u8
  granularity :: u8
  seg_base_high :: u8

record table_ptr =
  ptr_limit :: u16
  ptr_base :: u32

record idt_entry =
  offset_low :: u16
  selector :: u16
  zero :: u8
  type_attr :: u8
  offset_high :: u16

text \<open>The fields of \<open>tss_entry_t\<close> in their order.\<close>

record tss_entry =
  tss_prev_tss :: u32
  tss_esp0 :: u32
  tss_ss0 :: u32
  tss_esp1 :: u32
  tss_ss1 :: u32
  tss_esp2 :: u32
  tss_ss2 :: u32
  tss_cr3 :: u32
  tss_eip :: u32
  tss_eflags :: u32
  tss_eax :: u32
  tss_ecx :: u32
  tss_edx :: u32
  tss_ebx :: u32
  tss_esp :: u32
  tss_ebp :: u32
  tss_esi :: u32
  tss_edi :: u32
  tss_es :: u32
  tss_cs :: u32
  tss_ss :: u32
  tss_ds :: u32
  tss_fs :: u32
  tss_gs :: u32
  tss_ldt :: u32
  tss_trap :: u16
  tss_iomap_base :: u16

text \<open>\<open>registers_t\<close>: what the stubs of idt.asm leave on the stack.\<close>

record registers =
  r_edi :: u32
  r_esi :: u32
  r_ebp :: u32
  r_esp_dummy :: u32
  r_ebx :: u32
  r_edx :: u32
  r_ecx :: u32
  r_eax :: u32
  r_int_no :: u32
  r_err_code :: u32
  r_eip :: u32
  r_cs :: u32
  r_eflags :: u32
  r_useresp :: u32
  r_ss :: u32

text \<open>The functions the source registers as interrupt handlers; a table slot holds one or NULL.\<close>

datatype irq_fn = Timer_irq_tick | Keyboard_handler

definition GDT_KERNEL_CODE :: u16 where "GDT_KERNEL_CODE = 0x08"
definition GDT_KERNEL_DATA :: u16 where "GDT_KERNEL_DATA = 0x10"
definition GDT_USER_CODE :: u16 where "GDT_USER_CODE = 0x1B"
definition GDT_USER_DATA :: u16 where "GDT_USER_DATA = 0x23"
definition GDT_TSS_SEG :: u16 where "GDT_TSS_SEG = 0x28"

record arch_state = heap_state +
  gdt :: "gdt_entry list"
  gdtr :: table_ptr
  idt :: "idt_entry list"
  idtr :: table_ptr
  tss :: tss_entry
  task_register :: u16
  seg_cs :: u16
  seg_data :: u16
  irq_handlers :: "irq_fn option list"
  interrupts_on :: bool
  gdt_addr :: u32
  idt_addr :: u32
  tss_addr :: u32
  isr_stub :: "nat \<Rightarrow> u32"
  irq_stub :: "nat \<Rightarrow> u32"

section \<open>gdt.c and tss.c\<close>

definition gdt_set_entry ::
  "nat \<Rightarrow> u32 \<Rightarrow> u32 \<Rightarrow> u8 \<Rightarrow> u8 \<Rightarrow> 'a arch_state_scheme \<Rightarrow> 'a arch_state_scheme" where
  "gdt_set_entry num base limit acc gran s = s\<lparr>gdt := (gdt s)[num :=
     \<lparr>seg_limit_low = ucast (limit AND 0xFFFF), seg_base_low = ucast (base AND 0xFFFF),
      seg_base_mid = ucast (drop_bit 16 base AND 0xFF), access = acc,
      granularity = ucast (drop_bit 16 limit AND 0x0F) OR gran,
      seg_base_high = ucast (drop_bit 24 base AND 0xFF)\<rparr>]\<rparr>"

text \<open>\<open>gdt_flush\<close> of gdt.asm: the far jump loads CS, then DS, ES, FS, GS and SS get one selector
  (\<open>seg_data\<close>).\<close>

definition gdt_flush :: "table_ptr \<Rightarrow> 'a arch_state_scheme \<Rightarrow> 'a arch_state_scheme" where
  "gdt_flush p s = s\<lparr>gdtr := p, seg_cs := 0x08, seg_data := 0x10\<rparr>"

definition gdt_init :: "'a arch_state_scheme \<Rightarrow> 'a arch_state_scheme" where
  "gdt_init s =
     (let s0 = gdt_set_entry 0 0 0 0 0 s;
          s1 = gdt_set_entry 1 0 0xFFFFF 0x9A 0xCF s0;
          s2 = gdt_set_entry 2 0 0xFFFFF 0x92 0xCF s1;
          s3 = gdt_set_entry 3 0 0xFFFFF 0xFA 0xCF s2;
          s4 = gdt_set_entry 4 0 0xFFFFF 0xF2 0xCF s3;
          s5 = gdt_set_entry 5 0 0 0 0 s4
      in gdt_flush \<lparr>ptr_limit = 8 * 6 - 1, ptr_base = gdt_addr s5\<rparr> s5)"

definition gdt_set_tss_entry :: "u32 \<Rightarrow> u32 \<Rightarrow> 'a arch_state_scheme \<Rightarrow> 'a arch_state_scheme" where
  "gdt_set_tss_entry base limit s = gdt_set_entry 5 base limit 0x89 0x00 s"

definition tss_size :: u32 where "tss_size = 104"

definition tss_zero :: tss_entry where
  "tss_zero = \<lparr>tss_prev_tss = 0, tss_esp0 = 0, tss_ss0 = 0, tss_esp1 = 0, tss_ss1 = 0, tss_esp2 = 0,
     tss_ss2 = 0, tss_cr3 = 0, tss_eip = 0, tss_eflags = 0, tss_eax = 0, tss_ecx = 0, tss_edx = 0,
     tss_ebx = 0, tss_esp = 0, tss_ebp = 0, tss_esi = 0, tss_edi = 0, tss_es = 0, tss_cs = 0,
     tss_ss = 0, tss_ds = 0, tss_fs = 0, tss_gs = 0, tss_ldt = 0, tss_trap = 0, tss_iomap_base = 0\<rparr>"

definition tss_flush :: "'a arch_state_scheme \<Rightarrow> 'a arch_state_scheme" where
  "tss_flush s = s\<lparr>task_register := GDT_TSS_SEG\<rparr>"

definition tss_init :: "u32 \<Rightarrow> 'a arch_state_scheme \<Rightarrow> 'a arch_state_scheme" where
  "tss_init kernel_stack s =
     (let base = tss_addr s;
          limit = base + tss_size - 1;
          s1 = gdt_set_tss_entry base limit s;
          s2 = s1\<lparr>tss := tss_zero\<lparr>tss_ss0 := ucast GDT_KERNEL_DATA, tss_esp0 := kernel_stack,
                                   tss_iomap_base := ucast tss_size\<rparr>\<rparr>
      in tss_flush s2)"

definition tss_set_kernel_stack :: "u32 \<Rightarrow> 'a arch_state_scheme \<Rightarrow> 'a arch_state_scheme" where
  "tss_set_kernel_stack stack s = s\<lparr>tss := (tss s)\<lparr>tss_esp0 := stack\<rparr>\<rparr>"

section \<open>idt.c and irq.c\<close>

definition IDT_GATE_INT_RING0 :: u8 where "IDT_GATE_INT_RING0 = 0x8E"
definition IDT_GATE_INT_RING3 :: u8 where "IDT_GATE_INT_RING3 = 0xEE"

definition idt_set_gate ::
  "u8 \<Rightarrow> u32 \<Rightarrow> u16 \<Rightarrow> u8 \<Rightarrow> 'a arch_state_scheme \<Rightarrow> 'a arch_state_scheme" where
  "idt_set_gate num handler sel fl s = s\<lparr>idt := (idt s)[unat num :=
     \<lparr>offset_low = ucast (handler AND 0xFFFF), selector = sel, zero = 0, type_attr = fl,
      offset_high = ucast (drop_bit 16 handler AND 0xFFFF)\<rparr>]\<rparr>"

definition pic_remap :: "'a arch_state_scheme \<Rightarrow> 'a arch_state_scheme" where
  "pic_remap s =
     (let s = io_wait (outb 0x20 0x11 s);
          s = io_wait (outb 0xA0 0x11 s);
          s = io_wait (outb 0x21 0x20 s);
          s = io_wait (outb 0xA1 0x28 s);
          s = io_wait (outb 0x21 0x04 s);
          s = io_wait (outb 0xA1 0x02 s);
          s = io_wait (outb 0x21 0x01 s);
          s = io_wait (outb 0xA1 0x01 s);
          s = outb 0x21 0x00 s
      in outb 0xA1 0x00 s)"

definition pic_send_eoi :: "u8 \<Rightarrow> 'a arch_state_scheme \<Rightarrow> 'a arch_state_scheme" where
  "pic_send_eoi irq s = outb 0x20 0x20 (if 8 \<le> irq then outb 0xA0 0x20 s else s)"

text \<open>\<open>irq_handler\<close> and the call through the handler table: what the registered functions do
  is \<open>run\<close>.\<close>

definition irq_handler ::
  "(irq_fn \<Rightarrow> 'a arch_state_scheme \<Rightarrow> 'a arch_state_scheme) \<Rightarrow> registers \<Rightarrow> 'a arch_state_scheme \<Rightarrow>
   'a arch_state_scheme" where
  "irq_handler run regs s =
     (let irq = (ucast (r_int_no regs - 32) :: u8);
          s1 = pic_send_eoi irq s
      in if irq < 16 then
           (case irq_handlers s1 ! unat irq of None \<Rightarrow> s1 | Some f \<Rightarrow> run f s1)
         else s1)"

definition irq_register :: "u8 \<Rightarrow> irq_fn \<Rightarrow> 'a arch_state_scheme \<Rightarrow> 'a arch_state_scheme" where
  "irq_register irq f s =
     (if irq < 16 then s\<lparr>irq_handlers := (irq_handlers s)[unat irq := Some f]\<rparr> else s)"

definition irq_init :: "'a arch_state_scheme \<Rightarrow> 'a arch_state_scheme" where
  "irq_init s =
     (let s1 = pic_remap (s\<lparr>irq_handlers := replicate 16 None\<rparr>);
          s2 = fold (\<lambda>i s. idt_set_gate (of_nat (32 + i)) (irq_stub s i) 0x08 0x8E s) [0..<16] s1
      in s2\<lparr>interrupts_on := True\<rparr>)"

definition idt_zero :: idt_entry where
  "idt_zero = \<lparr>offset_low = 0, selector = 0, zero = 0, type_attr = 0, offset_high = 0\<rparr>"

definition idt_init :: "'a arch_state_scheme \<Rightarrow> 'a arch_state_scheme" where
  "idt_init s =
     (let s1 = s\<lparr>idt := replicate 256 idt_zero\<rparr>;
          s2 = fold (\<lambda>i s. idt_set_gate (of_nat i) (isr_stub s i) 0x08 IDT_GATE_INT_RING0 s) [0..<32] s1;
          s3 = idt_set_gate 0x80 (isr_stub s2 128) 0x08 IDT_GATE_INT_RING3 s2;
          s4 = irq_init s3
      in s4\<lparr>idtr := \<lparr>ptr_limit = 8 * 256 - 1, ptr_base = idt_addr s\<rparr>\<rparr>)"

section \<open>What the processor reads\<close>

definition seg_base :: "gdt_entry \<Rightarrow> u32" where
  "seg_base e = ucast (seg_base_low e) OR push_bit 16 (ucast (seg_base_mid e)) OR
     push_bit 24 (ucast (seg_base_high e))"

definition seg_limit :: "gdt_entry \<Rightarrow> u32" where
  "seg_limit e = ucast (seg_limit_low e) OR push_bit 16 (ucast (granularity e AND 0x0F))"

text \<open>The last byte of the segment: the limit counts 4 KB units when the granularity bit is set.\<close>

definition seg_last :: "gdt_entry \<Rightarrow> u32" where
  "seg_last e = (if bit (granularity e) 7 then push_bit 12 (seg_limit e) OR 0xFFF else seg_limit e)"

definition dpl :: "u8 \<Rightarrow> u8" where
  "dpl acc = drop_bit 5 acc AND 3"

definition gate_offset :: "idt_entry \<Rightarrow> u32" where
  "gate_offset e = ucast (offset_low e) OR push_bit 16 (ucast (offset_high e))"

text \<open>Whether \<open>int n\<close> executed at privilege level \<open>cpl\<close> passes the gate.\<close>

definition gate_passes :: "idt_entry \<Rightarrow> u8 \<Rightarrow> bool" where
  "gate_passes e cpl \<longleftrightarrow> bit (type_attr e) 7 \<and> cpl \<le> dpl (type_attr e)"

lemma bit_FFFF: "bit (0xFFFF :: u32) k \<longleftrightarrow> k < 16"
proof -
  have *: "(0xFFFF :: u32) = mask 16" by (simp add: mask_eq_exp_minus_1)
  show ?thesis unfolding * bit_mask_iff by auto
qed

lemma ucast_halves: "(ucast (ucast (h AND 0xFFFF) :: u16) :: u32) OR
    push_bit 16 (ucast (ucast (drop_bit 16 h AND 0xFFFF) :: u16)) = h"
proof (rule bit_word_eqI)
  fix n
  assume "n < LENGTH(32)"
  then show "bit ((ucast (ucast (h AND 0xFFFF) :: u16) :: u32) OR
      push_bit 16 (ucast (ucast (drop_bit 16 h AND 0xFFFF) :: u16))) n = bit h n"
    by (cases "n < 16") (auto simp: bit_simps bit_FFFF simp del: bit_numeral_word_iff)
qed

section \<open>The gates after \<open>idt_init\<close>\<close>

definition gate :: "u32 \<Rightarrow> u8 \<Rightarrow> idt_entry" where
  "gate h fl = \<lparr>offset_low = ucast (h AND 0xFFFF), selector = 0x08, zero = 0, type_attr = fl,
     offset_high = ucast (drop_bit 16 h AND 0xFFFF)\<rparr>"

lemma fold_gates:
  assumes "length (idt s) = 256" and "k + n \<le> 256" and "\<And>s x. stub (s\<lparr>idt := x\<rparr>) = stub s"
  shows "\<exists>t. fold (\<lambda>i s. idt_set_gate (of_nat (k + i)) (stub s i) 0x08 fl s) [0..<n] s = s\<lparr>idt := t\<rparr> \<and>
    length t = 256 \<and> (\<forall>j < 256. t ! j = (if k \<le> j \<and> j < k + n then gate (stub s (j - k)) fl else idt s ! j))"
  using assms(2)
proof (induction n)
  case 0
  then show ?case by (auto simp: assms(1) intro!: exI [of _ "idt s"])
next
  case (Suc n)
  then obtain t where t: "fold (\<lambda>i s. idt_set_gate (of_nat (k + i)) (stub s i) 0x08 fl s) [0..<n] s = s\<lparr>idt := t\<rparr>"
      "length t = 256" "\<forall>j < 256. t ! j = (if k \<le> j \<and> j < k + n then gate (stub s (j - k)) fl else idt s ! j)"
    by auto
  have "unat (of_nat (k + n) :: u8) = k + n" using Suc.prems unat_of_nat [of "k + n", where 'a = 8] by simp
  then show ?case using t Suc.prems assms(3)
    by (auto simp: idt_set_gate_def gate_def nth_list_update less_Suc_eq
        intro!: exI [of _ "t[k + n := gate (stub s n) fl]"])
qed

lemma outb_arch [simp]: "idt (outb p v s) = idt s" "isr_stub (outb p v s) = isr_stub s"
    "irq_stub (outb p v s) = irq_stub s" "irq_handlers (outb p v s) = irq_handlers s"
  by (simp_all add: outb_def)

lemma pic_remap_arch [simp]: "idt (pic_remap s) = idt s" "isr_stub (pic_remap s) = isr_stub s"
    "irq_stub (pic_remap s) = irq_stub s"
  by (simp_all add: pic_remap_def io_wait_def Let_def)

lemma idt_init_gates:
  assumes "j < 256"
  shows "idt (idt_init s) ! j =
    (if j < 32 then gate (isr_stub s j) 0x8E
     else if j < 48 then gate (irq_stub s (j - 32)) 0x8E
     else if j = 128 then gate (isr_stub s 128) 0xEE else idt_zero)"
proof -
  let ?s1 = "s\<lparr>idt := replicate 256 idt_zero\<rparr>"
  have "length (idt ?s1) = 256" by simp
  from fold_gates [of ?s1 0 32 isr_stub IDT_GATE_INT_RING0, OF this] obtain t where
    t: "fold (\<lambda>i s. idt_set_gate (of_nat i) (isr_stub s i) 0x08 IDT_GATE_INT_RING0 s) [0..<32] ?s1 = s\<lparr>idt := t\<rparr>"
      "length t = 256" "\<forall>j < 256. t ! j = (if j < 32 then gate (isr_stub s j) 0x8E else idt_zero)"
    by (auto simp: IDT_GATE_INT_RING0_def)
  define s3 where "s3 = idt_set_gate 0x80 (isr_stub s 128) 0x08 IDT_GATE_INT_RING3 (s\<lparr>idt := t\<rparr>)"
  have s3: "idt s3 = t[128 := gate (isr_stub s 128) 0xEE]" "irq_stub s3 = irq_stub s"
    by (simp_all add: s3_def idt_set_gate_def gate_def IDT_GATE_INT_RING3_def)
  define s4 where "s4 = pic_remap (s3\<lparr>irq_handlers := replicate 16 None\<rparr>)"
  have s4: "idt s4 = idt s3" "irq_stub s4 = irq_stub s" by (simp_all add: s4_def s3)
  have "length (idt s4) = 256" using s3 s4 t by simp
  from fold_gates [of s4 32 16 irq_stub "0x8E", OF this] obtain u where
    u: "fold (\<lambda>i s. idt_set_gate (of_nat (32 + i)) (irq_stub s i) 0x08 0x8E s) [0..<16] s4 = s4\<lparr>idt := u\<rparr>"
      "\<forall>j < 256. u ! j = (if 32 \<le> j \<and> j < 48 then gate (irq_stub s4 (j - 32)) 0x8E else idt s4 ! j)"
    by auto
  have "idt (idt_init s) = idt (irq_init s3)"
    unfolding idt_init_def Let_def t(1) s3_def by simp
  also have "\<dots> = u" unfolding irq_init_def Let_def s4_def [symmetric] u(1) by simp
  finally have "idt (idt_init s) = u" .
  then show ?thesis using u(2) assms t(2,3) s3 s4 by (auto simp: nth_list_update)
qed

section \<open>Properties\<close>



lemma masks32:
  "(0xFF :: u32) = mask 8" "(0x0F :: u32) = mask 4" "(0xFFFF :: u32) = mask 16" "(0xFFFFF :: u32) = mask 20"
  "(0x0F :: u8) = mask 4"
  by (simp_all add: mask_eq_exp_minus_1)

lemma seg_base_set:
  "ucast (ucast (b AND 0xFFFF) :: u16) OR push_bit 16 (ucast (ucast (drop_bit 16 b AND 0xFF) :: u8))
     OR push_bit 24 (ucast (ucast (drop_bit 24 b AND 0xFF) :: u8)) = (b :: u32)"
proof (rule bit_word_eqI)
  fix n
  assume "n < LENGTH(32)"
  then consider "n < 16" | "16 \<le> n" "n < 24" | "24 \<le> n" "n < 32" by fastforce
  then show "bit (ucast (ucast (b AND 0xFFFF) :: u16) OR push_bit 16 (ucast (ucast (drop_bit 16 b AND 0xFF) :: u8))
     OR push_bit 24 (ucast (ucast (drop_bit 24 b AND 0xFF) :: u8)) :: u32) n = bit b n"
    unfolding masks32 by cases (auto simp: bit_simps)
qed

lemma seg_limit_set:
  "g AND 0x0F = 0 \<Longrightarrow> ucast (ucast (l AND 0xFFFF) :: u16) OR
     push_bit 16 (ucast ((ucast (drop_bit 16 l AND 0x0F) OR g) AND 0x0F :: u8)) = (l AND 0xFFFFF :: u32)"
proof -
  assume g: "g AND 0x0F = 0"
  have "bit (ucast (ucast (l AND 0xFFFF) :: u16) OR
      push_bit 16 (ucast (ucast (drop_bit 16 l AND 0x0F) AND 0x0F :: u8)) :: u32) n = bit (l AND 0xFFFFF) n"
    if "n < 32" for n
    using that unfolding masks32 by (cases "n < 16"; cases "n < 20") (auto simp: bit_simps)
  then have "ucast (ucast (l AND 0xFFFF) :: u16) OR
      push_bit 16 (ucast (ucast (drop_bit 16 l AND 0x0F) AND 0x0F :: u8)) = (l AND 0xFFFFF :: u32)"
    by (intro bit_word_eqI) simp
  with g show ?thesis by (simp add: bit.conj_disj_distrib2)
qed

text \<open>
  The TSS descriptor that \<open>tss_init\<close> writes has the right base but a limit computed from the
  address: the hardware reads \<open>(tss + 103) mod 2^20\<close> instead of 103. Unless the TSS lies at a
  1 MB boundary or within 103 bytes below one, the I/O permission bitmap offset 104 is then within
  the limit, so the bitmap the comment calls disabled is active.
\<close>

theorem tss_limit_is_address:
  fixes s :: "'a arch_state_scheme" and ks :: u32
  assumes len: "length (gdt s) = 6"
  defines "e \<equiv> gdt (tss_init ks s) ! 5" and "a \<equiv> unat (tss_addr s)"
  shows "seg_base e = tss_addr s \<and> unat (seg_limit e) = (a + 103) mod 2 ^ 20 \<and>
    (unat (tss_iomap_base (tss (tss_init ks s))) \<le> unat (seg_limit e) \<longleftrightarrow>
       0 < a mod 2 ^ 20 \<and> a mod 2 ^ 20 < 2 ^ 20 - 103)"
proof -
  let ?l = "tss_addr s + tss_size - 1"
  have e: "e = \<lparr>seg_limit_low = ucast (?l AND 0xFFFF), seg_base_low = ucast (tss_addr s AND 0xFFFF),
      seg_base_mid = ucast (drop_bit 16 (tss_addr s) AND 0xFF), access = 0x89,
      granularity = ucast (drop_bit 16 ?l AND 0x0F) OR 0x00,
      seg_base_high = ucast (drop_bit 24 (tss_addr s) AND 0xFF)\<rparr>"
    using len by (simp add: e_def tss_init_def tss_flush_def gdt_set_tss_entry_def gdt_set_entry_def Let_def)
  have b: "seg_base e = tss_addr s"
    unfolding e seg_base_def by (simp only: gdt_entry.simps seg_base_set)
  have l: "seg_limit e = ?l AND 0xFFFFF"
    unfolding e seg_limit_def gdt_entry.simps by (rule seg_limit_set) simp
  have "?l = tss_addr s + 103" by (simp add: tss_size_def)
  then have "unat ?l = (a + 103) mod 2 ^ 32" by (simp only: a_def) (simp add: unat_word_ariths)
  then have u: "unat (seg_limit e) = (a + 103) mod 2 ^ 20"
    unfolding l masks32 unat_and_mask by (simp add: mod_mod_cancel)
  have i: "unat (tss_iomap_base (tss (tss_init ks s))) = 104"
    by (simp add: tss_init_def tss_flush_def tss_size_def Let_def)
  have r: "104 \<le> (r + 103) mod 1048576 \<longleftrightarrow> 0 < r \<and> r < 1048473" if "r < 1048576" for r :: nat
  proof (cases "r < 1048473")
    case False
    then obtain j where "r = 1048473 + j" using le_Suc_ex not_less by blast
    with that show ?thesis by (simp add: mod_if)
  qed auto
  have "(a + 103) mod 1048576 = (a mod 1048576 + 103) mod 1048576" by (rule mod_add_left_eq [symmetric])
  then have "104 \<le> (a + 103) mod 1048576 \<longleftrightarrow> 0 < a mod 1048576 \<and> a mod 1048576 < 1048473"
    using r [of "a mod 1048576"] by simp
  with b u i show ?thesis by simp
qed

theorem tss_limit_is_address_witness:
  "\<exists>s :: arch_state. length (gdt s) = 6 \<and> unat (seg_limit (gdt (tss_init 0 s) ! 5)) = 0x4087"
proof -
  fix s0 :: arch_state and e0 :: gdt_entry
  let ?s = "s0\<lparr>gdt := replicate 6 e0, tss_addr := 0x104020\<rparr>"
  have "length (gdt ?s) = 6" by simp
  with tss_limit_is_address [of ?s 0] show ?thesis by (intro exI [of _ ?s]) simp
qed

end
