(* ===== verification/Timer.thy ===== *)
theory Timer
  imports Arch
begin

text \<open>
  The PIT driver (kernel/drivers/timer.c): programming of channel 0 and the tick counter.
\<close>

record timer_state = arch_state +
  tick_count :: u32
  ticks_per_second :: u32

definition PIT_BASE_FREQ :: u32 where "PIT_BASE_FREQ = 1193182"
definition PIT_HZ_DEFAULT :: u32 where "PIT_HZ_DEFAULT = 100"

definition timer_tick :: "'a timer_state_scheme \<Rightarrow> 'a timer_state_scheme" where
  "timer_tick s = s\<lparr>tick_count := tick_count s + 1\<rparr>"

text \<open>\<open>timer_init\<close>; a frequency of 0 makes the processor fault on the division.\<close>

definition timer_init :: "u32 \<Rightarrow> 'a timer_state_scheme \<Rightarrow> 'a timer_state_scheme option" where
  "timer_init hz s =
     (let s1 = s\<lparr>ticks_per_second := hz\<rparr> in
      if hz = 0 then None
      else let divisor = PIT_BASE_FREQ div hz;
               s2 = outb 0x43 0x36 s1;
               s3 = outb 0x40 (ucast (divisor AND 0xFF)) s2;
               s4 = outb 0x40 (ucast (drop_bit 8 divisor AND 0xFF)) s3
           in Some (kprintf ''[PIT] Timer initialised at %u Hz (divisor %u)\<newline>'' [AWord hz, AWord divisor] s4))"

definition timer_get_ticks :: "'a timer_state_scheme \<Rightarrow> u32" where
  "timer_get_ticks s = tick_count s"

definition timer_get_seconds :: "'a timer_state_scheme \<Rightarrow> u32 option" where
  "timer_get_seconds s =
     (if ticks_per_second s = 0 then None else Some (tick_count s div ticks_per_second s))"

lemma kprintf_timer_fields [simp]:
  "tick_count (kprintf f args s) = tick_count s"
  "ticks_per_second (kprintf f args s) = ticks_per_second s"
  by (rule kprintf_frame [of f args s]; simp)+

text \<open>The clock reads whole seconds while the counter has not wrapped.\<close>

lemma timer_ticks_fold:
  "timer_get_ticks ((timer_tick ^^ n) s) = timer_get_ticks s + of_nat n"
  by (induction n) (simp_all add: timer_get_ticks_def timer_tick_def)

end
