(* ===== verification/Process.thy ===== *)
theory Process
  imports Timer
begin

text \<open>
  Processes (kernel/proc/process.c, process.h and context_switch.asm). A \<open>process_t\<close> is 416
  bytes of memory at the address \<open>kzalloc\<close> returned, and its fields are words at the offsets
  the assembly relies on. The registers \<open>context_switch\<close> saves are part of the state.
\<close>

definition KERNEL_STACK_SIZE :: u32 where "KERNEL_STACK_SIZE = 8192"
definition MAX_FDS :: nat where "MAX_FDS = 32"
definition sizeof_process :: u32 where "sizeof_process = 416"

definition PROC_READY :: u32 where "PROC_READY = 0"
definition PROC_RUNNING :: u32 where "PROC_RUNNING = 1"
definition PROC_BLOCKED :: u32 where "PROC_BLOCKED = 2"
definition PROC_ZOMBIE :: u32 where "PROC_ZOMBIE = 3"

record cpu_regs =
  c_ebx :: u32
  c_esi :: u32
  c_edi :: u32
  c_ebp :: u32
  c_esp :: u32
  c_eip :: u32

record proc_state = timer_state +
  next_pid :: u32
  kthread_entry :: u32
  proc_iret_trampoline :: u32
  cpu :: cpu_regs

section \<open>Fields of a process\<close>

datatype pcb_field = Pid | Esp | Kernel_stack_top | Kernel_stack | Page_dir | State | Exit_code | Next

fun field_off :: "pcb_field \<Rightarrow> u32" where
  "field_off Pid = 0"
| "field_off Esp = 4"
| "field_off Kernel_stack_top = 8"
| "field_off Kernel_stack = 12"
| "field_off Page_dir = 16"
| "field_off State = 20"
| "field_off Exit_code = 24"
| "field_off Next = 28"

definition pget :: "mem \<Rightarrow> u32 \<Rightarrow> pcb_field \<Rightarrow> u32" where
  "pget m p f = load32 m (p + field_off f)"

definition pset :: "u32 \<Rightarrow> pcb_field \<Rightarrow> u32 \<Rightarrow> mem \<Rightarrow> mem" where
  "pset p f v m = store32 m (p + field_off f) v"

abbreviation upd_mem :: "(mem \<Rightarrow> mem) \<Rightarrow> 'a mem_state_scheme \<Rightarrow> 'a mem_state_scheme" where
  "upd_mem g s \<equiv> s\<lparr>mem := g (mem s)\<rparr>"

section \<open>The source, function by function\<close>

definition process_next_pid :: "'a proc_state_scheme \<Rightarrow> u32" where
  "process_next_pid s = next_pid s"

definition process_init :: "'a proc_state_scheme \<Rightarrow> 'a proc_state_scheme" where
  "process_init s = kprintf ''[PROC] Process subsystem initialised\<newline>'' [] (s\<lparr>next_pid := 1\<rparr>)"

text \<open>\<open>*--sp = v\<close> on a stack pointer and memory.\<close>

definition push :: "u32 \<Rightarrow> u32 \<times> mem \<Rightarrow> u32 \<times> mem" where
  "push v sm = (fst sm - 4, store32 (snd sm) (fst sm - 4) v)"

text \<open>The part of the two creation functions they share: the two allocations, then the PCB
  fields. \<open>Inl\<close> is the early return of NULL.\<close>

definition process_alloc ::
  "'a proc_state_scheme \<Rightarrow> ('a proc_state_scheme + u32 \<times> 'a proc_state_scheme) option" where
  "process_alloc s =
     (case kzalloc sizeof_process s of
        None \<Rightarrow> None
      | Some (p, s1) \<Rightarrow>
          if p = 0 then Some (Inl s1)
          else (case kzalloc KERNEL_STACK_SIZE s1 of
             None \<Rightarrow> None
           | Some (ks, s2) \<Rightarrow>
               let s3 = upd_mem (pset p Kernel_stack ks) s2 in
               if ks = 0 then Some (Inl (kfree p s3)) else Some (Inr (p, s3))))"

definition process_fields :: "u32 \<Rightarrow> u32 \<Rightarrow> 'a proc_state_scheme \<Rightarrow> 'a proc_state_scheme" where
  "process_fields p dir s =
     (let s1 = (upd_mem (pset p Pid (next_pid s)) s)\<lparr>next_pid := next_pid s + 1\<rparr>;
          s2 = upd_mem (pset p Page_dir dir) s1;
          s3 = upd_mem (pset p State PROC_READY) s2
      in upd_mem (\<lambda>m. pset p Kernel_stack_top (pget m p Kernel_stack + KERNEL_STACK_SIZE) m) s3)"

definition process_stack :: "u32 \<Rightarrow> u32 list \<Rightarrow> 'a proc_state_scheme \<Rightarrow> 'a proc_state_scheme" where
  "process_stack p ws s =
     (case fold push ws (pget (mem s) p Kernel_stack_top, mem s) of
        (sp, m) \<Rightarrow> s\<lparr>mem := pset p Esp sp m\<rparr>)"

definition process_create :: "u32 \<Rightarrow> 'a proc_state_scheme \<Rightarrow> (u32 \<times> 'a proc_state_scheme) option" where
  "process_create entry_fn s =
     (case process_alloc s of
        None \<Rightarrow> None
      | Some (Inl s1) \<Rightarrow> Some (0, s1)
      | Some (Inr (p, s1)) \<Rightarrow>
          let s2 = process_fields p (vmm_get_kernel_dir s1) s1
          in Some (p, process_stack p [entry_fn, kthread_entry s2, 0, 0, 0, 0] s2))"

definition process_create_user ::
  "u32 \<Rightarrow> u32 \<Rightarrow> u32 \<Rightarrow> 'a proc_state_scheme \<Rightarrow> (u32 \<times> 'a proc_state_scheme) option" where
  "process_create_user entry_vaddr user_esp dir s =
     (case process_alloc s of
        None \<Rightarrow> None
      | Some (Inl s1) \<Rightarrow> Some (0, s1)
      | Some (Inr (p, s1)) \<Rightarrow>
          let s2 = process_fields p dir s1
          in Some (p, process_stack p [0x23, user_esp, 0x202, 0x1B, entry_vaddr,
               proc_iret_trampoline s2, 0, 0, 0, 0] s2))"

definition process_destroy :: "u32 \<Rightarrow> 'a proc_state_scheme \<Rightarrow> 'a proc_state_scheme" where
  "process_destroy p s =
     (if p = 0 then s
      else let s1 = (if pget (mem s) p Kernel_stack \<noteq> 0 then kfree (pget (mem s) p Kernel_stack) s else s)
           in kfree p s1)"

text \<open>\<open>context_switch\<close>; on entry ESP points at the return address.\<close>

definition context_switch :: "u32 \<Rightarrow> u32 \<Rightarrow> 'a proc_state_scheme \<Rightarrow> 'a proc_state_scheme" where
  "context_switch cur nxt s =
     (let c = cpu s;
          (sp, m1) = fold push [c_ebp c, c_edi c, c_esi c, c_ebx c] (c_esp c, mem s);
          s1 = s\<lparr>mem := pset cur Esp sp m1\<rparr>;
          dir = pget (mem s1) nxt Page_dir;
          s2 = (if cr3 s1 = dir then s1 else write_cr3 dir s1);
          sp' = pget (mem s2) nxt Esp;
          m = mem s2
      in s2\<lparr>cpu := \<lparr>c_ebx = load32 m sp', c_esi = load32 m (sp' + 4), c_edi = load32 m (sp' + 8),
                    c_ebp = load32 m (sp' + 12), c_esp = sp' + 20, c_eip = load32 m (sp' + 16)\<rparr>\<rparr>)"

text \<open>\<open>kthread_entry\<close> up to its call: interrupts on, the thread function popped and called.\<close>

definition kthread_start :: "'a proc_state_scheme \<Rightarrow> 'a proc_state_scheme" where
  "kthread_start s =
     (let f = load32 (mem s) (c_esp (cpu s))
      in s\<lparr>interrupts_on := True, cpu := (cpu s)\<lparr>c_eip := f, c_esp := c_esp (cpu s) + 4\<rparr>\<rparr>)"

section \<open>Reading fields after writes\<close>

lemma field_off_cases: "unat (field_off f) mod 4 = 0 \<and> unat (field_off f) \<le> 28"
  by (cases f) simp_all

lemma field_off_apart:
  "f \<noteq> g \<Longrightarrow> unat (field_off f) + 4 \<le> unat (field_off g) \<or> unat (field_off g) + 4 \<le> unat (field_off f)"
  by (cases f; cases g; simp)

lemma unat_field:
  "unat p + 416 \<le> 2 ^ 32 \<Longrightarrow> unat (p + field_off f) = unat p + unat (field_off f)"
  using field_off_cases [of f] by (intro unat_add_lt) simp

lemma pget_pset_same:
  assumes "unat p + 416 \<le> 2 ^ 32"
  shows "pget (pset p f v m) p g = (if f = g then v else pget m p g)"
proof (cases "f = g")
  case False
  note field_off_apart [OF False]
  with False show ?thesis
    using assms field_off_cases [of f] field_off_cases [of g] unfolding pget_def pset_def
    by (subst load32_store32_other) (auto simp: unat_field)
qed (simp add: pget_def pset_def)

lemma pset_outside:
  assumes "unat p + 416 \<le> 2 ^ 32" and "unat x < unat p \<or> unat p + 416 \<le> unat x"
  shows "pset p f v m x = m x"
  using assms field_off_cases [of f] unfolding pset_def
  by (intro store32_other) (auto simp: unat_field)

lemma load32_pset_outside:
  assumes "unat p + 416 \<le> 2 ^ 32" and "unat a + 4 \<le> unat p \<or> unat p + 416 \<le> unat a" and "unat a + 4 \<le> 2 ^ 32"
  shows "load32 (pset p f v m) a = load32 m a"
  by (rule load32_cong) (use assms in \<open>auto intro!: pset_outside\<close>)

lemma pget_pset_other:
  assumes "unat p + 416 \<le> 2 ^ 32" and "unat q + 416 \<le> 2 ^ 32" and "unat p + 416 \<le> unat q \<or> unat q + 416 \<le> unat p"
  shows "pget (pset p f v m) q g = pget m q g"
  using assms field_off_cases [of g] unfolding pget_def
  by (intro load32_pset_outside) (auto simp: unat_field)

lemma pget_cong:
  assumes "\<And>x. unat p \<le> unat x \<Longrightarrow> unat x < unat p + 416 \<Longrightarrow> m' x = m x" and "unat p + 416 \<le> 2 ^ 32"
  shows "pget m' p f = pget m p f"
  unfolding pget_def
  by (rule load32_cong) (use assms field_off_cases [of f] in \<open>auto simp: unat_field intro!: assms(1)\<close>)

section \<open>Stacks\<close>

text \<open>Pushing words below the address \<open>a\<close>: the pointer, the words and the rest of memory.\<close>

lemma unat_of_nat_le: "a \<le> 2 ^ 32 \<Longrightarrow> 0 < k \<Longrightarrow> k \<le> a \<Longrightarrow> unat (of_nat (a - k) :: u32) = a - k"
  by (intro unat_of_nat32) simp

lemma fold_push:
  assumes "4 * length ws \<le> a" and "a \<le> 2 ^ 32" and "fold push ws (of_nat a, m) = (sp, m')"
  shows "sp = of_nat (a - 4 * length ws) \<and>
    (\<forall>x. unat x < a - 4 * length ws \<or> a \<le> unat x \<longrightarrow> m' x = m x) \<and>
    (\<forall>i < length ws. load32 m' (of_nat (a - 4 * length ws + 4 * i)) = rev ws ! i)"
  using assms
proof (induction ws arbitrary: a m)
  case (Cons w ws)
  let ?b = "a - 4" and ?m = "store32 m (of_nat (a - 4)) w"
  have a: "4 + 4 * length ws \<le> a" "a \<le> 2 ^ 32" using Cons.prems(1,2) by simp_all
  have "(of_nat a - 4 :: u32) = of_nat ?b" using a(1) by (simp add: of_nat_diff)
  then have "push w (of_nat a, m) = (of_nat ?b, ?m)" by (simp add: push_def)
  then have "fold push ws (of_nat ?b, ?m) = (sp, m')" using Cons.prems(3) by simp
  moreover have "4 * length ws \<le> ?b" "?b \<le> 2 ^ 32" using a by simp_all
  ultimately have IH: "sp = of_nat (?b - 4 * length ws)"
      "\<And>x. unat x < ?b - 4 * length ws \<or> ?b \<le> unat x \<Longrightarrow> m' x = ?m x"
      "\<And>i. i < length ws \<Longrightarrow> load32 m' (of_nat (?b - 4 * length ws + 4 * i)) = rev ws ! i"
    using Cons.IH [of ?b ?m] by blast+
  have u: "unat (of_nat ?b :: u32) = ?b" using a by (intro unat_of_nat_le) auto
  have e: "a - 4 * length (w # ws) = ?b - 4 * length ws" by simp
  have off: "m' x = m x" if "unat x < ?b - 4 * length ws \<or> a \<le> unat x" for x
  proof -
    have "m' x = ?m x" using that by (intro IH(2)) auto
    also have "\<dots> = m x" by (rule store32_other) (use that u a in auto)
    finally show ?thesis .
  qed
  have top: "load32 m' (of_nat ?b) = w"
  proof -
    have "load32 m' (of_nat ?b) = load32 ?m (of_nat ?b)"
      by (rule load32_cong) (use u a IH(2) in auto)
    then show ?thesis by simp
  qed
  have "load32 m' (of_nat (?b - 4 * length ws + 4 * i)) = rev (w # ws) ! i" if "i < length (w # ws)" for i
  proof (cases "i = length ws")
    case True
    then have "?b - 4 * length ws + 4 * i = ?b" using a by simp
    with True top show ?thesis by (simp add: nth_append)
  next
    case False
    then have "i < length ws" using that by simp
    then show ?thesis using IH(3) [of i] by (simp add: nth_append)
  qed
  then show ?case using IH(1) off unfolding e by blast
qed simp

section \<open>A new process\<close>

text \<open>A PCB \<open>p\<close> with its kernel stack \<open>ks\<close>, ready to be switched to; the words waiting on the
  stack, lowest address first, are \<open>fr\<close>.\<close>

definition process_ready :: "mem \<Rightarrow> u32 \<Rightarrow> u32 \<Rightarrow> u32 \<Rightarrow> u32 \<Rightarrow> u32 list \<Rightarrow> bool" where
  "process_ready m p ks pid dir fr \<longleftrightarrow>
     pget m p Pid = pid \<and> pget m p Page_dir = dir \<and> pget m p State = PROC_READY \<and>
     pget m p Kernel_stack = ks \<and> pget m p Kernel_stack_top = ks + KERNEL_STACK_SIZE \<and>
     pget m p Esp = of_nat (unat ks + 8192 - 4 * length fr) \<and>
     (\<forall>i < length fr. load32 m (of_nat (unat ks + 8192 - 4 * length fr + 4 * i)) = fr ! i)"

lemma pset_frame:
  assumes "unat p + 416 \<le> 2 ^ 32" and "unat x < unat p \<or> unat p + 32 \<le> unat x"
  shows "pset p f v m x = m x"
  using assms field_off_cases [of f] unfolding pset_def
  by (intro store32_other) (auto simp: unat_field)

lemma process_fields_mem:
  fixes s :: "'a proc_state_scheme" and dir :: u32
  assumes p: "unat p + 416 \<le> 2 ^ 32"
  defines "m' \<equiv> mem (process_fields p dir s)"
  shows "process_fields p dir s = s\<lparr>mem := m', next_pid := next_pid s + 1\<rparr>"
    and "pget m' p Pid = next_pid s" "pget m' p Page_dir = dir" "pget m' p State = PROC_READY"
      "pget m' p Kernel_stack = pget (mem s) p Kernel_stack"
      "pget m' p Kernel_stack_top = pget (mem s) p Kernel_stack + KERNEL_STACK_SIZE"
    and "\<And>x. unat x < unat p \<or> unat p + 32 \<le> unat x \<Longrightarrow> m' x = mem s x"
  by (simp_all add: m'_def process_fields_def Let_def pget_pset_same [OF p] pset_frame [OF p])

lemma pget_frame:
  assumes "\<And>x. unat p \<le> unat x \<Longrightarrow> unat x < unat p + 32 \<Longrightarrow> m' x = m x" and "unat p + 416 \<le> 2 ^ 32"
  shows "pget m' p f = pget m p f"
  unfolding pget_def
  by (rule load32_cong) (use assms field_off_cases [of f] in \<open>auto simp: unat_field intro!: assms(1)\<close>)

lemma new_process:
  fixes s :: "'a proc_state_scheme" and dir :: u32
  assumes p: "unat p + 416 \<le> 2 ^ 32" and ks: "unat ks + 8192 < 2 ^ 32"
    and ap: "unat p + 416 \<le> unat ks \<or> unat ks + 8192 \<le> unat p"
    and k: "pget (mem s) p Kernel_stack = ks" and ws: "length ws \<le> 2048"
  defines "s' \<equiv> process_stack p ws (process_fields p dir s)"
  shows "s' = s\<lparr>mem := mem s', next_pid := next_pid s + 1\<rparr>"
    and "process_ready (mem s') p ks (next_pid s) dir (rev ws)"
    and "\<And>x. unat x < unat p \<or> unat p + 32 \<le> unat x \<Longrightarrow> unat x < unat ks \<or> unat ks + 8192 \<le> unat x \<Longrightarrow>
      mem s' x = mem s x"
proof -
  let ?a = "unat ks + 8192"
  let ?m1 = "mem (process_fields p dir s)"
  note f = process_fields_mem [OF p, where dir = dir and s = s]
  have top: "ks + KERNEL_STACK_SIZE = of_nat ?a" by (simp add: KERNEL_STACK_SIZE_def)
  obtain sp m where fp: "fold push ws (of_nat ?a, ?m1) = (sp, m)" by fastforce
  have "4 * length ws \<le> ?a" "?a \<le> 2 ^ 32" using ws ks by auto
  note pu = fold_push [OF this fp]
  have sp: "sp = of_nat (?a - 4 * length ws)" using pu by blast
  have off: "m x = ?m1 x" if "unat x < unat ks \<or> ?a \<le> unat x" for x
  proof -
    have "unat x < ?a - 4 * length ws \<or> ?a \<le> unat x" using that ws by auto
    then show ?thesis using pu by blast
  qed
  have "pget ?m1 p Kernel_stack_top = of_nat ?a" using f(6) k top by simp
  then have "s' = (process_fields p dir s)\<lparr>mem := pset p Esp sp m\<rparr>"
    by (simp only: s'_def process_stack_def fp prod.case)
  also have "\<dots> = s\<lparr>mem := pset p Esp sp m, next_pid := next_pid s + 1\<rparr>" by (subst f(1)) simp
  finally have s': "s' = s\<lparr>mem := pset p Esp sp m, next_pid := next_pid s + 1\<rparr>" .
  then show "s' = s\<lparr>mem := mem s', next_pid := next_pid s + 1\<rparr>" by simp
  have g: "pget m p g = pget ?m1 p g" for g
    by (rule pget_frame) (use off ap p in auto)
  have "load32 (pset p Esp sp m) (of_nat (?a - 4 * length ws + 4 * i)) = rev ws ! i" if i: "i < length ws" for i
  proof -
    have "unat (of_nat (?a - 4 * length ws + 4 * i) :: u32) = ?a - 4 * length ws + 4 * i"
      using ws ks i by (intro unat_of_nat32) simp
    moreover have "unat ks \<le> ?a - 4 * length ws + 4 * i" "?a - 4 * length ws + 4 * i + 4 \<le> ?a" using ws i by auto
    ultimately have "load32 (pset p Esp sp m) (of_nat (?a - 4 * length ws + 4 * i)) =
        load32 m (of_nat (?a - 4 * length ws + 4 * i))"
      using ap p ks by (intro load32_pset_outside) auto
    then show ?thesis using pu i by simp
  qed
  then show "process_ready (mem s') p ks (next_pid s) dir (rev ws)"
    by (simp add: process_ready_def s' pget_pset_same [OF p] g f(2-6) k sp)
  show "mem s' x = mem s x" if "unat x < unat p \<or> unat p + 32 \<le> unat x" "unat x < unat ks \<or> ?a \<le> unat x" for x
    using that off f(7) by (simp add: s' pset_frame [OF p])
qed

section \<open>Allocation of the two blocks\<close>

text \<open>States that differ only in the console, memory and the byte counter of the heap.\<close>

definition heap_step :: "'a heap_state_scheme \<Rightarrow> 'a heap_state_scheme \<Rightarrow> bool" where
  "heap_step s s' \<longleftrightarrow> (\<exists>po b c w m u. s' =
     s\<lparr>ports := po, vga_buf := b, vga_col := c, vga_row := w, mem := m, heap_used := u\<rparr>)"

lemma heap_step_trans: "heap_step s s' \<Longrightarrow> heap_step s' s'' \<Longrightarrow> heap_step s s''"
  unfolding heap_step_def by clarsimp blast

lemma heap_step_mem: "heap_step s (s\<lparr>mem := m\<rparr>)"
proof -
  have "s\<lparr>mem := m\<rparr> = s\<lparr>ports := ports s, vga_buf := vga_buf s, vga_col := vga_col s, vga_row := vga_row s,
      mem := m, heap_used := heap_used s\<rparr>" by simp
  then show ?thesis unfolding heap_step_def by blast
qed

lemma heap_step_ops:
  "kmalloc sz s = Some (p, s') \<Longrightarrow> heap_step s s'" "kzalloc sz s = Some (p, s') \<Longrightarrow> heap_step s s'"
  "heap_step s (kfree q s)" "heap_step s (kprintf f args s)"
  unfolding heap_step_def
  by (blast elim: kmalloc_frame, blast elim: kzalloc_frame, blast intro: kfree_frame [of q s], rule kprintf_with_mem)

lemma heap_step_fields:
  assumes "heap_step s s'"
  shows "heap_start_addr s' = heap_start_addr s" "heap_end_addr s' = heap_end_addr s" "heap_head s' = heap_head s"
    and "kernel_dir s' = kernel_dir s" "cr3 s' = cr3 s" "tlb s' = tlb s" "bitmap s' = bitmap s"
  using assms by (auto simp: heap_step_def)

lemma heap_step_proc_fields:
  fixes s :: "'a proc_state_scheme"
  assumes "heap_step s s'"
  shows "next_pid s' = next_pid s" "kthread_entry s' = kthread_entry s" "cpu s' = cpu s"
    "proc_iret_trampoline s' = proc_iret_trampoline s" "interrupts_on s' = interrupts_on s" "tss s' = tss s"
    "tick_count s' = tick_count s" "irq_handlers s' = irq_handlers s"
  using assms by (auto simp: heap_step_def)

lemma heap_block_fits:
  assumes "heap_inv s" and "(unat p, n) \<in> heap_live s" and "k \<le> n"
  shows "unat p + k < 2 ^ 32" "p \<noteq> 0"
proof -
  note r = heap_live_range [OF assms(1,2)]
  show "unat p + k < 2 ^ 32" using r(2) assms(3) heap_top_bound [of s] by simp
  show "p \<noteq> 0" using r(1) by auto
qed

lemma mem_frameD: "mem_frame a e L m m' \<Longrightarrow> (q, n) \<in> L \<Longrightarrow> q \<le> unat x \<Longrightarrow> unat x < q + n \<Longrightarrow> m' x = m x"
  unfolding mem_frame_def by blast

lemma mem_frame_out: "mem_frame a e L m m' \<Longrightarrow> unat x < a \<or> e \<le> unat x \<Longrightarrow> m' x = m x"
  unfolding mem_frame_def by blast

lemma heap_write_block:
  fixes s :: "'a heap_state_scheme"
  assumes inv: "heap_inv s" and l: "(q, n) \<in> heap_live s"
    and off: "\<And>x. unat x < q \<or> q + n \<le> unat x \<Longrightarrow> m' x = mem s x"
  shows "heap_inv (s\<lparr>mem := m'\<rparr>)" "heap_live (s\<lparr>mem := m'\<rparr>) = heap_live s"
    and "mem_frame (heap_base s) (heap_top s) (heap_live s - {(q, n)}) (mem s) m'"
proof -
  have "agree_off (heap_live s) (mem s) m'" using off l by (fastforce simp: agree_off_def)
  then show "heap_inv (s\<lparr>mem := m'\<rparr>)" "heap_live (s\<lparr>mem := m'\<rparr>) = heap_live s"
    by (simp_all add: heap_write [OF inv])
  show "mem_frame (heap_base s) (heap_top s) (heap_live s - {(q, n)}) (mem s) m'"
    unfolding mem_frame_def
  proof (intro allI impI off)
    fix x :: u32
    assume "unat x < heap_base s \<or> heap_top s \<le> unat x \<or>
      (\<exists>(r, i) \<in> heap_live s - {(q, n)}. r \<le> unat x \<and> unat x < r + i)"
    then show "unat x < q \<or> q + n \<le> unat x"
      using heap_live_range [OF inv l] kheap.apart [OF inv l] by fastforce
  qed
qed

lemma heap_pset:
  fixes s :: "'a heap_state_scheme"
  assumes inv: "heap_inv s" and l: "(unat p, n) \<in> heap_live s" and n: "416 \<le> n"
  shows "heap_inv (upd_mem (pset p f v) s)" "heap_live (upd_mem (pset p f v) s) = heap_live s"
    and "mem_frame (heap_base s) (heap_top s) (heap_live s - {(unat p, n)}) (mem s) (pset p f v (mem s))"
proof -
  have "unat p + 416 < 2 ^ 32" using heap_block_fits [OF inv l n] by simp
  then have "pset p f v (mem s) x = mem s x" if "unat x < unat p \<or> unat p + n \<le> unat x" for x
    using that n by (intro pset_outside) auto
  note w = heap_write_block [OF inv l this]
  show "heap_inv (upd_mem (pset p f v) s)" "heap_live (upd_mem (pset p f v) s) = heap_live s"
    "mem_frame (heap_base s) (heap_top s) (heap_live s - {(unat p, n)}) (mem s) (pset p f v (mem s))"
    using w by simp_all
qed

lemmas alloc_sizes = sizeof_process_def KERNEL_STACK_SIZE_def

text \<open>The kernel stack could not be allocated: the PCB is given back.\<close>

lemma process_alloc_rollback:
  fixes s :: "'a proc_state_scheme"
  assumes inv: "heap_inv s" and l: "(unat p, n) \<in> heap_live s" and n: "416 \<le> n"
  defines "s' \<equiv> kfree p (upd_mem (pset p Kernel_stack 0) s)"
  shows "heap_inv s'" "heap_live s' = heap_live s - {(unat p, n)}" "heap_step s s'"
    and "mem_frame (heap_base s) (heap_top s) (heap_live s - {(unat p, n)}) (mem s) (mem s')"
proof -
  note w = heap_pset [OF inv l n, of Kernel_stack 0]
  note fr = kfree_live [OF w(1), of p n]
  show "heap_inv s'" "heap_live s' = heap_live s - {(unat p, n)}" using fr w(2) l by (simp_all add: s'_def)
  show "heap_step s s'" unfolding s'_def by (rule heap_step_trans [OF heap_step_mem heap_step_ops(3)])
  show "mem_frame (heap_base s) (heap_top s) (heap_live s - {(unat p, n)}) (mem s) (mem s')"
    using mem_frame_trans [OF w(3)] fr(3) w(2) l by (simp add: s'_def)
qed

lemma process_alloc_cases:
  fixes s :: "'a proc_state_scheme"
  assumes inv: "heap_inv s"
  obtains (null) s' where "process_alloc s = Some (Inl s')" "heap_inv s'" "heap_live s' = heap_live s"
      "mem_frame (heap_base s) (heap_top s) (heap_live s) (mem s) (mem s')" "heap_step s s'"
  | (ok) p ks n k s' where "process_alloc s = Some (Inr (p, s'))" "heap_inv s'"
      "heap_live s' = insert (unat p, n) (insert (unat ks, k) (heap_live s))"
      "(unat p, n) \<notin> heap_live s" "(unat ks, k) \<notin> heap_live s" "416 \<le> n" "8192 \<le> k"
      "unat p + n \<le> unat ks \<or> unat ks + k \<le> unat p"
      "mem_frame (heap_base s) (heap_top s) (heap_live s) (mem s) (mem s')" "heap_step s s'"
      "pget (mem s') p Kernel_stack = ks" "\<And>x. unat p + 32 \<le> unat x \<Longrightarrow> unat x < unat p + 416 \<Longrightarrow> mem s' x = 0"
proof -
  show thesis
  proof (cases rule: kzalloc_cases [OF inv, of sizeof_process])
    case (3 s')
    then have "process_alloc s = Some (Inl s')" by (simp add: process_alloc_def)
    then show thesis using 3 heap_step_ops(2) [OF 3(1)] by (intro null) (auto simp: mem_frame_def)
  next
    case P: (4 p n s1)
    have n: "416 \<le> n" using P(6) by (simp add: alloc_sizes)
    have l1: "(unat p, n) \<in> heap_live s1" using P(4) by simp
    have p: "unat p + 416 < 2 ^ 32" using heap_block_fits [OF P(3) l1 n] by simp
    note st1 = heap_step_ops(2) [OF P(1)]
    note b1 = heap_step_fields(1,2) [OF st1]
    have sub: "heap_live s1 - {(unat p, n)} = heap_live s" using P(4,5) by auto
    show thesis
    proof (cases rule: kzalloc_cases [OF P(3), of KERNEL_STACK_SIZE])
      case (3 s2)
      have l2: "(unat p, n) \<in> heap_live s2" using 3(3) l1 by simp
      note st2 = heap_step_trans [OF st1 heap_step_ops(2) [OF 3(1)]]
      note rb = process_alloc_rollback [OF 3(2) l2 n]
      have "process_alloc s = Some (Inl (kfree p (upd_mem (pset p Kernel_stack 0) s2)))"
        using P(1,2) 3(1) by (simp add: process_alloc_def Let_def)
      then show thesis
        by (rule null) (use rb 3(3,4) sub heap_step_trans [OF st2 rb(3)] heap_step_fields(1,2) [OF st2]
            mem_frame_trans [OF P(7)] in simp_all)
    next
      case K: (4 ks k s2)
      have l2: "(unat p, n) \<in> heap_live s2" using K(4) l1 by simp
      note st2 = heap_step_trans [OF st1 heap_step_ops(2) [OF K(1)]]
      note w = heap_pset [OF K(3) l2 n, of Kernel_stack ks]
      have z: "pset p Kernel_stack ks (mem s2) x = 0" if "unat p + 32 \<le> unat x" "unat x < unat p + 416" for x
      proof -
        have "pset p Kernel_stack ks (mem s2) x = mem s2 x" using p that by (intro pset_frame) auto
        also have "\<dots> = mem s1 x" by (rule mem_frameD [OF K(7) l1]) (use that n in auto)
        also have "\<dots> = 0" using P(9) [of x] that by (simp add: alloc_sizes)
        finally show ?thesis .
      qed
      have "heap_live s \<subseteq> heap_live s2 - {(unat p, n)}" "heap_live s \<subseteq> heap_live s1" using K(4) P(4,5) by auto
      note mf = mem_frame_mono [OF w(3) this(1)] mem_frame_mono [OF K(7) this(2)]
      have "mem_frame (heap_base s) (heap_top s) (heap_live s) (mem s) (pset p Kernel_stack ks (mem s2))"
        using mem_frame_trans [OF mem_frame_trans [OF P(7)]] mf heap_step_fields(1,2) [OF st2] b1 by simp
      moreover have "unat p + n \<le> unat ks \<or> unat ks + k \<le> unat p" using K(8) [OF l1] by auto
      moreover have "process_alloc s = Some (Inr (p, upd_mem (pset p Kernel_stack ks) s2))"
        using P(1,2) K(1,2) by (simp add: process_alloc_def Let_def)
      ultimately show thesis
        by (intro ok [of p "upd_mem (pset p Kernel_stack ks) s2" n ks k])
          (use w n z K P p heap_step_trans [OF st2 heap_step_mem] in
            \<open>auto simp: alloc_sizes insert_commute pget_pset_same\<close>)
    qed (simp_all add: alloc_sizes)
  qed (simp_all add: alloc_sizes)
qed

section \<open>Switching\<close>

text \<open>Two ranges of addresses that share no byte.\<close>

definition apart :: "nat \<Rightarrow> nat \<Rightarrow> nat \<Rightarrow> nat \<Rightarrow> bool" where
  "apart a n b k \<longleftrightarrow> a + n \<le> b \<or> b + k \<le> a"

text \<open>\<open>switchable\<close>: the four words \<open>context_switch\<close> saves below the stack pointer and the PCB of the
  current process do not overlap the PCB of the next one or the five words waiting on its stack.\<close>

definition switchable :: "u32 \<Rightarrow> u32 \<Rightarrow> 'a proc_state_scheme \<Rightarrow> bool" where
  "switchable cur nxt s \<longleftrightarrow>
     (let a = unat (c_esp (cpu s)) - 16; e = unat (pget (mem s) nxt Esp) in
      16 \<le> unat (c_esp (cpu s)) \<and> unat cur + 416 \<le> 2 ^ 32 \<and> unat nxt + 416 \<le> 2 ^ 32 \<and> e + 20 \<le> 2 ^ 32 \<and>
      apart a 16 (unat cur) 416 \<and> apart a 16 (unat nxt) 416 \<and> apart a 16 e 20 \<and>
      apart (unat cur) 416 (unat nxt) 416 \<and> apart (unat cur) 416 e 20)"

definition restored :: "mem \<Rightarrow> u32 \<Rightarrow> cpu_regs" where
  "restored m e = \<lparr>c_ebx = load32 m e, c_esi = load32 m (e + 4), c_edi = load32 m (e + 8),
     c_ebp = load32 m (e + 12), c_esp = e + 20, c_eip = load32 m (e + 16)\<rparr>"

lemma restored_cong:
  assumes "\<And>x. unat e \<le> unat x \<Longrightarrow> unat x < unat e + 20 \<Longrightarrow> m' x = m x" and "unat e + 20 \<le> 2 ^ 32"
  shows "restored m' e = restored m e"
proof -
  have u: "unat (e + 4) = unat e + 4" "unat (e + 8) = unat e + 8" "unat (e + 12) = unat e + 12"
      "unat (e + 16) = unat e + 16"
    using assms(2) by (simp_all add: unat_add_num)
  have "load32 m' e = load32 m e" "load32 m' (e + 4) = load32 m (e + 4)" "load32 m' (e + 8) = load32 m (e + 8)"
      "load32 m' (e + 12) = load32 m (e + 12)" "load32 m' (e + 16) = load32 m (e + 16)"
    using assms u by (auto intro!: load32_cong)
  then show ?thesis by (simp add: restored_def)
qed

lemma context_switch_effect:
  fixes s :: "'a proc_state_scheme"
  assumes "switchable cur nxt s"
  defines "s' \<equiv> context_switch cur nxt s" and "c \<equiv> cpu s"
  shows "cpu s' = restored (mem s) (pget (mem s) nxt Esp)"
    and "cr3 s' = pget (mem s) nxt Page_dir"
    and "pget (mem s') cur Esp = c_esp c - 16"
    and "\<And>i. i < 4 \<Longrightarrow> load32 (mem s') (of_nat (unat (c_esp c) - 16 + 4 * i)) = [c_ebx c, c_esi c, c_edi c, c_ebp c] ! i"
    and "\<And>x. unat x < unat (c_esp c) - 16 \<or> unat (c_esp c) \<le> unat x \<Longrightarrow> unat x < unat cur \<or> unat cur + 32 \<le> unat x \<Longrightarrow>
      mem s' x = mem s x"
    and "s' = s\<lparr>mem := mem s', cr3 := cr3 s', tlb := tlb s', cpu := cpu s'\<rparr>"
proof -
  let ?a = "unat (c_esp c)" and ?e = "pget (mem s) nxt Esp" and ?ws = "[c_ebp c, c_edi c, c_esi c, c_ebx c]"
  have sw: "16 \<le> ?a" "unat cur + 416 \<le> 2 ^ 32" "unat nxt + 416 \<le> 2 ^ 32" "unat ?e + 20 \<le> 2 ^ 32"
      "apart (?a - 16) 16 (unat cur) 416" "apart (?a - 16) 16 (unat nxt) 416" "apart (?a - 16) 16 (unat ?e) 20"
      "apart (unat cur) 416 (unat nxt) 416" "apart (unat cur) 416 (unat ?e) 20"
    using assms(1) by (simp_all add: switchable_def c_def Let_def)
  obtain sp m1 where fp: "fold push ?ws (c_esp c, mem s) = (sp, m1)" by fastforce
  have a32: "?a \<le> 2 ^ 32" using unat_bound32 [of "c_esp c"] by simp
  have "(of_nat ?a :: u32) = c_esp c" by simp
  then have fp': "fold push ?ws (of_nat ?a, mem s) = (sp, m1)" using fp by (simp only:)
  have len: "4 * length ?ws = 16" by simp
  note pu = fold_push [OF _ a32 fp', unfolded len, OF sw(1)]
  have sp: "sp = of_nat (?a - 16)" and pm: "\<And>x. unat x < ?a - 16 \<or> ?a \<le> unat x \<Longrightarrow> m1 x = mem s x"
    using pu by blast+
  let ?m = "pset cur Esp sp m1"
  have out: "?m x = mem s x" if "unat x < ?a - 16 \<or> ?a \<le> unat x" "unat x < unat cur \<or> unat cur + 32 \<le> unat x" for x
    using pm [OF that(1)] pset_frame [OF sw(2) that(2)] by simp
  have nx: "pget ?m nxt f = pget (mem s) nxt f" for f
    by (rule pget_cong) (use sw(1,3,6,8) out in \<open>auto simp: apart_def\<close>)
  have rs: "restored ?m ?e = restored (mem s) ?e"
    by (rule restored_cong) (use sw(1,4,7,9) out in \<open>auto simp: apart_def\<close>)
  have s': "s' = (if cr3 s = pget (mem s) nxt Page_dir then s\<lparr>mem := ?m\<rparr> else write_cr3 (pget (mem s) nxt Page_dir) (s\<lparr>mem := ?m\<rparr>))
      \<lparr>cpu := restored (mem s) ?e\<rparr>"
    using fp rs unfolding s'_def context_switch_def c_def [symmetric]
    by (simp add: nx restored_def write_cr3_def)
  have m: "mem s' = ?m" by (simp add: s' write_cr3_def)
  show "cpu s' = restored (mem s) ?e" "cr3 s' = pget (mem s) nxt Page_dir" by (simp_all add: s' write_cr3_def)
  have "of_nat (?a - 16) = c_esp c - 16" using sw(1) by (simp add: of_nat_diff)
  then show "pget (mem s') cur Esp = c_esp c - 16" using sp by (simp add: m pget_pset_same [OF sw(2)])
  show "mem s' x = mem s x" if "unat x < ?a - 16 \<or> ?a \<le> unat x" "unat x < unat cur \<or> unat cur + 32 \<le> unat x" for x
    using out that by (simp add: m)
  show "s' = s\<lparr>mem := mem s', cr3 := cr3 s', tlb := tlb s', cpu := cpu s'\<rparr>"
    by (simp add: s' write_cr3_def)
  show "load32 (mem s') (of_nat (?a - 16 + 4 * i)) = [c_ebx c, c_esi c, c_edi c, c_ebp c] ! i" if i: "i < 4" for i
  proof -
    have u: "unat (of_nat (?a - 16 + 4 * i) :: u32) = ?a - 16 + 4 * i"
      using i sw(1) unat_bound32 [of "c_esp c"] by (intro unat_of_nat32) simp
    have "load32 ?m (of_nat (?a - 16 + 4 * i)) = load32 m1 (of_nat (?a - 16 + 4 * i))"
      using u i sw a32 by (intro load32_pset_outside) (auto simp: apart_def)
    moreover have "i < length ?ws" using i by simp
    then have "load32 m1 (of_nat (?a - 16 + 4 * i)) = rev ?ws ! i" using pu by blast
    ultimately show ?thesis by (simp add: m)
  qed
qed

section \<open>Room for a process\<close>

lemma heap_rel_write:
  fixes s :: "'a heap_state_scheme"
  assumes rel: "heap_rel s bs" and off: "agree_off (heap_live s) (mem s) m'"
  shows "heap_rel (s\<lparr>mem := m'\<rparr>) bs"
  using chain_payload [OF heap_rel_chain [OF rel] heap_top_bound, of "{}" m'] off heap_live_eq [OF rel] rel
  by (simp add: heap_rel_def)

lemma kzalloc_room:
  fixes s :: "'a heap_state_scheme"
  assumes rel: "heap_rel s bs" and b: "(n, False) \<in> set bs" and sz: "0 < sz" "sz \<le> 0xFFFFFFFC"
    and n: "unat (ALIGN4 sz) \<le> n" and k: "kzalloc sz s = Some (p, s')"
  shows "p \<noteq> 0"
    and "unat (ALIGN4 sz) + 20 \<le> n \<Longrightarrow>
      \<exists>bs' i. heap_rel s' bs' \<and> (i, False) \<in> set bs' \<and> n - unat (ALIGN4 sz) - 16 \<le> i"
proof -
  have inv: "heap_inv s" using rel by (auto simp: heap_inv_def)
  have sz0: "sz \<noteq> 0" using sz(1) by auto
  have "alloc_blocks (unat (ALIGN4 sz)) (heap_base s) bs \<noteq> None"
    unfolding alloc_blocks_none using bspec [of "set bs" _ "(n, False)"] b n by fastforce
  then obtain q bs' where al: "alloc_blocks (unat (ALIGN4 sz)) (heap_base s) bs = Some (q, bs')" by auto
  obtain s1 where s1: "kmalloc sz s = Some (of_nat q, s1)" "heap_rel s1 bs'"
    using kmalloc_refines [OF rel sz0] al by auto
  have inv1: "heap_inv s1" using s1(2) by (auto simp: heap_inv_def)
  obtain i where "live (heap_base s) bs' = insert (q, i) (live (heap_base s) bs)" "unat (ALIGN4 sz) \<le> i"
    using alloc_blocks_live al by blast
  then have l: "(q, i) \<in> heap_live s1" "unat (ALIGN4 sz) \<le> i"
    using heap_live_eq [OF s1(2)] kmalloc_heap_fields [OF s1(1)] by auto
  have q: "unat (of_nat q :: u32) = q" "q \<noteq> 0"
    using heap_live_range [OF inv1 l(1)] heap_top_bound [of s1] by (auto intro!: unat_of_nat32)
  then have nz: "(of_nat q :: u32) \<noteq> 0" by (metis unat_0)
  then have eq: "p = of_nat q" "s' = s1\<lparr>mem := store_bytes (mem s1) (of_nat q) (replicate (unat sz) 0)\<rparr>"
    using k s1(1) by (auto simp: kzalloc_def)
  show "p \<noteq> 0" using nz eq(1) by simp
  have "unat sz \<le> unat (ALIGN4 sz)"
    unfolding unat_ALIGN4 [OF sz(2)] using div_mult_mod_eq [of "unat sz + 3" 4] mod_less_divisor [of 4 "unat sz + 3"]
    by linarith
  then have "store_bytes (mem s1) (of_nat q) (replicate (unat sz) 0) x = mem s1 x" if "unat x < q \<or> q + i \<le> unat x" for x
    using that l(2) q(1) heap_live_range [OF inv1 l(1)] heap_top_bound [of s1] by (intro store_bytes_other) auto
  then have "agree_off (heap_live s1) (mem s1) (store_bytes (mem s1) (of_nat q) (replicate (unat sz) 0))"
    using l(1) by (fastforce simp: agree_off_def)
  then have "heap_rel s' bs'" using heap_rel_write [OF s1(2)] eq(2) by simp
  then show "\<exists>bs' i. heap_rel s' bs' \<and> (i, False) \<in> set bs' \<and> n - unat (ALIGN4 sz) - 16 \<le> i"
    if "unat (ALIGN4 sz) + 20 \<le> n"
    using alloc_blocks_keeps_room [OF al b that] by blast
qed

lemma process_alloc_room:
  fixes s :: "'a proc_state_scheme"
  assumes rel: "heap_rel s bs" and b: "(n, False) \<in> set bs" and n: "8624 \<le> n"
  shows "process_alloc s \<noteq> Some (Inl s')"
proof -
  have inv: "heap_inv s" using rel by (auto simp: heap_inv_def)
  have al: "unat (ALIGN4 sizeof_process) = 416" "unat (ALIGN4 KERNEL_STACK_SIZE) = 8192"
    by (simp_all add: alloc_sizes unat_ALIGN4)
  have sz: "0 < sizeof_process" "sizeof_process \<le> 0xFFFFFFFC" "0 < KERNEL_STACK_SIZE" "KERNEL_STACK_SIZE \<le> 0xFFFFFFFC"
    by (simp_all add: alloc_sizes)
  obtain p s1 where k1: "kzalloc sizeof_process s = Some (p, s1)"
    by (cases rule: kzalloc_cases [OF inv sz(1,2)]) auto
  note r1 = kzalloc_room [OF rel b sz(1,2) _ k1, unfolded al]
  obtain bs1 i where r: "heap_rel s1 bs1" "(i, False) \<in> set bs1" "n - 416 - 16 \<le> i" using r1(2) n by auto
  then have inv1: "heap_inv s1" by (auto simp: heap_inv_def)
  obtain ks s2 where k2: "kzalloc KERNEL_STACK_SIZE s1 = Some (ks, s2)"
    by (cases rule: kzalloc_cases [OF inv1 sz(3,4)]) auto
  have "ks \<noteq> 0" using kzalloc_room(1) [OF r(1,2) sz(3,4) _ k2, unfolded al] r(3) n by simp
  then show ?thesis using k1 k2 r1(1) n by (simp add: process_alloc_def Let_def)
qed

section \<open>Creation\<close>

text \<open>The outcome of both creation functions: the words \<open>fr\<close> wait on the new stack.\<close>

definition created :: "u32 \<Rightarrow> u32 list \<Rightarrow> u32 \<Rightarrow> 'a proc_state_scheme \<Rightarrow> 'a proc_state_scheme \<Rightarrow> bool" where
  "created dir fr p s s' \<longleftrightarrow> (\<exists>ks n k.
     heap_inv s' \<and> heap_live s' = insert (unat p, n) (insert (unat ks, k) (heap_live s)) \<and>
     (unat p, n) \<notin> heap_live s \<and> (unat ks, k) \<notin> heap_live s \<and> 416 \<le> n \<and> 8192 \<le> k \<and>
     apart (unat p) n (unat ks) k \<and>
     mem_frame (heap_base s) (heap_top s) (heap_live s) (mem s) (mem s') \<and>
     process_ready (mem s') p ks (next_pid s) dir fr \<and> next_pid s' = next_pid s + 1 \<and>
     (\<forall>x. unat p + 32 \<le> unat x \<and> unat x < unat p + 416 \<longrightarrow> mem s' x = 0))"

lemma created_from_alloc:
  fixes s :: "'a proc_state_scheme"
  assumes inv1: "heap_inv s1" and live1: "heap_live s1 = insert (unat p, n) (insert (unat ks, k) (heap_live s))"
    and fresh: "(unat p, n) \<notin> heap_live s" "(unat ks, k) \<notin> heap_live s" and sz: "416 \<le> n" "8192 \<le> k"
    and ap: "unat p + n \<le> unat ks \<or> unat ks + k \<le> unat p"
    and fr: "mem_frame (heap_base s) (heap_top s) (heap_live s) (mem s) (mem s1)" and st: "heap_step s s1"
    and ks: "pget (mem s1) p Kernel_stack = ks"
    and z: "\<And>x. unat p + 32 \<le> unat x \<Longrightarrow> unat x < unat p + 416 \<Longrightarrow> mem s1 x = 0"
    and ws: "length ws \<le> 2048"
  shows "created dir (rev ws) p s (process_stack p ws (process_fields p dir s1))"
proof -
  let ?s' = "process_stack p ws (process_fields p dir s1)"
  have lp: "(unat p, n) \<in> heap_live s1" and lk: "(unat ks, k) \<in> heap_live s1" using live1 by auto
  have p: "unat p + 416 \<le> 2 ^ 32" and k: "unat ks + 8192 < 2 ^ 32"
    using heap_block_fits [OF inv1 lp sz(1)] heap_block_fits [OF inv1 lk sz(2)] by auto
  have ap': "unat p + 416 \<le> unat ks \<or> unat ks + 8192 \<le> unat p" using ap sz by auto
  note nw = new_process [OF p k ap' ks ws, where dir = dir]
  have off: "mem ?s' x = mem s1 x"
    if "unat x < unat p \<or> unat p + n \<le> unat x" "unat x < unat ks \<or> unat ks + k \<le> unat x" for x
    using that sz by (intro nw(3)) auto
  have "agree_off (heap_live s1) (mem s1) (mem ?s')" using off lp lk by (fastforce simp: agree_off_def)
  note w = heap_write [OF inv1 this]
  have hs: "heap_inv ?s' = heap_inv (s1\<lparr>mem := mem ?s'\<rparr>)" "heap_live ?s' = heap_live (s1\<lparr>mem := mem ?s'\<rparr>)"
    by (rule heap_same; subst nw(1); simp)+
  have "mem_frame (heap_base s) (heap_top s) (heap_live s) (mem s1) (mem ?s')"
    unfolding mem_frame_def
  proof (intro allI impI off)
    fix x :: u32
    assume c: "unat x < heap_base s \<or> heap_top s \<le> unat x \<or> (\<exists>(q, i) \<in> heap_live s. q \<le> unat x \<and> unat x < q + i)"
    note b = heap_step_fields(1,2) [OF st]
    have "q + i \<le> unat p \<or> unat p + n \<le> q" "q + i \<le> unat ks \<or> unat ks + k \<le> q" if "(q, i) \<in> heap_live s" for q i
      using that kheap.apart [OF inv1, of q i "unat p" n] kheap.apart [OF inv1, of q i "unat ks" k] live1 fresh by auto
    then show "unat x < unat p \<or> unat p + n \<le> unat x" "unat x < unat ks \<or> unat ks + k \<le> unat x"
      using c heap_live_range [OF inv1 lp] heap_live_range [OF inv1 lk] unfolding b by fastforce+
  qed
  then have mf: "mem_frame (heap_base s) (heap_top s) (heap_live s) (mem s) (mem ?s')"
    by (rule mem_frame_trans [OF fr])
  have np: "next_pid s1 = next_pid s" using heap_step_proc_fields [OF st] by simp
  have "next_pid ?s' = next_pid s + 1" using np by (subst nw(1)) simp
  moreover have "mem ?s' x = 0" if "unat p + 32 \<le> unat x" "unat x < unat p + 416" for x
    using nw(3) [of x] z [OF that] that ap' by auto
  ultimately show ?thesis
    unfolding created_def using w hs nw(2) np live1 fresh sz ap mf
    by (intro exI [of _ ks] exI [of _ n] exI [of _ k]) (simp add: apart_def)
qed

lemmas kprintf_proc_fields [simp] = heap_step_proc_fields [OF heap_step_ops(4)]

lemma process_alloc_created:
  fixes s :: "'a proc_state_scheme"
  assumes rel: "heap_rel s bs"
  obtains (null) s' where "process_alloc s = Some (Inl s')" "\<forall>(n, u) \<in> set bs. u \<or> n < 8624" "heap_inv s'"
      "heap_live s' = heap_live s" "mem_frame (heap_base s) (heap_top s) (heap_live s) (mem s) (mem s')"
      "next_pid s' = next_pid s"
  | (ok) p s' where "process_alloc s = Some (Inr (p, s'))" "p \<noteq> 0" "heap_step s s'"
      "\<And>ws dir. length ws \<le> 2048 \<Longrightarrow> created dir (rev ws) p s (process_stack p ws (process_fields p dir s'))"
proof -
  have inv: "heap_inv s" using rel by (auto simp: heap_inv_def)
  show thesis
  proof (cases rule: process_alloc_cases [OF inv])
    case (1 s')
    have "u \<or> n < 8624" if "(n, u) \<in> set bs" for n u
      using process_alloc_room [OF rel, of n s'] 1(1) that by (cases u) fastforce+
    then show thesis using 1 heap_step_proc_fields(1) [OF 1(5)] by (intro null [of s']) auto
  next
    case (2 p ks n k s')
    have "p \<noteq> 0" using heap_block_fits(2) [OF 2(2), of p n 416] 2(3,6) by auto
    then show thesis using 2 by (intro ok [of p s'] created_from_alloc)
  qed
qed

lemma process_fields_kthread [simp]:
  "kthread_entry (process_fields p dir s) = kthread_entry s"
  "proc_iret_trampoline (process_fields p dir s) = proc_iret_trampoline s"
  by (simp_all add: process_fields_def Let_def)

text \<open>What creation leaves alone, whatever the heap looks like.\<close>

lemma process_alloc_step:
  assumes "process_alloc s = Some r"
  shows "heap_step s (case r of Inl s' \<Rightarrow> s' | Inr (p, s') \<Rightarrow> s')"
proof -
  obtain p s1 where k1: "kzalloc sizeof_process s = Some (p, s1)"
    using assms by (auto simp: process_alloc_def split: option.splits)
  note st1 = heap_step_ops(2) [OF k1]
  show ?thesis
  proof (cases "p = 0")
    case True
    then show ?thesis using assms k1 st1 by (auto simp: process_alloc_def)
  next
    case False
    then obtain ks s2 where k2: "kzalloc KERNEL_STACK_SIZE s1 = Some (ks, s2)"
      using assms k1 by (auto simp: process_alloc_def split: option.splits)
    note st2 = heap_step_trans [OF st1 heap_step_ops(2) [OF k2]]
    note st3 = heap_step_trans [OF st2 heap_step_mem]
    note st4 = heap_step_trans [OF st3 heap_step_ops(3)]
    have "r = (if ks = 0 then Inl (kfree p (upd_mem (pset p Kernel_stack ks) s2))
        else Inr (p, upd_mem (pset p Kernel_stack ks) s2))"
      using assms False k1 k2 by (simp add: process_alloc_def Let_def split: if_splits)
    then show ?thesis using st3 st4 by simp
  qed
qed

lemma process_build_step:
  "process_stack p ws (process_fields p dir s) =
     s\<lparr>mem := mem (process_stack p ws (process_fields p dir s)), next_pid := next_pid s + 1\<rparr>"
  by (simp add: process_stack_def process_fields_def Let_def split: prod.splits)

lemma process_create_step:
  assumes "process_create f s = Some (p, s')"
  obtains i where "heap_step (s\<lparr>next_pid := i\<rparr>) s'"
proof -
  obtain r where r: "process_alloc s = Some r" using assms by (auto simp: process_create_def split: option.splits)
  note st = process_alloc_step [OF r]
  show thesis
  proof (cases r)
    case (Inl s1)
    then have "heap_step (s\<lparr>next_pid := next_pid s\<rparr>) s'" using assms r st by (simp add: process_create_def)
    then show thesis by (rule that)
  next
    case (Inr ps)
    obtain q s1 where ps: "ps = (q, s1)" by (cases ps)
    obtain m where s': "s' = s1\<lparr>mem := m, next_pid := next_pid s1 + 1\<rparr>"
      using assms r Inr ps process_build_step [of q _ _ s1] by (simp add: process_create_def Let_def) metis
    obtain po b c w m1 u where "s1 =
        s\<lparr>ports := po, vga_buf := b, vga_col := c, vga_row := w, mem := m1, heap_used := u\<rparr>"
      using st Inr ps by (auto simp: heap_step_def)
    then have "s' = s\<lparr>next_pid := next_pid s + 1, ports := po, vga_buf := b, vga_col := c, vga_row := w,
        mem := m, heap_used := u\<rparr>"
      by (simp add: s')
    then have "heap_step (s\<lparr>next_pid := next_pid s + 1\<rparr>) s'" unfolding heap_step_def by blast
    then show thesis by (rule that)
  qed
qed

lemma process_create_fields:
  assumes "process_create f s = Some (p, s')"
  shows "cpu s' = cpu s" "heap_start_addr s' = heap_start_addr s" "heap_end_addr s' = heap_end_addr s"
    "kernel_dir s' = kernel_dir s" "interrupts_on s' = interrupts_on s" "tss s' = tss s" "tick_count s' = tick_count s"
    "irq_handlers s' = irq_handlers s" "kthread_entry s' = kthread_entry s"
    "proc_iret_trampoline s' = proc_iret_trampoline s"
proof -
  obtain i where st: "heap_step (s\<lparr>next_pid := i\<rparr>) s'" by (rule process_create_step [OF assms])
  show "cpu s' = cpu s" "heap_start_addr s' = heap_start_addr s" "heap_end_addr s' = heap_end_addr s"
    "kernel_dir s' = kernel_dir s" "interrupts_on s' = interrupts_on s" "tss s' = tss s" "tick_count s' = tick_count s"
    "irq_handlers s' = irq_handlers s" "kthread_entry s' = kthread_entry s"
    "proc_iret_trampoline s' = proc_iret_trampoline s"
    using heap_step_fields [OF st] heap_step_proc_fields [OF st] by simp_all
qed

lemma process_create_frame:
  fixes s :: "'a proc_state_scheme"
  assumes "heap_rel s bs"
  shows "\<exists>p s'. process_create f s = Some (p, s') \<and>
    (if p = 0 then (\<forall>(n, u) \<in> set bs. u \<or> n < 8624) \<and> heap_inv s' \<and> heap_live s' = heap_live s \<and> next_pid s' = next_pid s
     else created (kernel_dir s) [0, 0, 0, 0, kthread_entry s, f] p s s')"
proof (cases rule: process_alloc_created [OF assms])
  case (1 s')
  then show ?thesis by (simp add: process_create_def)
next
  case (2 p s')
  note st = heap_step_fields(4) [OF 2(3)] heap_step_proc_fields [OF 2(3)]
  show ?thesis
    using 2(1,2) 2(4) [of "[f, kthread_entry s, 0, 0, 0, 0]" "kernel_dir s"]
    by (simp add: process_create_def Let_def vmm_get_kernel_dir_def st)
qed

lemma process_create_user_frame:
  fixes s :: "'a proc_state_scheme"
  assumes "heap_rel s bs"
  shows "\<exists>p s'. process_create_user e u dir s = Some (p, s') \<and>
    (if p = 0 then (\<forall>(n, u) \<in> set bs. u \<or> n < 8624) \<and> heap_inv s' \<and> heap_live s' = heap_live s \<and> next_pid s' = next_pid s
     else created dir [0, 0, 0, 0, proc_iret_trampoline s, e, 0x1B, 0x202, u, 0x23] p s s')"
proof (cases rule: process_alloc_created [OF assms])
  case (1 s')
  then show ?thesis by (simp add: process_create_user_def)
next
  case (2 p s')
  show ?thesis
    using 2(1,2) 2(4) [of "[0x23, u, 0x202, 0x1B, e, proc_iret_trampoline s, 0, 0, 0, 0]" dir]
      heap_step_proc_fields [OF 2(3)]
    by (simp add: process_create_user_def Let_def)
qed

section \<open>Properties\<close>

text \<open>
  C16. On a well-formed heap both creation functions return. They return NULL only when no free
  block has 8624 bytes, and then no block is lost. Otherwise the PCB and the kernel stack are two
  fresh blocks that do not overlap, no other block and no byte outside the heap changes, the PCB
  carries the next process number, the address space, state READY and an empty descriptor table,
  and the words waiting on its stack are those \<open>context_switch\<close> pops.
\<close>

theorem process_create_correct:
  fixes s :: "'a proc_state_scheme"
  assumes "heap_rel s bs"
  shows "\<exists>p s' p' s''. process_create f s = Some (p, s') \<and> process_create_user e u dir s = Some (p', s'') \<and>
    (if p = 0 then (\<forall>(n, u) \<in> set bs. u \<or> n < 8624) \<and> heap_inv s' \<and> heap_live s' = heap_live s
     else created (kernel_dir s) [0, 0, 0, 0, kthread_entry s, f] p s s') \<and>
    (if p' = 0 then (\<forall>(n, u) \<in> set bs. u \<or> n < 8624) \<and> heap_inv s'' \<and> heap_live s'' = heap_live s
     else created dir [0, 0, 0, 0, proc_iret_trampoline s, e, 0x1B, 0x202, u, 0x23] p' s s'')"
  using process_create_frame [OF assms, of f] process_create_user_frame [OF assms, of e u dir]
  by (auto split: if_splits)


text \<open>
  A 64 KB heap at 2 MB in an otherwise empty machine, for the examples.
\<close>

definition proc_boot :: proc_state where
  "proc_boot = heap_init 0x200000 0x10000
     \<lparr>ports = [], vga_buf = [], vga_col = 0, vga_row = 0, vga_color = 7, mem = (\<lambda>_. 0), bitmap = [],
      total_pages = 0, used_pages = 0, kernel_dir = 0x101000, identity_pt0 = 0, identity_pt1 = 0, cr0 = 0,
      cr3 = 0, tlb = (\<lambda>_. None), heap_head = 0, heap_start_addr = 0, heap_end_addr = 0, heap_used = 0,
      gdt = [], gdtr = \<lparr>ptr_limit = 0, ptr_base = 0\<rparr>, idt = [], idtr = \<lparr>ptr_limit = 0, ptr_base = 0\<rparr>,
      tss = tss_zero, task_register = 0, seg_cs = 0, seg_data = 0, irq_handlers = [], interrupts_on = False, gdt_addr = 0,
      idt_addr = 0, tss_addr = 0, isr_stub = (\<lambda>_. 0), irq_stub = (\<lambda>_. 0), tick_count = 0,
      ticks_per_second = 100, next_pid = 1, kthread_entry = 0x100400, proc_iret_trampoline = 0x100500,
      cpu = \<lparr>c_ebx = 1, c_esi = 2, c_edi = 3, c_ebp = 4, c_esp = 0x90000, c_eip = 0\<rparr>\<rparr>"

lemma proc_boot_facts:
  "heap_rel proc_boot [(65520, False)]" "heap_inv proc_boot" "heap_live proc_boot = {}"
  "heap_base proc_boot = 0x200000" "heap_top proc_boot = 0x210000"
  "cpu proc_boot = \<lparr>c_ebx = 1, c_esi = 2, c_edi = 3, c_ebp = 4, c_esp = 0x90000, c_eip = 0\<rparr>"
  "kernel_dir proc_boot = 0x101000" "kthread_entry proc_boot = 0x100400" "next_pid proc_boot = 1"
proof -
  note i = heap_init_rel [of "0x200000" "0x10000", simplified]
  show r: "heap_rel proc_boot [(65520, False)]" and b: "heap_base proc_boot = 0x200000" "heap_top proc_boot = 0x210000"
    by (simp_all add: proc_boot_def i)
  then show "heap_inv proc_boot" "heap_live proc_boot = {}"
    using heap_live_eq [OF r] by (auto simp: heap_inv_def)
  show "cpu proc_boot = \<lparr>c_ebx = 1, c_esi = 2, c_edi = 3, c_ebp = 4, c_esp = 0x90000, c_eip = 0\<rparr>"
    "kernel_dir proc_boot = 0x101000" "kthread_entry proc_boot = 0x100400" "next_pid proc_boot = 1"
    by (simp_all add: proc_boot_def heap_init_def Let_def)
qed

lemma proc_boot_create:
  "\<exists>p s'. process_create 0x123456 proc_boot = Some (p, s') \<and> p \<noteq> 0 \<and>
      created 0x101000 [0, 0, 0, 0, 0x100400, 0x123456] p proc_boot s'"
  using process_create_frame [OF proc_boot_facts(1), of "0x123456"] proc_boot_facts
  by (auto split: if_splits)

theorem process_create_correct_witness:
  "heap_rel proc_boot [(65520, False)] \<and>
   (\<exists>p s'. process_create 0x123456 proc_boot = Some (p, s') \<and> p \<noteq> 0 \<and>
      created 0x101000 [0, 0, 0, 0, 0x100400, 0x123456] p proc_boot s')"
  using process_create_correct [OF proc_boot_facts(1), of "0x123456" 0 0 0] proc_boot_facts
  by (auto split: if_splits)





text \<open>
  C18. A process that was switched away from resumes where it was. If process \<open>a\<close> switches to \<open>b\<close>, and
  until somebody switches back to \<open>a\<close> its saved stack pointer and the top of its stack are left
  alone, then after the switch back \<open>a\<close> has the registers it had, returns to the address its
  call to \<open>context_switch\<close> had pushed, and runs in the address space its PCB names.
\<close>

theorem context_switch_resumes:
  fixes s t :: "'a proc_state_scheme"
  assumes sw: "switchable a b s" and ret: "unat (c_esp (cpu s)) + 4 \<le> 2 ^ 32" "apart (unat (c_esp (cpu s))) 4 (unat a) 416"
    and bk: "switchable b' a t" and esp: "pget (mem t) a Esp = pget (mem (context_switch a b s)) a Esp"
    and keep: "\<And>x. unat (c_esp (cpu s)) - 16 \<le> unat x \<Longrightarrow> unat x < unat (c_esp (cpu s)) + 4 \<Longrightarrow>
      mem t x = mem (context_switch a b s) x"
  shows "cpu (context_switch b' a t) =
      (cpu s)\<lparr>c_esp := c_esp (cpu s) + 4, c_eip := load32 (mem s) (c_esp (cpu s))\<rparr> \<and>
    cr3 (context_switch b' a t) = pget (mem t) a Page_dir"
proof -
  let ?c = "cpu s" and ?s' = "context_switch a b s" and ?a = "unat (c_esp (cpu s))"
  note f = context_switch_effect [OF sw] and g = context_switch_effect [OF bk]
  have a16: "16 \<le> ?a" using sw by (simp add: switchable_def Let_def)
  have u: "unat (c_esp ?c - 16) = ?a - 16" using a16 by (subst unat_sub_le) (simp_all add: word_le_nat_alt)
  have "load32 (mem t) (of_nat (?a - 16 + 4 * i)) = load32 (mem ?s') (of_nat (?a - 16 + 4 * i))" if "i < 5" for i
  proof (rule load32_cong)
    have v: "unat (of_nat (?a - 16 + 4 * i) :: u32) = ?a - 16 + 4 * i"
      using that a16 ret(1) by (intro unat_of_nat32) simp
    show "unat (of_nat (?a - 16 + 4 * i) :: u32) + 4 \<le> 2 ^ 32" using v that a16 ret(1) by simp
    show "mem t x = mem ?s' x"
      if "unat (of_nat (?a - 16 + 4 * i) :: u32) \<le> unat x" "unat x < unat (of_nat (?a - 16 + 4 * i) :: u32) + 4" for x
      using that v \<open>i < 5\<close> a16 by (intro keep) auto
  qed
  moreover have "(of_nat (?a - 16 + 4 * i) :: u32) = c_esp ?c - 16 + of_nat (4 * i)" for i
    using a16 by (simp add: of_nat_diff)
  ultimately have w: "load32 (mem t) (c_esp ?c - 16 + of_nat (4 * i)) = load32 (mem ?s') (c_esp ?c - 16 + of_nat (4 * i))"
      and w4: "i < 4 \<Longrightarrow> load32 (mem ?s') (c_esp ?c - 16 + of_nat (4 * i)) = [c_ebx ?c, c_esi ?c, c_edi ?c, c_ebp ?c] ! i"
    if "i < 5" for i
    using that f(4) [of i] by simp_all
  have r: "load32 (mem ?s') (c_esp ?c) = load32 (mem s) (c_esp ?c)"
    by (rule load32_cong) (use ret f(5) in \<open>auto simp: apart_def\<close>)
  show ?thesis
    using g(1,2) esp f(3) w [of 0] w [of 1] w [of 2] w [of 3] w [of 4] w4 [of 0] w4 [of 1] w4 [of 2] w4 [of 3] r
    by (simp add: restored_def)
qed

text \<open>Two PCBs, at 512 KB and 516 KB, the second with a frame on its stack.\<close>

definition two_procs :: proc_state where
  "two_procs = proc_boot\<lparr>mem := pset 0x81000 Esp 0x85000 (mem proc_boot)\<rparr>"

theorem context_switch_resumes_witness:
  "\<exists>t :: proc_state. switchable 0x80000 0x81000 two_procs \<and> switchable 0x81000 0x80000 t \<and>
     cpu (context_switch 0x81000 0x80000 t) = (cpu two_procs)\<lparr>c_esp := 0x90004, c_eip := load32 (mem two_procs) 0x90000\<rparr>"
proof -
  have c: "cpu two_procs = \<lparr>c_ebx = 1, c_esi = 2, c_edi = 3, c_ebp = 4, c_esp = 0x90000, c_eip = 0\<rparr>"
    using proc_boot_facts by (simp add: two_procs_def)
  have sw: "switchable 0x80000 0x81000 two_procs"
    unfolding switchable_def c by (simp add: two_procs_def pget_pset_same apart_def)
  note f = context_switch_effect [OF sw]
  let ?t = "(context_switch 0x80000 0x81000 two_procs)\<lparr>cpu := (cpu two_procs)\<lparr>c_esp := 0x86000\<rparr>\<rparr>"
  have e: "pget (mem ?t) 0x80000 Esp = 0x8FFF0" using f(3) c by simp
  have bk: "switchable 0x81000 0x80000 ?t"
    unfolding switchable_def e by (simp add: c apart_def)
  have "cpu (context_switch 0x81000 0x80000 ?t) =
      (cpu two_procs)\<lparr>c_esp := c_esp (cpu two_procs) + 4, c_eip := load32 (mem two_procs) (c_esp (cpu two_procs))\<rparr>"
    using context_switch_resumes [OF sw _ _ bk] c by (simp add: apart_def)
  then show ?thesis using sw bk c by (intro exI [of _ ?t] conjI) simp_all
qed

text \<open>
  Destroying a process gives back both its blocks: after a successful creation, \<open>process_destroy\<close>
  leaves exactly the blocks that were in use before, with their contents.
\<close>

theorem process_destroy_releases:
  fixes s :: "'a proc_state_scheme"
  assumes inv: "heap_inv s" and cr: "process_create f s = Some (p, s')" and nz: "p \<noteq> 0"
  shows "heap_inv (process_destroy p s') \<and> heap_live (process_destroy p s') = heap_live s \<and>
    keeps_blocks (heap_live s) (mem s) (mem (process_destroy p s'))"
proof -
  obtain bs where rel: "heap_rel s bs" using inv by (auto simp: heap_inv_def)
  have "created (kernel_dir s) [0, 0, 0, 0, kthread_entry s, f] p s s'"
    using process_create_frame [OF rel, of f] cr nz by simp
  then obtain n k ks where c: "heap_inv s'" "heap_live s' = insert (unat p, n) (insert (unat ks, k) (heap_live s))"
      "(unat p, n) \<notin> heap_live s" "(unat ks, k) \<notin> heap_live s" "416 \<le> n" "8192 \<le> k" "apart (unat p) n (unat ks) k"
      "mem_frame (heap_base s) (heap_top s) (heap_live s) (mem s) (mem s')" "pget (mem s') p Kernel_stack = ks"
    by (auto simp: created_def process_ready_def)
  have lk: "(unat ks, k) \<in> heap_live s'" using c(2) by simp
  have ks0: "ks \<noteq> 0" using heap_block_fits(2) [OF c(1) lk c(6)] .
  note f1 = kfree_live [OF c(1) lk]
  have ne: "(unat p, n) \<noteq> (unat ks, k)" using c(5,6,7) by (auto simp: apart_def)
  then have l1: "(unat p, n) \<in> heap_live (kfree ks s')" using f1(2) c(2) by simp
  note f2 = kfree_live [OF f1(1) l1]
  have pd: "process_destroy p s' = kfree p (kfree ks s')"
    using nz ks0 c(9) by (simp add: process_destroy_def Let_def)
  have live: "heap_live (kfree p (kfree ks s')) = heap_live s" using f1(2) f2(2) c(2-4) ne by auto
  have sub: "heap_live s \<subseteq> heap_live s' - {(unat ks, k)}" "heap_live s \<subseteq> heap_live (kfree ks s') - {(unat p, n)}"
    using f1(2) c(2-4) ne by auto
  have "keeps_blocks (heap_live s) (mem s) (mem (kfree p (kfree ks s')))"
    using keeps_blocks_trans [OF keeps_blocks_trans [OF mem_frame_keeps [OF c(8)]
      mem_frame_keeps [OF mem_frame_mono [OF f1(3) sub(1)]]] mem_frame_keeps [OF mem_frame_mono [OF f2(3) sub(2)]]] .
  then show ?thesis using f2(1) live pd by simp
qed

theorem process_destroy_releases_witness:
  "\<exists>p s'. process_create 0x123456 proc_boot = Some (p, s') \<and> p \<noteq> 0 \<and> heap_live (process_destroy p s') = {}"
  using process_destroy_releases [OF proc_boot_facts(2)] proc_boot_create proc_boot_facts(3) by metis

end
