(* ===== verification/Scheduler.thy ===== *)
theory Scheduler
  imports Process
begin

text \<open>
  The round-robin scheduler (kernel/proc/scheduler.c). The run queue is a ring of PCBs linked by
  their \<open>next\<close> fields; \<open>ring\<close> relates it to the list of its members from \<open>run_queue\<close> on, and the
  queue operations are shown to act on that list.
\<close>

record sched_state = proc_state +
  current :: u32
  run_queue :: u32
  idle_fn :: u32

section \<open>The source, function by function\<close>

definition scheduler_add :: "u32 \<Rightarrow> 'a sched_state_scheme \<Rightarrow> 'a sched_state_scheme" where
  "scheduler_add p s =
     (if p = 0 then s
      else let s1 = upd_mem (pset p State PROC_READY) s in
        if run_queue s1 = 0 then upd_mem (pset p Next p) (s1\<lparr>run_queue := p\<rparr>)
        else let s2 = upd_mem (pset p Next (pget (mem s1) (run_queue s1) Next)) s1
             in upd_mem (pset (run_queue s2) Next p) s2)"

text \<open>The search for the predecessor; it need not end when the queue is not a ring.\<close>

partial_function (option) sched_prev :: "mem \<Rightarrow> u32 \<Rightarrow> u32 \<Rightarrow> u32 \<Rightarrow> u32 option" where
  "sched_prev m p q prev =
     (if pget m prev Next \<noteq> p \<and> pget m prev Next \<noteq> q then sched_prev m p q (pget m prev Next)
      else Some prev)"

definition scheduler_remove :: "u32 \<Rightarrow> 'a sched_state_scheme \<Rightarrow> 'a sched_state_scheme option" where
  "scheduler_remove p s =
     (if p = 0 \<or> run_queue s = 0 then Some s
      else case sched_prev (mem s) p (run_queue s) (run_queue s) of
        None \<Rightarrow> None
      | Some prev \<Rightarrow>
          if pget (mem s) prev Next \<noteq> p then Some s
          else let s1 = (if pget (mem s) p Next = p then s\<lparr>run_queue := 0\<rparr>
                 else let s2 = upd_mem (pset prev Next (pget (mem s) p Next)) s
                      in if run_queue s2 = p then s2\<lparr>run_queue := pget (mem s2) p Next\<rparr> else s2)
               in Some (upd_mem (pset p Next 0) s1))"

definition scheduler_current :: "'a sched_state_scheme \<Rightarrow> u32" where
  "scheduler_current s = current s"

text \<open>\<open>None\<close> is the halt after a failed allocation.\<close>

definition scheduler_init :: "'a sched_state_scheme \<Rightarrow> 'a sched_state_scheme option" where
  "scheduler_init s =
     (case process_create (idle_fn s) s of
        None \<Rightarrow> None
      | Some (idle, s1) \<Rightarrow>
          if idle = 0 then None
          else let s2 = scheduler_add idle (upd_mem (pset idle Pid 0) s1);
                   s3 = s2\<lparr>current := idle\<rparr>;
                   s4 = upd_mem (pset (current s3) State PROC_RUNNING) s3
               in Some (kprintf ''[SCHED] Scheduler initialised (idle PID 0)\<newline>'' [] s4))"

text \<open>The search of \<open>scheduler_tick\<close>: \<open>n\<close> steps are left.\<close>

primrec sched_search :: "nat \<Rightarrow> u32 \<Rightarrow> mem \<Rightarrow> u32 \<Rightarrow> u32" where
  "sched_search 0 cur m nxt = nxt"
| "sched_search (Suc n) cur m nxt =
     (if pget m nxt State \<noteq> PROC_READY \<and> nxt \<noteq> cur then sched_search n cur m (pget m nxt Next) else nxt)"

text \<open>\<open>Inl\<close> is a return without a switch; with \<open>Inr\<close> the processor runs the next process.\<close>

definition scheduler_tick :: "'a sched_state_scheme \<Rightarrow> 'a sched_state_scheme + 'a sched_state_scheme" where
  "scheduler_tick s0 =
     (let s = timer_tick s0 in
      if run_queue s = 0 \<or> current s = 0 then Inl s
      else let next = sched_search 64 (current s) (mem s) (pget (mem s) (current s) Next) in
        if next = current s then Inl s
        else if pget (mem s) next State \<noteq> PROC_READY then Inl s
        else let s1 = (if pget (mem s) (current s) State = PROC_RUNNING
                       then upd_mem (pset (current s) State PROC_READY) s else s);
                 s2 = upd_mem (pset next State PROC_RUNNING) s1;
                 prev = current s2;
                 s3 = s2\<lparr>current := next\<rparr>;
                 s4 = tss_set_kernel_stack (pget (mem s3) (current s3) Kernel_stack_top) s3
             in Inr (context_switch prev (current s4) s4))"

section \<open>Rings of processes\<close>

definition pcbs_ok :: "u32 list \<Rightarrow> bool" where
  "pcbs_ok ps \<longleftrightarrow> distinct ps \<and> (\<forall>p \<in> set ps. p \<noteq> 0 \<and> unat p + 416 \<le> 2 ^ 32) \<and>
     (\<forall>p \<in> set ps. \<forall>q \<in> set ps. p \<noteq> q \<longrightarrow> apart (unat p) 416 (unat q) 416)"

text \<open>The \<open>next\<close> fields along the list, the last one pointing to \<open>e\<close>.\<close>

fun links :: "mem \<Rightarrow> u32 list \<Rightarrow> u32 \<Rightarrow> bool" where
  "links m [] e = True"
| "links m [p] e = (pget m p Next = e)"
| "links m (p # q # ps) e = (pget m p Next = q \<and> links m (q # ps) e)"

definition ring :: "mem \<Rightarrow> u32 list \<Rightarrow> bool" where
  "ring m ps \<longleftrightarrow> ps \<noteq> [] \<and> pcbs_ok ps \<and> links m ps (hd ps)"

lemma links_append:
  "ys \<noteq> [] \<Longrightarrow> links m (xs @ ys) e \<longleftrightarrow> links m xs (hd ys) \<and> links m ys e"
proof (induction xs)
  case (Cons x xs)
  then show ?case by (cases xs; cases ys) auto
qed simp

lemma links_Cons: "links m (p # ps) e \<longleftrightarrow> pget m p Next = (if ps = [] then e else hd ps) \<and> links m ps e"
  by (cases ps) auto

lemma pcbs_ok_perm: "pcbs_ok ps \<Longrightarrow> set qs \<subseteq> set ps \<Longrightarrow> distinct qs \<Longrightarrow> pcbs_ok qs"
  unfolding pcbs_ok_def by blast

lemma ring_rotate: "ring m (xs @ ys) \<Longrightarrow> ring m (ys @ xs)"
proof (cases "xs = [] \<or> ys = []")
  case False
  assume r: "ring m (xs @ ys)"
  then have "links m xs (hd ys)" "links m ys (hd xs)"
    using False by (auto simp: ring_def links_append)
  moreover have "pcbs_ok (ys @ xs)" using r by (auto simp: ring_def pcbs_ok_def)
  ultimately show ?thesis using False by (simp add: ring_def links_append)
qed auto

lemma pget_pset_ok:
  assumes "pcbs_ok ps" and "p \<in> set ps" and "q \<in> set ps"
  shows "pget (pset p f v m) q g = (if p = q \<and> f = g then v else pget m q g)"
proof (cases "p = q")
  case True
  then show ?thesis using assms by (simp add: pcbs_ok_def pget_pset_same)
next
  case False
  then have "apart (unat p) 416 (unat q) 416" using assms by (simp add: pcbs_ok_def)
  then show ?thesis using assms False by (simp add: pcbs_ok_def pget_pset_other apart_def)
qed

lemma links_cong: "(\<And>p. p \<in> set ps \<Longrightarrow> pget m' p Next = pget m p Next) \<Longrightarrow> links m' ps e = links m ps e"
  by (induction m ps e rule: links.induct) auto

lemma links_pset:
  assumes "pcbs_ok ps" and "p \<in> set ps" and "set qs \<subseteq> set ps" and "f \<noteq> Next \<or> p \<notin> set qs"
  shows "links (pset p f v m) qs e = links m qs e"
  by (rule links_cong) (use assms in \<open>auto simp: pget_pset_ok\<close>)

lemma ring_state [simp]:
  assumes "ring m ps" and "p \<in> set ps" and "f \<noteq> Next"
  shows "ring (pset p f v m) ps"
  using assms links_pset [of ps p ps f] by (simp add: ring_def)

section \<open>The queue operations on the list\<close>

lemma ring_unlink:
  assumes r: "ring m (us @ prev # p # vs)"
  shows "ring (pset p Next v (pset prev Next (pget m p Next) m)) (us @ prev # vs)"
proof -
  let ?ps = "us @ prev # p # vs" and ?m = "pset prev Next (pget m p Next) m"
  have ok: "pcbs_ok ?ps" and l: "links m ?ps (hd ?ps)" using r by (auto simp: ring_def)
  have d: "p \<notin> set (us @ prev # vs)" "prev \<notin> set us" "prev \<notin> set vs" "p \<noteq> prev" "pcbs_ok (us @ prev # vs)"
    using ok by (auto simp: pcbs_ok_def)
  have hd: "hd (us @ prev # vs) = hd ?ps" by (cases us) auto
  have np: "pget m p Next = hd (vs @ [hd ?ps])" "links m us prev" "links m vs (hd ?ps)"
    using l by (auto simp: links_append links_Cons split: if_splits)
  have "links (pset p Next v ?m) us prev"
    using np(2) ok d by (simp add: links_pset [OF ok] subset_iff)
  moreover have "links (pset p Next v ?m) vs (hd ?ps)"
    using np(3) ok d by (simp add: links_pset [OF ok] subset_iff)
  moreover have "pget (pset p Next v ?m) prev Next = hd (vs @ [hd ?ps])"
    using np(1) d by (simp add: pget_pset_ok [OF ok])
  ultimately have "links (pset p Next v ?m) (us @ prev # vs) (hd ?ps)"
    by (simp add: links_append links_Cons hd_append)
  then show ?thesis using d hd by (simp add: ring_def)
qed

lemma ring_link:
  assumes r: "ring m (q # qs)" and ok: "pcbs_ok (p # q # qs)"
  shows "ring (pset q Next p (pset p Next (pget m q Next) m)) (q # p # qs)"
proof -
  let ?m = "pset q Next p (pset p Next (pget m q Next) m)"
  have l: "links m (q # qs) q" using r by (simp add: ring_def)
  have d: "p \<noteq> q" "p \<notin> set qs" "q \<notin> set qs" "pcbs_ok (q # p # qs)" using ok by (auto simp: pcbs_ok_def)
  have "links ?m qs q" using l ok d by (simp add: links_Cons links_pset [OF ok] subset_iff)
  moreover have "pget ?m p Next = pget m q Next" "pget ?m q Next = p"
    using d by (simp_all add: pget_pset_ok [OF ok])
  ultimately have "links ?m (q # p # qs) q" using l by (simp add: links_Cons)
  then show ?thesis using d by (simp add: ring_def)
qed

lemma links_last: "links m ps e \<Longrightarrow> ps \<noteq> [] \<Longrightarrow> pget m (last ps) Next = e"
  by (induction m ps e rule: links.induct) auto

lemma sched_prev_links:
  "links m (x # xs) q \<Longrightarrow> q \<notin> set xs \<Longrightarrow> sched_prev m p q x = Some (last (x # takeWhile (\<lambda>y. y \<noteq> p) xs))"
proof (induction xs arbitrary: x)
  case Nil
  then show ?case by (subst sched_prev.simps) simp
next
  case (Cons y ys)
  then show ?case by (subst sched_prev.simps) auto
qed

text \<open>\<open>queue s ps\<close>: the run queue holds the processes \<open>ps\<close>, in ring order from \<open>run_queue\<close> on.\<close>

definition queue :: "'a sched_state_scheme \<Rightarrow> u32 list \<Rightarrow> bool" where
  "queue s ps \<longleftrightarrow> (if ps = [] then run_queue s = 0 else run_queue s = hd ps \<and> ring (mem s) ps)"

fun insert_second :: "'a \<Rightarrow> 'a list \<Rightarrow> 'a list" where
  "insert_second p [] = [p]"
| "insert_second p (q # qs) = q # p # qs"

lemma scheduler_add_queue:
  fixes s :: "'a sched_state_scheme"
  assumes "queue s ps" and ok: "pcbs_ok (p # ps)"
  shows "queue (scheduler_add p s) (insert_second p ps)"
    and "pget (mem (scheduler_add p s)) p State = PROC_READY"
    and "q \<in> set ps \<Longrightarrow> f \<noteq> Next \<Longrightarrow> pget (mem (scheduler_add p s)) q f = pget (mem s) q f"
    and "current (scheduler_add p s) = current s"
proof -
  have p: "p \<noteq> 0" "unat p + 416 \<le> 2 ^ 32" using ok by (auto simp: pcbs_ok_def)
  have nz: "hd ps \<noteq> 0" if "ps \<noteq> []" using ok that by (cases ps) (auto simp: pcbs_ok_def)
  show "queue (scheduler_add p s) (insert_second p ps)"
  proof (cases ps)
    case Nil
    then show ?thesis using assms(1) p ok
      by (simp add: queue_def scheduler_add_def Let_def ring_def pcbs_ok_def pget_pset_same)
  next
    case (Cons h t)
    then have r: "ring (mem s) (h # t)" "run_queue s = h" "h \<noteq> 0" using assms(1) nz by (auto simp: queue_def)
    have ok': "pcbs_ok (p # h # t)" using ok Cons by simp
    have "links (pset p State PROC_READY (mem s)) (h # t) h"
      using r(1) ok' by (simp add: links_pset [OF ok'] ring_def subset_iff)
    then have "ring (pset p State PROC_READY (mem s)) (h # t)" using r(1) by (simp add: ring_def)
    then show ?thesis using ring_link [OF _ ok'] r p Cons by (simp add: queue_def scheduler_add_def Let_def)
  qed
  show "pget (mem (scheduler_add p s)) p State = PROC_READY"
  proof (cases "run_queue s = 0")
    case False
    then have "ps \<noteq> []" "run_queue s = hd ps" using assms(1) by (auto simp: queue_def split: if_splits)
    then have "run_queue s \<in> set (p # ps)" by simp
    then show ?thesis using p False by (simp add: scheduler_add_def Let_def pget_pset_ok [OF ok])
  qed (use p in \<open>simp add: scheduler_add_def Let_def pget_pset_same\<close>)
  show "pget (mem (scheduler_add p s)) q f = pget (mem s) q f" if "q \<in> set ps" "f \<noteq> Next"
  proof -
    have "ps \<noteq> []" using that by auto
    then have "run_queue s \<in> set (p # ps)" "p \<noteq> q" using assms(1) that ok by (auto simp: queue_def pcbs_ok_def)
    then show ?thesis using p that by (simp add: scheduler_add_def Let_def pget_pset_ok [OF ok])
  qed
  show "current (scheduler_add p s) = current s" by (simp add: scheduler_add_def Let_def)
qed

lemma remove1_middle: "p \<notin> set us \<Longrightarrow> remove1 p (us @ p # vs) = us @ vs"
  by (simp add: remove1_append)

lemma sched_prev_ring:
  assumes "ring m (x # xs)"
  shows "sched_prev m p x x = Some (last (x # takeWhile (\<lambda>y. y \<noteq> p) xs))"
  using assms by (intro sched_prev_links) (auto simp: ring_def pcbs_ok_def)

text \<open>The process is not in the queue; it is the head; it is further down.\<close>

lemma scheduler_remove_absent:
  assumes r: "ring (mem s) (x # xs)" and rq: "run_queue s = x" and p: "p \<noteq> 0" "p \<notin> set (x # xs)"
  shows "scheduler_remove p s = Some s"
proof -
  have "takeWhile (\<lambda>y. y \<noteq> p) xs = xs" using p(2) by auto
  then have sp: "sched_prev (mem s) p x x = Some (last (x # xs))" using sched_prev_ring [OF r, of p] by (simp only:)
  have "pget (mem s) (last (x # xs)) Next = x" by (rule links_last) (use r in \<open>auto simp: ring_def\<close>)
  moreover have "x \<noteq> p" using p by auto
  ultimately show ?thesis using sp p rq by (simp add: scheduler_remove_def)
qed

lemma scheduler_remove_head:
  fixes s :: "'a sched_state_scheme"
  assumes r: "ring (mem s) (p # us @ [v])" and rq: "run_queue s = p"
  shows "scheduler_remove p s = Some (s\<lparr>mem := pset p Next 0 (pset v Next (pget (mem s) p Next) (mem s)),
      run_queue := hd (us @ [v])\<rparr>)"
    and "ring (pset p Next 0 (pset v Next (pget (mem s) p Next) (mem s))) (us @ [v])"
proof -
  have ok: "pcbs_ok (p # us @ [v])" using r by (simp add: ring_def)
  have d: "p \<noteq> 0" "p \<notin> set (us @ [v])" using ok by (auto simp: pcbs_ok_def)
  have tw: "takeWhile (\<lambda>y. y \<noteq> p) (us @ [v]) = us @ [v]" using d by (auto simp: takeWhile_eq_all_conv)
  have r': "ring (mem s) (us @ v # p # [])" using ring_rotate [of "mem s" "[p]" "us @ [v]"] r by simp
  have vn: "pget (mem s) v Next = p" using r' by (simp add: ring_def links_append links_Cons)
  have pn: "pget (mem s) p Next = hd (us @ [v])" using r by (simp add: ring_def links_Cons)
  have ne: "hd (us @ [v]) \<noteq> p" "v \<noteq> p" using d by (cases us; auto)+
  have "pget (pset v Next (hd (us @ [v])) (mem s)) p Next = hd (us @ [v])"
    using ne pn by (simp add: pget_pset_ok [OF ok])
  then show "scheduler_remove p s = Some (s\<lparr>mem := pset p Next 0 (pset v Next (pget (mem s) p Next) (mem s)),
      run_queue := hd (us @ [v])\<rparr>)"
    using sched_prev_ring [OF r, of p] tw vn pn ne rq d by (simp add: scheduler_remove_def Let_def)
  show "ring (pset p Next 0 (pset v Next (pget (mem s) p Next) (mem s))) (us @ [v])"
    using ring_unlink [OF r', of 0] by simp
qed

lemma scheduler_remove_inner:
  fixes s :: "'a sched_state_scheme"
  assumes r: "ring (mem s) (x # us @ p # vs)" and rq: "run_queue s = x"
  shows "\<exists>s'. scheduler_remove p s = Some s' \<and> ring (mem s') (x # us @ vs) \<and> run_queue s' = x \<and>
    current s' = current s \<and> pget (mem s') p Next = 0"
proof -
  have ok: "pcbs_ok (x # us @ p # vs)" and l: "links (mem s) (x # us @ p # vs) x" using r by (auto simp: ring_def)
  have d: "p \<noteq> x" "x \<noteq> 0" "p \<noteq> 0" "p \<notin> set us" "p \<notin> set vs" "unat p + 416 \<le> 2 ^ 32" using ok by (auto simp: pcbs_ok_def)
  obtain ws v where ws: "x # us = ws @ [v]" using rev_exhaust by blast
  have eq: "x # us @ zs = ws @ v # zs" for zs using ws by (metis append.assoc append_Cons append_Nil)
  have r': "ring (mem s) (ws @ v # p # vs)" using r eq by simp
  have vn: "pget (mem s) v Next = p" using r' by (simp add: ring_def links_append links_Cons)
  have "takeWhile (\<lambda>y. y \<noteq> p) (us @ p # vs) = us" using d by (subst takeWhile_append2) auto
  then have sp: "sched_prev (mem s) p x x = Some v" using sched_prev_ring [OF r, of p] ws by simp
  have "pget (mem s) p Next = (if vs = [] then x else hd vs)"
    using l links_append [of "p # vs" "mem s" "x # us" x] by (simp add: links_Cons)
  then have "pget (mem s) p Next \<noteq> p" using d hd_in_set [of vs] by auto
  then have "scheduler_remove p s = Some (s\<lparr>mem := pset p Next 0 (pset v Next (pget (mem s) p Next) (mem s))\<rparr>)"
    using sp vn rq d by (simp add: scheduler_remove_def Let_def)
  moreover have "ring (pset p Next 0 (pset v Next (pget (mem s) p Next) (mem s))) (x # us @ vs)"
    using ring_unlink [OF r', of 0] by (simp only: eq)
  ultimately show ?thesis using rq d by (simp add: pget_pset_same)
qed

lemma scheduler_remove_queue:
  fixes s :: "'a sched_state_scheme"
  assumes q: "queue s ps" and p: "p \<noteq> 0"
  shows "\<exists>s'. scheduler_remove p s = Some s' \<and> queue s' (remove1 p ps) \<and> current s' = current s \<and>
    (p \<in> set ps \<longrightarrow> pget (mem s') p Next = 0)"
proof (cases ps)
  case Nil
  then show ?thesis using q by (simp add: queue_def scheduler_remove_def)
next
  case (Cons x xs)
  have r: "ring (mem s) (x # xs)" and rq: "run_queue s = x" using q Cons by (auto simp: queue_def)
  have b: "unat p + 416 \<le> 2 ^ 32" if "p \<in> set (x # xs)" using r that unfolding ring_def pcbs_ok_def by blast
  consider "p \<notin> set (x # xs)" | "p = x" "xs = []" | us v where "p = x" "xs = us @ [v]" | us vs where "xs = us @ p # vs" "p \<noteq> x"
    by (metis append_butlast_last_id set_ConsD split_list)
  then show ?thesis
  proof cases
    case 1
    then show ?thesis using scheduler_remove_absent [OF r rq p] q Cons by (simp add: remove1_idem)
  next
    case 2
    then have "pget (mem s) p Next = p" using r by (simp add: ring_def)
    then have "scheduler_remove p s = Some (upd_mem (pset p Next 0) (s\<lparr>run_queue := 0\<rparr>))"
      using 2 sched_prev_ring [OF r, of p] p rq by (simp add: scheduler_remove_def)
    then show ?thesis using 2 Cons b by (simp add: queue_def pget_pset_same)
  next
    case (3 us v)
    note h = scheduler_remove_head [of s p us v]
    show ?thesis using h r rq 3 Cons b by (simp add: queue_def pget_pset_same)
  next
    case (4 us vs)
    then have "p \<notin> set us" using r by (auto simp: ring_def pcbs_ok_def)
    then have "remove1 p ps = x # us @ vs" using Cons 4 by (simp add: remove1_middle)
    then show ?thesis using scheduler_remove_inner [of s x us p vs] r rq 4 by (auto simp: queue_def)
  qed
qed

section \<open>One tick\<close>

abbreviation ready :: "mem \<Rightarrow> u32 \<Rightarrow> bool" where
  "ready m p \<equiv> pget m p State = PROC_READY"

lemma sched_search_find:
  assumes "links m os c" and "os \<noteq> []" and "c \<notin> set os"
  shows "case find (ready m) (take (Suc n) os) of
      Some q \<Rightarrow> sched_search n c m (hd os) = q
    | None \<Rightarrow> sched_search n c m (hd os) = c \<or> \<not> ready m (sched_search n c m (hd os))"
  using assms
proof (induction n arbitrary: os)
  case 0
  then show ?case by (cases os) auto
next
  case (Suc n)
  obtain y ys where os: "os = y # ys" using Suc.prems(2) by (cases os) auto
  show ?case
  proof (cases "ready m y")
    case True
    then show ?thesis using os by simp
  next
    case False
    have y: "y \<noteq> c" "pget m y Next = (if ys = [] then c else hd ys)" "links m ys c"
      using Suc.prems os by (auto simp: links_Cons)
    have e: "sched_search (Suc n) c m (hd os) = sched_search n c m (if ys = [] then c else hd ys)"
      using False y os by simp
    have cc: "sched_search n c m c = c" by (cases n) simp_all
    show ?thesis
    proof (cases "ys = []")
      case True
      then show ?thesis using e cc False os by simp
    next
      case ne: False
      then show ?thesis unfolding e using Suc.IH [of ys] y False os Suc.prems(3) by simp
    qed
  qed
qed

text \<open>What \<open>scheduler_tick\<close> does to the state before it switches from \<open>c\<close> to \<open>q\<close>.\<close>

definition hand_over :: "u32 \<Rightarrow> u32 \<Rightarrow> 'a sched_state_scheme \<Rightarrow> 'a sched_state_scheme" where
  "hand_over c q s =
     (let m1 = (if pget (mem s) c State = PROC_RUNNING then pset c State PROC_READY (mem s) else mem s);
          m2 = pset q State PROC_RUNNING m1
      in s\<lparr>tick_count := tick_count s + 1, mem := m2, current := q,
           tss := (tss s)\<lparr>tss_esp0 := pget m2 q Kernel_stack_top\<rparr>\<rparr>)"

lemma scheduler_tick_next:
  fixes s :: "'a sched_state_scheme"
  assumes r: "ring (mem s) (c # os)" and c: "current s = c" and rq: "run_queue s \<noteq> 0"
  shows "scheduler_tick s = (case find (ready (mem s)) (take 65 os) of
      None \<Rightarrow> Inl (timer_tick s) | Some q \<Rightarrow> Inr (context_switch c q (hand_over c q s)))"
proof -
  let ?n = "sched_search 64 c (mem s) (pget (mem s) c Next)"
  have nz: "c \<noteq> 0" "c \<notin> set os" and l: "links (mem s) (c # os) c" using r by (auto simp: ring_def pcbs_ok_def)
  have t: "mem (timer_tick s) = mem s" "current (timer_tick s) = c" "run_queue (timer_tick s) = run_queue s"
    using c by (simp_all add: timer_tick_def)
  show ?thesis
  proof (cases "os = []")
    case True
    then have "?n = c" using l by (simp add: eval_nat_numeral)
    then show ?thesis using True t nz rq by (simp add: scheduler_tick_def Let_def)
  next
    case False
    have nx: "pget (mem s) c Next = hd os" "links (mem s) os c" using l False by (auto simp: links_Cons)
    note f = sched_search_find [OF nx(2) False nz(2), of 64]
    show ?thesis
    proof (cases "find (ready (mem s)) (take 65 os)")
      case None
      then have "?n = c \<or> \<not> ready (mem s) ?n" using f nx(1) by simp
      then show ?thesis using None t nz rq by (auto simp: scheduler_tick_def Let_def)
    next
      case (Some q)
      then have n: "?n = q" using f nx(1) by simp
      have q: "ready (mem s) q" "q \<in> set os"
        using Some by (auto simp: find_Some_iff dest!: in_set_takeD [OF nth_mem, rotated])
      then have "q \<noteq> c" using nz(2) by auto
      then show ?thesis using Some t nz rq n q
        by (simp add: scheduler_tick_def hand_over_def Let_def timer_tick_def tss_set_kernel_stack_def c)
    qed
  qed
qed

text \<open>The registers that \<open>context_switch\<close> saves do not land in a PCB.\<close>

definition stack_clear :: "u32 list \<Rightarrow> 'a proc_state_scheme \<Rightarrow> bool" where
  "stack_clear ps s \<longleftrightarrow> 16 \<le> unat (c_esp (cpu s)) \<and> (\<forall>p \<in> set ps. apart (unat (c_esp (cpu s)) - 16) 16 (unat p) 416)"

lemma context_switch_mem:
  fixes s :: "'a proc_state_scheme"
  assumes "16 \<le> unat (c_esp (cpu s))"
  obtains sp m where "mem (context_switch c q s) = pset c Esp sp m"
    "\<And>x. unat x < unat (c_esp (cpu s)) - 16 \<or> unat (c_esp (cpu s)) \<le> unat x \<Longrightarrow> m x = mem s x"
proof -
  let ?c = "cpu s" and ?a = "unat (c_esp (cpu s))"
  let ?ws = "[c_ebp ?c, c_edi ?c, c_esi ?c, c_ebx ?c]"
  obtain sp m where fp: "fold push ?ws (c_esp ?c, mem s) = (sp, m)" by fastforce
  have "(of_nat ?a :: u32) = c_esp ?c" by simp
  then have "fold push ?ws (of_nat ?a, mem s) = (sp, m)" using fp by (simp only:)
  moreover have "4 * length ?ws \<le> ?a" "?a \<le> 2 ^ 32" using assms unat_bound32 [of "c_esp ?c"] by simp_all
  ultimately have off: "\<forall>x. unat x < ?a - 4 * length ?ws \<or> ?a \<le> unat x \<longrightarrow> m x = mem s x"
    using fold_push by blast
  have "mem (context_switch c q s) = pset c Esp sp m"
    using fp by (simp add: context_switch_def Let_def write_cr3_def)
  then show thesis by (rule that) (use off in auto)
qed

lemma context_switch_pget:
  fixes s :: "'a proc_state_scheme"
  assumes ok: "pcbs_ok ps" and c: "c \<in> set ps" and p: "p \<in> set ps" and cl: "stack_clear ps s" and f: "p \<noteq> c \<or> f \<noteq> Esp"
  shows "pget (mem (context_switch c q s)) p f = pget (mem s) p f"
proof -
  obtain sp m where m: "mem (context_switch c q s) = pset c Esp sp m"
      "\<And>x. unat x < unat (c_esp (cpu s)) - 16 \<or> unat (c_esp (cpu s)) \<le> unat x \<Longrightarrow> m x = mem s x"
    using cl context_switch_mem [of s c q] by (auto simp: stack_clear_def)
  have "pget m p f = pget (mem s) p f"
    using p cl ok by (intro pget_cong m(2)) (auto simp: stack_clear_def apart_def pcbs_ok_def)
  then show ?thesis using m(1) pget_pset_ok [OF ok c p] f by auto
qed

lemma context_switch_fields [simp]:
  "current (context_switch c q s) = current s" "run_queue (context_switch c q s) = run_queue s"
  "tick_count (context_switch c q s) = tick_count s" "tss (context_switch c q s) = tss s"
  by (simp_all add: context_switch_def Let_def write_cr3_def split: prod.splits)

lemma hand_over_fields [simp]:
  "current (hand_over c q s) = q" "run_queue (hand_over c q s) = run_queue s" "cpu (hand_over c q s) = cpu s"
  "tick_count (hand_over c q s) = tick_count s + 1" "stack_clear ps (hand_over c q s) = stack_clear ps s"
  by (simp_all add: hand_over_def Let_def stack_clear_def)

lemma hand_over_pget:
  assumes "pcbs_ok ps" and "c \<in> set ps" and "q \<in> set ps" and "p \<in> set ps" and "q \<noteq> c"
  shows "pget (mem (hand_over c q s)) p f =
    (if f = State \<and> p = q then PROC_RUNNING
     else if f = State \<and> p = c \<and> pget (mem s) c State = PROC_RUNNING then PROC_READY
     else pget (mem s) p f)"
  using assms by (auto simp: hand_over_def Let_def pget_pset_ok [OF assms(1)])

lemma tss_hand_over:
  assumes "pcbs_ok ps" and "c \<in> set ps" and "q \<in> set ps"
  shows "tss_esp0 (tss (hand_over c q s)) = pget (mem s) q Kernel_stack_top"
  using assms by (simp add: hand_over_def Let_def pget_pset_ok [OF assms(1)])

text \<open>The state after a tick, whether or not it switched.\<close>

definition tick_state :: "'a sched_state_scheme \<Rightarrow> 'a sched_state_scheme" where
  "tick_state s = (case scheduler_tick s of Inl t \<Rightarrow> t | Inr t \<Rightarrow> t)"

lemma tick_to:
  fixes s :: "'a sched_state_scheme"
  assumes r: "ring (mem s) (c # os)" and c: "current s = c" and rq: "run_queue s \<noteq> 0" and cl: "stack_clear (c # os) s"
    and q: "find (ready (mem s)) (take 65 os) = Some q"
  shows "scheduler_tick s = Inr (tick_state s)"
    and "current (tick_state s) = q" "run_queue (tick_state s) = run_queue s"
      "tick_count (tick_state s) = tick_count s + 1"
      "tss_esp0 (tss (tick_state s)) = pget (mem s) q Kernel_stack_top"
    and "ring (mem (tick_state s)) (c # os)"
    and "p \<in> set (c # os) \<Longrightarrow> p \<noteq> c \<or> f \<noteq> Esp \<Longrightarrow> pget (mem (tick_state s)) p f =
      (if f = State \<and> p = q then PROC_RUNNING
       else if f = State \<and> p = c \<and> pget (mem s) c State = PROC_RUNNING then PROC_READY
       else pget (mem s) p f)"
proof -
  have ok: "pcbs_ok (c # os)" using r by (simp add: ring_def)
  have qs: "q \<in> set (c # os)" "q \<noteq> c"
    using q ok by (auto simp: find_Some_iff pcbs_ok_def dest!: in_set_takeD [OF nth_mem, rotated])
  have t: "scheduler_tick s = Inr (context_switch c q (hand_over c q s))"
    using scheduler_tick_next [OF r c rq] q by simp
  then have ts: "tick_state s = context_switch c q (hand_over c q s)" by (simp add: tick_state_def)
  show "scheduler_tick s = Inr (tick_state s)" using t ts by simp
  show "current (tick_state s) = q" "run_queue (tick_state s) = run_queue s" "tick_count (tick_state s) = tick_count s + 1"
    "tss_esp0 (tss (tick_state s)) = pget (mem s) q Kernel_stack_top"
    using tss_hand_over [OF ok _ qs(1), of c] by (simp_all add: ts)
  show pg: "pget (mem (tick_state s)) p f =
      (if f = State \<and> p = q then PROC_RUNNING
       else if f = State \<and> p = c \<and> pget (mem s) c State = PROC_RUNNING then PROC_READY
       else pget (mem s) p f)" if "p \<in> set (c # os)" "p \<noteq> c \<or> f \<noteq> Esp" for p f
  proof -
    have "pget (mem (tick_state s)) p f = pget (mem (hand_over c q s)) p f"
      unfolding ts by (rule context_switch_pget [OF ok _ that(1)]) (use that cl in auto)
    also note hand_over_pget [OF ok _ qs(1) that(1) qs(2)]
    finally show ?thesis by simp
  qed
  have "links (mem (tick_state s)) (c # os) c = links (mem s) (c # os) c"
    by (rule links_cong) (simp add: pg)
  then show "ring (mem (tick_state s)) (c # os)" using r by (simp add: ring_def)
qed

text \<open>Between two ticks a process may do anything that leaves the queue and the state of \<open>q\<close> alone.\<close>

definition undisturbed :: "u32 list \<Rightarrow> u32 \<Rightarrow> 'a sched_state_scheme \<Rightarrow> 'a sched_state_scheme \<Rightarrow> bool" where
  "undisturbed ps q s s' \<longleftrightarrow> current s' = current s \<and> run_queue s' = run_queue s \<and>
     (\<forall>p \<in> set ps. pget (mem s') p Next = pget (mem s) p Next) \<and> pget (mem s') q State = pget (mem s) q State"

lemma undisturbed_ring:
  assumes "undisturbed ps q s s'" and "ring (mem s) qs" and "set qs \<subseteq> set ps"
  shows "ring (mem s') qs"
proof -
  have "links (mem s') qs (hd qs) = links (mem s) qs (hd qs)"
    by (rule links_cong) (use assms in \<open>auto simp: undisturbed_def\<close>)
  then show ?thesis using assms(2) by (simp add: ring_def)
qed

lemma find_prefix:
  assumes "find P (take n xs) = Some r" and "d < length xs" and "xs ! d = q" and "P q" and "d < n" and "r \<noteq> q"
  obtains us vs where "xs = us @ r # vs" "length us < d" "vs ! (d - length us - 1) = q"
proof -
  obtain i where i: "i < length (take n xs)" "r = take n xs ! i" "\<forall>j < i. \<not> P (take n xs ! j)"
    using assms(1) by (auto simp: find_Some_iff)
  have il: "i < length xs" "r = xs ! i" using i by simp_all
  have "\<not> d < i" using i(3) assms(2-5) by auto
  then have id: "i < d" using il assms(3,6) by (metis linorder_neqE_nat)
  have "xs = take i xs @ r # drop (Suc i) xs" using il by (simp add: id_take_nth_drop)
  moreover have "length (take i xs) < d" using id il by simp
  moreover have "drop (Suc i) xs ! (d - length (take i xs) - 1) = q"
    using id il assms(2,3) by simp
  ultimately show thesis by (rule that)
qed

lemma reaches_ready:
  fixes \<sigma> :: "nat \<Rightarrow> 'a sched_state_scheme"
  assumes "ring (mem (\<sigma> 0)) (c # os)" and "current (\<sigma> 0) = c" and "run_queue (\<sigma> 0) \<noteq> 0"
    and "set (c # os) = set ps" and "length os \<le> 65" and "d < length os" and "os ! d = q" and "ready (mem (\<sigma> 0)) q"
    and "\<And>k. stack_clear ps (\<sigma> k)" and "\<And>k. undisturbed ps q (tick_state (\<sigma> k)) (\<sigma> (Suc k))"
  shows "\<exists>k \<le> Suc d. current (\<sigma> k) = q"
  using assms
proof (induction d arbitrary: \<sigma> c os rule: less_induct)
  case (less d)
  let ?s = "\<sigma> 0" and ?t = "tick_state (\<sigma> 0)"
  have cl: "stack_clear (c # os) ?s" using less.prems(4) less.prems(9) [of 0] by (simp add: stack_clear_def)
  have "q \<in> set (take 65 os)" using less.prems(5-7) by (auto simp: in_set_conv_nth intro!: exI [of _ d])
  then have "find (ready (mem ?s)) (take 65 os) \<noteq> None" using less.prems(8) by (auto simp: find_None_iff)
  then obtain r where r: "find (ready (mem ?s)) (take 65 os) = Some r" by auto
  note tk = tick_to [OF less.prems(1-3) cl r]
  note un = less.prems(10) [of 0]
  have cur: "current (\<sigma> 1) = r" using un tk(2) by (simp add: undisturbed_def)
  show ?case
  proof (cases "r = q")
    case True
    with cur show ?thesis by (intro exI [of _ 1]) simp
  next
    case False
    obtain us vs where os: "os = us @ r # vs" "length us < d" "vs ! (d - length us - 1) = q"
      by (rule find_prefix [OF r less.prems(6,7) _ _ False]) (use less.prems in auto)
    let ?d = "d - length us - 1" and ?os = "vs @ c # us"
    have ringt: "ring (mem ?t) (r # ?os)" using tk(6) ring_rotate [of "mem ?t" "c # us" "r # vs"] os(1) by simp
    have qc: "q \<in> set (c # os)" "q \<noteq> c" using less.prems(1,6,7) by (auto simp: ring_def pcbs_ok_def)
    have dl: "?d < length vs" using os less.prems(6) by simp
    have "\<exists>k \<le> Suc ?d. current (\<sigma> (Suc k)) = q"
    proof (rule less.IH [of ?d "\<lambda>k. \<sigma> (Suc k)" r ?os])
      show "ring (mem (\<sigma> (Suc 0))) (r # ?os)"
        by (rule undisturbed_ring [OF un ringt]) (use less.prems(4) os(1) in auto)
      show "ready (mem (\<sigma> (Suc 0))) q"
        using un tk(7) [OF qc(1), of State] False qc(2) less.prems(8) by (simp add: undisturbed_def)
      show "current (\<sigma> (Suc 0)) = r" using cur by simp
      show "run_queue (\<sigma> (Suc 0)) \<noteq> 0" using un tk(3) less.prems(3) by (simp add: undisturbed_def)
    qed (use os less.prems dl in \<open>auto simp: nth_append\<close>)
    then obtain k where "k \<le> Suc ?d" "current (\<sigma> (Suc k)) = q" by blast
    then show ?thesis using os(2) by (intro exI [of _ "Suc k"]) simp
  qed
qed

section \<open>The queue as an interface\<close>

text \<open>What the rest of the kernel may rely on: \<open>holds s ps\<close> says that the queue is \<open>ps\<close>.\<close>

locale process_queue =
  fixes enter :: "u32 \<Rightarrow> 's \<Rightarrow> 's" and leave :: "u32 \<Rightarrow> 's \<Rightarrow> 's option" and holds :: "'s \<Rightarrow> u32 list \<Rightarrow> bool"
  assumes enter_ok: "holds s ps \<Longrightarrow> pcbs_ok (p # ps) \<Longrightarrow> holds (enter p s) (insert_second p ps)"
    and leave_ok: "holds s ps \<Longrightarrow> p \<noteq> 0 \<Longrightarrow> \<exists>s'. leave p s = Some s' \<and> holds s' (remove1 p ps)"
begin

lemma enter_leave:
  assumes "holds s ps" and "pcbs_ok (p # ps)"
  shows "\<exists>s'. leave p (enter p s) = Some s' \<and> holds s' ps"
proof -
  have p: "p \<noteq> 0" "p \<notin> set ps" using assms(2) by (auto simp: pcbs_ok_def)
  have "remove1 p (insert_second p ps) = ps" using p(2) by (cases ps) auto
  then show ?thesis using leave_ok [OF enter_ok [OF assms] p(1)] by simp
qed

lemma leave_twice:
  assumes "holds s ps" and "distinct ps" and "p \<noteq> 0" and "leave p s = Some s'"
  shows "\<exists>s''. leave p s' = Some s'' \<and> holds s'' (remove1 p ps)"
proof -
  have "holds s' (remove1 p ps)" using leave_ok [OF assms(1,3)] assms(4) by auto
  moreover have "remove1 p (remove1 p ps) = remove1 p ps" using assms(2) by (simp add: remove1_idem)
  ultimately show ?thesis using leave_ok [OF _ assms(3)] by metis
qed

end

interpretation runq: process_queue scheduler_add scheduler_remove queue
proof unfold_locales
  fix s :: "'a sched_state_scheme" and ps and p :: u32
  assume "queue s ps" "pcbs_ok (p # ps)"
  then show "queue (scheduler_add p s) (insert_second p ps)" by (rule scheduler_add_queue)
next
  fix s :: "'a sched_state_scheme" and ps and p :: u32
  assume "queue s ps" "p \<noteq> 0"
  then show "\<exists>s'. scheduler_remove p s = Some s' \<and> queue s' (remove1 p ps)"
    using scheduler_remove_queue by blast
qed

section \<open>Properties\<close>

lemma current_splits:
  assumes "queue s ps" and "c \<in> set ps"
  obtains us vs where "ps = us @ c # vs" "ring (mem s) (c # vs @ us)" "run_queue s \<noteq> 0" "pcbs_ok ps"
proof -
  obtain us vs where ps: "ps = us @ c # vs" using assms(2) by (auto dest: split_list)
  have "ring (mem s) ps" "run_queue s = hd ps" using assms by (auto simp: queue_def split: if_splits)
  moreover have "hd ps \<in> set ps" using assms(2) by (cases ps) auto
  ultimately show thesis
    using ring_rotate [of "mem s" us "c # vs"] ps that by (auto simp: ring_def pcbs_ok_def)
qed

text \<open>Two processes, the first one running.\<close>

definition sched_demo :: sched_state where
  "sched_demo = (let s = proc_state.extend proc_boot (sched_state.fields 0 0 0x100600);
       s1 = scheduler_add 0x81000 (scheduler_add 0x80000 s)
     in s1\<lparr>current := 0x80000, mem := pset 0x80000 State PROC_RUNNING (mem s1)\<rparr>)"

lemma sched_demo_facts:
  "queue sched_demo [0x80000, 0x81000]" "current sched_demo = 0x80000" "ready (mem sched_demo) 0x81000"
  "c_esp (cpu sched_demo) = 0x90000" "pcbs_ok [0x80000, 0x81000]"
proof -
  let ?s = "proc_state.extend proc_boot (sched_state.fields 0 0 0x100600)"
  let ?s1 = "scheduler_add 0x80000 ?s" and ?s2 = "scheduler_add 0x81000 (scheduler_add 0x80000 ?s)"
  show ok: "pcbs_ok [0x80000, 0x81000]" by (simp add: pcbs_ok_def apart_def)
  have o1: "pcbs_ok [0x80000]" and o2: "pcbs_ok (0x81000 # insert_second 0x80000 [])"
    by (simp_all add: pcbs_ok_def apart_def)
  have q0: "queue ?s []" by (simp add: queue_def proc_state.defs sched_state.defs)
  have q1: "queue ?s1 (insert_second 0x80000 [])" by (rule scheduler_add_queue(1) [OF q0 o1])
  have q2: "queue ?s2 [0x80000, 0x81000]" using scheduler_add_queue(1) [OF q1 o2] by simp
  have r2: "ready (mem ?s2) 0x81000" using scheduler_add_queue(2) [OF q1 o2] .
  show "queue sched_demo [0x80000, 0x81000]"
    using q2 by (simp add: sched_demo_def Let_def queue_def)
  show "current sched_demo = 0x80000" by (simp add: sched_demo_def Let_def)
  show "ready (mem sched_demo) 0x81000"
    using r2 pget_pset_ok [OF ok, of "0x80000" "0x81000"] by (simp add: sched_demo_def Let_def)
  have "cpu ?s2 = cpu proc_boot" by (simp add: scheduler_add_def Let_def proc_state.defs)
  then show "c_esp (cpu sched_demo) = 0x90000" using proc_boot_facts by (simp add: sched_demo_def Let_def)
qed

text \<open>
  C19. The run queue behaves as a list. \<open>scheduler_add\<close> puts a process right after the head of the
  queue; \<open>scheduler_remove\<close> always returns, takes out exactly the given process, moves the head on
  when it was the head, and leaves the queue alone when the process is not in it; removing a
  process right after it was added restores the queue.
\<close>

theorem scheduler_queue_is_list:
  fixes s :: "'a sched_state_scheme"
  assumes "queue s ps" and "pcbs_ok (p # ps)" and "r \<noteq> 0"
  shows "queue (scheduler_add p s) (insert_second p ps) \<and> ready (mem (scheduler_add p s)) p \<and>
    (\<exists>s'. scheduler_remove r s = Some s' \<and> queue s' (remove1 r ps) \<and> (r \<in> set ps \<longrightarrow> pget (mem s') r Next = 0)) \<and>
    (\<exists>s'. scheduler_remove p (scheduler_add p s) = Some s' \<and> queue s' ps)"
  using scheduler_add_queue(1,2) [OF assms(1,2)] scheduler_remove_queue [OF assms(1,3)] runq.enter_leave [OF assms(1,2)]
  by blast

theorem scheduler_queue_is_list_witness:
  "queue (scheduler_add 0x82000 sched_demo) [0x80000, 0x82000, 0x81000] \<and>
   (\<exists>s'. scheduler_remove 0x80000 sched_demo = Some s' \<and> queue s' [0x81000])"
proof -
  have "pcbs_ok [0x82000, 0x80000, 0x81000]" by (simp add: pcbs_ok_def apart_def)
  then show ?thesis using scheduler_queue_is_list [OF sched_demo_facts(1), of "0x82000" "0x80000"] by auto
qed




primrec demo_run :: "nat \<Rightarrow> sched_state" where
  "demo_run 0 = sched_demo"
| "demo_run (Suc k) = (tick_state (demo_run k))\<lparr>cpu := cpu sched_demo\<rparr>"


end
