(* ===== verification/Keyboard.thy ===== *)
theory Keyboard
  imports Scheduler
begin

text \<open>
  The PS/2 keyboard driver (kernel/drivers/keyboard.c): the IRQ1 handler puts characters into a
  ring of 256 bytes, \<open>keyboard_getchar\<close> takes them out and sleeps while there is none. The ring
  is shown to be a queue of at most 255 characters. The interrupts that arrive while the
  processor sleeps are an argument: what the hardware raises, and the scan code it answers.
\<close>

definition KBD_BUF_SIZE :: u32 where "KBD_BUF_SIZE = 256"

record kbd_state = sched_state +
  kbd_buffer :: "u8 list"
  kbd_head :: u32
  kbd_tail :: u32
  shift_held :: u8

section \<open>The source, function by function\<close>

definition scancode_to_ascii :: "u8 list" where
  "scancode_to_ascii = [0, 27] @ str ''1234567890-='' @ [8, 9] @ str ''qwertyuiop[]'' @ [10, 0] @
     str ''asdfghjkl;'' @ [39, 96, 0, 92] @ str ''zxcvbnm,./'' @ [0, 42, 0, 32] @ replicate 70 0"

definition scancode_to_ascii_shift :: "u8 list" where
  "scancode_to_ascii_shift = [0, 27] @ str ''!@#$%^&*()_+'' @ [8, 9] @ str ''QWERTYUIOP{}'' @ [10, 0] @
     str ''ASDFGHJKL:'' @ [34, 126, 0, 124] @ str ''ZXCVBNM<>?'' @ [0, 42, 0, 32] @ replicate 70 0"

definition kbd_push :: "u8 \<Rightarrow> 'a kbd_state_scheme \<Rightarrow> 'a kbd_state_scheme" where
  "kbd_push c s =
     (let next = (kbd_head s + 1) mod KBD_BUF_SIZE in
      if next \<noteq> kbd_tail s
      then s\<lparr>kbd_buffer := (kbd_buffer s)[unat (kbd_head s) := c], kbd_head := next\<rparr>
      else s)"

text \<open>\<open>scancode\<close> is what \<open>inb(0x60)\<close> answers.\<close>

definition keyboard_irq_handler :: "u8 \<Rightarrow> 'a kbd_state_scheme \<Rightarrow> 'a kbd_state_scheme" where
  "keyboard_irq_handler scancode s =
     (if scancode = 0x2A \<or> scancode = 0x36 then s\<lparr>shift_held := 1\<rparr>
      else if scancode = 0xAA \<or> scancode = 0xB6 then s\<lparr>shift_held := 0\<rparr>
      else if scancode AND 0x80 \<noteq> 0 then s
      else let c = (if shift_held s \<noteq> 0 then scancode_to_ascii_shift else scancode_to_ascii) ! unat scancode
           in if c = 0 then s else kbd_push c s)"

definition keyboard_init :: "'a kbd_state_scheme \<Rightarrow> 'a kbd_state_scheme" where
  "keyboard_init s =
     kprintf ''[KBD] PS/2 keyboard driver initialised\<newline>'' []
       (irq_register 1 Keyboard_handler (s\<lparr>kbd_head := 0, kbd_tail := 0, shift_held := 0\<rparr>))"

definition keyboard_has_data :: "'a kbd_state_scheme \<Rightarrow> bool" where
  "keyboard_has_data s \<longleftrightarrow> kbd_tail s \<noteq> kbd_head s"

text \<open>\<open>timer_irq_tick\<close> of kernel.c, and the calls through the handler table.\<close>

definition timer_irq_tick :: "'a kbd_state_scheme \<Rightarrow> 'a kbd_state_scheme" where
  "timer_irq_tick s = timer_tick s"

fun run_irq_fn :: "u8 \<Rightarrow> irq_fn \<Rightarrow> 'a kbd_state_scheme \<Rightarrow> 'a kbd_state_scheme" where
  "run_irq_fn scancode Timer_irq_tick s = timer_irq_tick s"
| "run_irq_fn scancode Keyboard_handler s = keyboard_irq_handler scancode s"

text \<open>An interrupt as the hardware raises it, and its delivery through the stub and \<open>irq_handler\<close>.
  The stub pushes the vector; no handler reads another register of the frame.\<close>

datatype hw_irq = Irq_timer | Irq_key u8

fun irq_vector :: "hw_irq \<Rightarrow> u32" where
  "irq_vector Irq_timer = 32"
| "irq_vector (Irq_key _) = 33"

fun irq_code :: "hw_irq \<Rightarrow> u8" where
  "irq_code Irq_timer = 0"
| "irq_code (Irq_key c) = c"

definition irq_frame :: "u32 \<Rightarrow> registers" where
  "irq_frame n = \<lparr>r_edi = 0, r_esi = 0, r_ebp = 0, r_esp_dummy = 0, r_ebx = 0, r_edx = 0, r_ecx = 0, r_eax = 0,
     r_int_no = n, r_err_code = 0, r_eip = 0, r_cs = 0, r_eflags = 0, r_useresp = 0, r_ss = 0\<rparr>"

definition deliver :: "hw_irq \<Rightarrow> 'a kbd_state_scheme \<Rightarrow> 'a kbd_state_scheme" where
  "deliver i s = irq_handler (run_irq_fn (irq_code i)) (irq_frame (irq_vector i)) s"

text \<open>The wait turns interrupts on and sleeps until the next one; without one it never returns.\<close>

fun keyboard_getchar ::
  "hw_irq list \<Rightarrow> 'a kbd_state_scheme \<Rightarrow> (u8 \<times> hw_irq list \<times> 'a kbd_state_scheme) option" where
  "keyboard_getchar irqs s =
     (if kbd_tail s = kbd_head s
      then (case irqs of [] \<Rightarrow> None | i # is \<Rightarrow> keyboard_getchar is (deliver i (s\<lparr>interrupts_on := True\<rparr>)))
      else Some (kbd_buffer s ! unat (kbd_tail s), irqs, s\<lparr>kbd_tail := (kbd_tail s + 1) mod KBD_BUF_SIZE\<rparr>))"

declare keyboard_getchar.simps [simp del]

section \<open>The ring as a queue\<close>

definition kbd_inv :: "'a kbd_state_scheme \<Rightarrow> bool" where
  "kbd_inv s \<longleftrightarrow> length (kbd_buffer s) = 256 \<and> kbd_head s < 256 \<and> kbd_tail s < 256"

definition kbd_count :: "'a kbd_state_scheme \<Rightarrow> nat" where
  "kbd_count s = (unat (kbd_head s) + 256 - unat (kbd_tail s)) mod 256"

definition kbd_queue :: "'a kbd_state_scheme \<Rightarrow> u8 list" where
  "kbd_queue s = map (\<lambda>i. kbd_buffer s ! ((unat (kbd_tail s) + i) mod 256)) [0..<kbd_count s]"

lemma unat_succ_mod: "h < 256 \<Longrightarrow> unat ((h + 1) mod KBD_BUF_SIZE) = (unat h + 1) mod 256"
proof -
  assume "h < 256"
  then have "unat h < 256" by (simp add: word_less_nat_alt)
  then have "unat (h + 1) = unat h + 1" by (intro unat_add_one) simp
  then show ?thesis by (simp add: unat_mod KBD_BUF_SIZE_def)
qed

lemma kbd_bounds: "kbd_inv s \<Longrightarrow> unat (kbd_head s) < 256 \<and> unat (kbd_tail s) < 256 \<and> length (kbd_buffer s) = 256"
  by (simp add: kbd_inv_def word_less_nat_alt)

lemma length_kbd_queue [simp]: "length (kbd_queue s) = kbd_count s"
  by (simp add: kbd_queue_def)

lemma kbd_empty_iff: "kbd_inv s \<Longrightarrow> kbd_tail s = kbd_head s \<longleftrightarrow> kbd_queue s = []"
proof -
  assume "kbd_inv s"
  then have b: "unat (kbd_head s) < 256" "unat (kbd_tail s) < 256" using kbd_bounds by auto
  have "kbd_count s = 0 \<longleftrightarrow> unat (kbd_tail s) = unat (kbd_head s)"
    unfolding kbd_count_def using b by (cases "unat (kbd_head s) < unat (kbd_tail s)") (auto simp: mod_if)
  then show ?thesis unfolding kbd_queue_def by (simp add: word_unat_eq_iff)
qed

lemma mod256_inj:
  fixes i j :: nat
  assumes "(t + i) mod 256 = (t + j) mod 256" and "i < 256" and "j < 256"
  shows "i = j"
  using assms
proof (induction i j rule: linorder_wlog)
  case (le a b)
  then have "256 dvd (t + b) - (t + a)" by (intro mod_eq_dvd_iff_nat [THEN iffD1]) auto
  then have "256 dvd b - a" by simp
  then show ?case using le by (auto dest: dvd_imp_le)
qed simp

text \<open>Distances on the ring, as plain arithmetic.\<close>

lemma ring_dist: "h < 256 \<Longrightarrow> t < 256 \<Longrightarrow> (h + 256 - t) mod 256 = (if t \<le> h then h - t else h + 256 - t)"
  for h t :: nat
  by (auto simp: mod_if)

lemma ring_succ: "(h + 1) mod 256 = (if h = 255 then 0 else h + 1)" if "h < 256" for h :: nat
  using that by (cases "h = 255") simp_all

lemma ring_dist_push:
  fixes h t :: nat
  assumes "h < 256" and "t < 256" and "(h + 256 - t) mod 256 \<noteq> 255"
  shows "((h + 1) mod 256 + 256 - t) mod 256 = Suc ((h + 256 - t) mod 256)"
proof -
  note a = ring_dist [OF assms(1,2)]
  have b: "((h + 1) mod 256 + 256 - t) mod 256 = (if t \<le> (h + 1) mod 256 then (h + 1) mod 256 - t else (h + 1) mod 256 + 256 - t)"
    by (rule ring_dist) (simp_all add: assms)
  show ?thesis using assms(1,2) assms(3) [unfolded a] unfolding a b unfolding ring_succ [OF assms(1)] by (auto split: if_splits)
qed

lemma ring_dist_pop:
  fixes h t :: nat
  assumes "h < 256" and "t < 256" and "(h + 256 - t) mod 256 \<noteq> 0"
  shows "Suc ((h + 256 - (t + 1) mod 256) mod 256) = (h + 256 - t) mod 256"
proof -
  note a = ring_dist [OF assms(1,2)]
  have b: "(h + 256 - (t + 1) mod 256) mod 256 = (if (t + 1) mod 256 \<le> h then h - (t + 1) mod 256 else h + 256 - (t + 1) mod 256)"
    by (rule ring_dist) (simp_all add: assms)
  show ?thesis using assms(1,2) assms(3) [unfolded a] unfolding a b unfolding ring_succ [OF assms(2)] by (auto split: if_splits)
qed

lemma kbd_head_pos: "kbd_inv s \<Longrightarrow> unat (kbd_head s) = (unat (kbd_tail s) + kbd_count s) mod 256 \<and> kbd_count s < 256"
  using kbd_bounds [of s] unfolding kbd_count_def
  by (cases "unat (kbd_head s) < unat (kbd_tail s)") (auto simp: mod_if)

lemma kbd_full_iff:
  assumes inv: "kbd_inv s"
  shows "(kbd_head s + 1) mod KBD_BUF_SIZE = kbd_tail s \<longleftrightarrow> kbd_count s = 255"
proof -
  have b: "unat (kbd_head s) < 256" "unat (kbd_tail s) < 256" "kbd_head s < 256"
    using kbd_bounds [OF inv] inv by (auto simp: kbd_inv_def)
  have "(kbd_head s + 1) mod KBD_BUF_SIZE = kbd_tail s \<longleftrightarrow> (unat (kbd_head s) + 1) mod 256 = unat (kbd_tail s)"
    using unat_succ_mod [OF b(3)] by (metis word_unat_eq_iff)
  also have "\<dots> \<longleftrightarrow> kbd_count s = 255"
    unfolding kbd_count_def using b by (cases "unat (kbd_head s) < unat (kbd_tail s)") (auto simp: mod_if)
  finally show ?thesis .
qed

lemma kbd_push_queue:
  assumes inv: "kbd_inv s"
  shows "kbd_inv (kbd_push c s)"
    and "kbd_queue (kbd_push c s) = (if length (kbd_queue s) < 255 then kbd_queue s @ [c] else kbd_queue s)"
proof -
  have b: "unat (kbd_head s) < 256" "unat (kbd_tail s) < 256" "length (kbd_buffer s) = 256" "kbd_head s < 256" "kbd_tail s < 256"
    using kbd_bounds [OF inv] inv by (auto simp: kbd_inv_def)
  note hp = kbd_head_pos [OF inv]
  have h1: "unat ((kbd_head s + 1) mod KBD_BUF_SIZE) = (unat (kbd_head s) + 1) mod 256"
    by (rule unat_succ_mod [OF b(4)])
  then have "(kbd_head s + 1) mod KBD_BUF_SIZE < 256" by (simp add: word_less_nat_alt)
  then show "kbd_inv (kbd_push c s)" using inv by (simp add: kbd_inv_def kbd_push_def Let_def)
  show "kbd_queue (kbd_push c s) = (if length (kbd_queue s) < 255 then kbd_queue s @ [c] else kbd_queue s)"
  proof (cases "kbd_count s = 255")
    case True
    then show ?thesis using kbd_full_iff [OF inv] by (simp add: kbd_push_def Let_def)
  next
    case False
    then have p: "kbd_push c s = s\<lparr>kbd_buffer := (kbd_buffer s)[unat (kbd_head s) := c],
        kbd_head := (kbd_head s + 1) mod KBD_BUF_SIZE\<rparr>"
      using kbd_full_iff [OF inv] by (simp add: kbd_push_def Let_def)
    have n: "kbd_count (kbd_push c s) = Suc (kbd_count s)"
      using ring_dist_push [OF b(1,2)] False by (simp add: p kbd_count_def h1)
    have old: "(kbd_buffer s)[unat (kbd_head s) := c] ! ((unat (kbd_tail s) + i) mod 256) =
        kbd_buffer s ! ((unat (kbd_tail s) + i) mod 256)" if "i < kbd_count s" for i
    proof -
      have "unat (kbd_head s) \<noteq> (unat (kbd_tail s) + i) mod 256"
        using mod256_inj [of "unat (kbd_tail s)" i "kbd_count s"] hp that by auto
      then show ?thesis by simp
    qed
    have new: "(kbd_buffer s)[unat (kbd_head s) := c] ! ((unat (kbd_tail s) + kbd_count s) mod 256) = c"
      using b hp by simp
    show ?thesis using False hp n old new by (simp add: kbd_queue_def p)
  qed
qed

definition kbd_pop :: "'a kbd_state_scheme \<Rightarrow> 'a kbd_state_scheme" where
  "kbd_pop s = s\<lparr>kbd_tail := (kbd_tail s + 1) mod KBD_BUF_SIZE\<rparr>"

lemma kbd_pop_queue:
  assumes inv: "kbd_inv s" and ne: "kbd_queue s \<noteq> []"
  shows "kbd_inv (kbd_pop s)" and "kbd_queue s = kbd_buffer s ! unat (kbd_tail s) # kbd_queue (kbd_pop s)"
proof -
  have b: "unat (kbd_head s) < 256" "unat (kbd_tail s) < 256" "kbd_tail s < 256"
    using kbd_bounds [OF inv] inv by (auto simp: kbd_inv_def)
  have t1: "unat ((kbd_tail s + 1) mod KBD_BUF_SIZE) = (unat (kbd_tail s) + 1) mod 256"
    by (rule unat_succ_mod [OF b(3)])
  then have "(kbd_tail s + 1) mod KBD_BUF_SIZE < 256" by (simp add: word_less_nat_alt)
  then show "kbd_inv (kbd_pop s)" using inv by (simp add: kbd_inv_def kbd_pop_def)
  have c0: "kbd_count s \<noteq> 0" using ne by (metis length_0_conv length_kbd_queue)
  have n: "kbd_count s = Suc (kbd_count (kbd_pop s))"
    using ring_dist_pop [OF b(1,2)] c0 by (simp add: kbd_pop_def kbd_count_def t1)
  have "kbd_buffer s ! (((unat (kbd_tail s) + 1) mod 256 + i) mod 256) = kbd_buffer s ! ((unat (kbd_tail s) + Suc i) mod 256)" for i
    by (simp add: mod_simps)
  then show "kbd_queue s = kbd_buffer s ! unat (kbd_tail s) # kbd_queue (kbd_pop s)"
    using b unfolding kbd_queue_def n
    by (simp add: kbd_pop_def t1 upt_conv_Cons map_Suc_upt [symmetric] del: upt_Suc)
qed

section \<open>A bounded queue as an interface\<close>

locale bounded_fifo =
  fixes put :: "'c \<Rightarrow> 's \<Rightarrow> 's" and drop_front :: "'s \<Rightarrow> 's" and front :: "'s \<Rightarrow> 'c"
    and held :: "'s \<Rightarrow> 'c list" and ok :: "'s \<Rightarrow> bool" and cap :: nat
  assumes put_ok: "ok s \<Longrightarrow> ok (put c s) \<and> held (put c s) = (if length (held s) < cap then held s @ [c] else held s)"
    and get_ok: "ok s \<Longrightarrow> held s \<noteq> [] \<Longrightarrow> ok (drop_front s) \<and> held s = front s # held (drop_front s)"
begin

lemma puts_held:
  "ok s \<Longrightarrow> length (held s) \<le> cap \<Longrightarrow> ok (fold put cs s) \<and> held (fold put cs s) = take cap (held s @ cs)"
proof (induction cs arbitrary: s)
  case (Cons c cs)
  note p = put_ok [OF Cons.prems(1), of c]
  show ?case
  proof (cases "length (held s) < cap")
    case True
    then show ?thesis using Cons.IH [of "put c s"] p by simp
  next
    case False
    then have "length (held s) = cap" using Cons.prems(2) by simp
    then show ?thesis using Cons.IH [of "put c s"] p by simp
  qed
qed simp

text \<open>A producer that runs between the read of the front and its removal does no harm.\<close>

lemma put_between:
  assumes "ok s" and "held s \<noteq> []" and "length (held s) < cap"
  shows "front (put c s) = front s \<and> held (drop_front (put c s)) = held (drop_front s) @ [c]"
proof -
  note p = put_ok [OF assms(1), of c] and g = get_ok [OF assms(1,2)]
  have "ok (put c s)" "held (put c s) = held s @ [c]" using p assms(3) by auto
  moreover from this have "held (put c s) = front (put c s) # held (drop_front (put c s))" using get_ok by auto
  ultimately have "front (put c s) # held (drop_front (put c s)) = front s # held (drop_front s) @ [c]"
    using g by (metis append_Cons)
  then show ?thesis by simp
qed

end

interpretation kbd: bounded_fifo kbd_push kbd_pop "\<lambda>s. kbd_buffer s ! unat (kbd_tail s)" kbd_queue kbd_inv 255
  by unfold_locales (use kbd_push_queue kbd_pop_queue in blast)+

section \<open>What was typed\<close>

text \<open>The character an interrupt yields, given the shift key, and the shift key after it.\<close>

fun irq_char :: "u8 \<Rightarrow> hw_irq \<Rightarrow> u8 option" where
  "irq_char sh Irq_timer = None"
| "irq_char sh (Irq_key sc) =
     (if sc \<in> {0x2A, 0x36} \<or> sc AND 0x80 \<noteq> 0 then None
      else let c = (if sh \<noteq> 0 then scancode_to_ascii_shift else scancode_to_ascii) ! unat sc
           in if c = 0 then None else Some c)"

fun irq_shift :: "u8 \<Rightarrow> hw_irq \<Rightarrow> u8" where
  "irq_shift sh Irq_timer = sh"
| "irq_shift sh (Irq_key sc) = (if sc \<in> {0x2A, 0x36} then 1 else if sc \<in> {0xAA, 0xB6} then 0 else sh)"

fun typed :: "u8 \<Rightarrow> hw_irq list \<Rightarrow> u8 list" where
  "typed sh [] = []"
| "typed sh (i # is) = (case irq_char sh i of None \<Rightarrow> [] | Some c \<Rightarrow> [c]) @ typed (irq_shift sh i) is"

definition handlers_set :: "'a arch_state_scheme \<Rightarrow> bool" where
  "handlers_set s \<longleftrightarrow> 2 \<le> length (irq_handlers s) \<and>
     irq_handlers s ! 0 = Some Timer_irq_tick \<and> irq_handlers s ! 1 = Some Keyboard_handler"

lemma keyboard_irq_handler_char:
  "keyboard_irq_handler sc s =
     (case irq_char (shift_held s) (Irq_key sc) of None \<Rightarrow> s | Some c \<Rightarrow> kbd_push c s)
       \<lparr>shift_held := irq_shift (shift_held s) (Irq_key sc)\<rparr>"
  by (auto simp: keyboard_irq_handler_def kbd_push_def Let_def)

lemma deliver_eq:
  assumes "handlers_set s"
  shows "deliver i s = run_irq_fn (irq_code i) (if i = Irq_timer then Timer_irq_tick else Keyboard_handler) (outb 0x20 0x20 s)"
proof -
  have "irq_handlers (outb 0x20 0x20 s) = irq_handlers s" by (simp add: outb_def)
  moreover have "\<not> (8 :: u8) \<le> 1" by (simp add: word_le_nat_alt)
  ultimately show ?thesis using assms
    by (cases i) (simp_all add: deliver_def irq_handler_def irq_frame_def pic_send_eoi_def handlers_set_def Let_def)
qed

lemma kbd_fields_eq:
  assumes "kbd_buffer s' = kbd_buffer s" "kbd_head s' = kbd_head s" "kbd_tail s' = kbd_tail s"
  shows "kbd_queue s' = kbd_queue s" "kbd_inv s' = kbd_inv s"
  using assms by (simp_all add: kbd_queue_def kbd_inv_def kbd_count_def)

lemma deliver_queue:
  fixes s :: "'a kbd_state_scheme"
  assumes inv: "kbd_inv s" and h: "handlers_set s"
  shows "kbd_inv (deliver i s)" "handlers_set (deliver i s)"
    "kbd_queue (deliver i s) = (case irq_char (shift_held s) i of None \<Rightarrow> kbd_queue s
       | Some c \<Rightarrow> if length (kbd_queue s) < 255 then kbd_queue s @ [c] else kbd_queue s)"
    "shift_held (deliver i s) = irq_shift (shift_held s) i"
proof -
  let ?s = "outb 0x20 0x20 s"
  have o: "kbd_inv ?s" "kbd_queue ?s = kbd_queue s" "shift_held ?s = shift_held s" "irq_handlers ?s = irq_handlers s"
    using inv kbd_fields_eq [of ?s s] by (simp_all add: outb_def)
  show "kbd_inv (deliver i s)"
  proof (cases i)
    case Irq_timer
    then show ?thesis using o(1) kbd_fields_eq(2) [of "timer_tick ?s" ?s]
      by (simp add: deliver_eq [OF h] timer_irq_tick_def timer_tick_def)
  next
    case (Irq_key sc)
    have "kbd_inv (keyboard_irq_handler sc ?s) = kbd_inv (case irq_char (shift_held s) (Irq_key sc) of None \<Rightarrow> ?s | Some c \<Rightarrow> kbd_push c ?s)"
      unfolding keyboard_irq_handler_char o(3) by (rule kbd_fields_eq) simp_all
    then show ?thesis using Irq_key o(1) kbd_push_queue(1) [OF o(1)]
      by (simp add: deliver_eq [OF h] split: option.splits)
  qed
  show "kbd_queue (deliver i s) = (case irq_char (shift_held s) i of None \<Rightarrow> kbd_queue s
       | Some c \<Rightarrow> if length (kbd_queue s) < 255 then kbd_queue s @ [c] else kbd_queue s)"
  proof (cases i)
    case Irq_timer
    then show ?thesis using o(2) kbd_fields_eq(1) [of "timer_tick ?s" ?s]
      by (simp add: deliver_eq [OF h] timer_irq_tick_def timer_tick_def)
  next
    case (Irq_key sc)
    have "kbd_queue (keyboard_irq_handler sc ?s) = kbd_queue (case irq_char (shift_held s) (Irq_key sc) of None \<Rightarrow> ?s | Some c \<Rightarrow> kbd_push c ?s)"
      unfolding keyboard_irq_handler_char o(3) by (rule kbd_fields_eq) simp_all
    then show ?thesis using Irq_key o(2) kbd_push_queue(2) [OF o(1)]
      by (auto simp: deliver_eq [OF h] split: option.splits)
  qed
  show "handlers_set (deliver i s)" "shift_held (deliver i s) = irq_shift (shift_held s) i"
    using h o by (cases i; simp add: deliver_eq [OF h] timer_irq_tick_def timer_tick_def keyboard_irq_handler_char
        handlers_set_def kbd_push_def Let_def split: option.splits)+
qed

lemma kbd_count_le: "kbd_inv s \<Longrightarrow> length (kbd_queue s) \<le> 255"
  using kbd_head_pos [of s] by simp

lemma delivers_queue:
  fixes s :: "'a kbd_state_scheme"
  assumes "kbd_inv s" and "handlers_set s"
  shows "kbd_inv (fold deliver is s) \<and> handlers_set (fold deliver is s) \<and>
    kbd_queue (fold deliver is s) = take 255 (kbd_queue s @ typed (shift_held s) is)"
  using assms
proof (induction "is" arbitrary: s)
  case Nil
  then show ?case using kbd_count_le [of s] by simp
next
  case (Cons i "is")
  note d = deliver_queue [OF Cons.prems, of i]
  note IH = Cons.IH [OF d(1,2)]
  show ?case
  proof (cases "irq_char (shift_held s) i")
    case None
    then show ?thesis using IH d(3,4) by simp
  next
    case (Some c)
    have "take 255 ((if length (kbd_queue s) < 255 then kbd_queue s @ [c] else kbd_queue s) @ r) =
        take 255 (kbd_queue s @ c # r)" for r
      using kbd_count_le [OF Cons.prems(1)] by (auto simp: take_Cons')
    then show ?thesis using IH d(3,4) Some by simp
  qed
qed

lemma kbd_interrupts_on [simp]:
  "kbd_queue (s\<lparr>interrupts_on := b\<rparr>) = kbd_queue s" "kbd_inv (s\<lparr>interrupts_on := b\<rparr>) = kbd_inv s"
  "handlers_set (s\<lparr>interrupts_on := b\<rparr>) = handlers_set s"
  by (rule kbd_fields_eq; simp)+ (simp add: handlers_set_def)

lemma getchar_nonempty:
  assumes inv: "kbd_inv s" and ne: "kbd_queue s \<noteq> []"
  shows "keyboard_getchar irqs s = Some (hd (kbd_queue s), irqs, kbd_pop s)" "kbd_inv (kbd_pop s)"
    "kbd_queue (kbd_pop s) = tl (kbd_queue s)"
proof -
  note p = kbd_pop_queue [OF inv ne]
  have "kbd_tail s \<noteq> kbd_head s" using kbd_empty_iff [OF inv] ne by simp
  then have "keyboard_getchar irqs s = Some (kbd_buffer s ! unat (kbd_tail s), irqs, kbd_pop s)"
    by (subst keyboard_getchar.simps) (simp add: kbd_pop_def)
  moreover have "kbd_buffer s ! unat (kbd_tail s) = hd (kbd_queue s)" by (subst p(2)) simp
  ultimately show "keyboard_getchar irqs s = Some (hd (kbd_queue s), irqs, kbd_pop s)" by simp
  show "kbd_inv (kbd_pop s)" "kbd_queue (kbd_pop s) = tl (kbd_queue s)" using p(1) by (simp, subst p(2), simp)
qed

lemma getchar_conserves:
  fixes s :: "'a kbd_state_scheme"
  assumes "kbd_inv s" and "handlers_set s"
  shows "case keyboard_getchar irqs s of
      None \<Rightarrow> kbd_queue s @ typed (shift_held s) irqs = []
    | Some (c, irqs', s') \<Rightarrow> kbd_inv s' \<and> handlers_set s' \<and>
        kbd_queue s @ typed (shift_held s) irqs = c # kbd_queue s' @ typed (shift_held s') irqs'"
  using assms
proof (induction irqs arbitrary: s)
  case Nil
  show ?case
  proof (cases "kbd_queue s = []")
    case True
    then show ?thesis using kbd_empty_iff [OF Nil.prems(1)] by (subst keyboard_getchar.simps) simp
  next
    case False
    then show ?thesis using getchar_nonempty [OF Nil.prems(1) False] Nil.prems
      by (simp add: kbd_pop_def handlers_set_def)
  qed
next
  case (Cons i irqs)
  show ?case
  proof (cases "kbd_queue s = []")
    case True
    let ?s = "deliver i (s\<lparr>interrupts_on := True\<rparr>)"
    have g: "keyboard_getchar (i # irqs) s = keyboard_getchar irqs ?s"
      using True kbd_empty_iff [OF Cons.prems(1)] by (subst keyboard_getchar.simps) simp
    have "kbd_inv (s\<lparr>interrupts_on := True\<rparr>)" "handlers_set (s\<lparr>interrupts_on := True\<rparr>)" using Cons.prems by simp_all
    note d = deliver_queue [OF this, of i]
    have "kbd_queue ?s @ typed (shift_held ?s) irqs = kbd_queue s @ typed (shift_held s) (i # irqs)"
      using True d(3,4) by (simp split: option.splits)
    then show ?thesis using Cons.IH [OF d(1,2)] g by (simp only:)
  next
    case False
    then show ?thesis using getchar_nonempty [OF Cons.prems(1) False] Cons.prems
      by (simp add: kbd_pop_def handlers_set_def)
  qed
qed

section \<open>Properties\<close>

text \<open>A keyboard with nothing typed, and its handlers installed.\<close>

definition kbd_demo :: kbd_state where
  "kbd_demo = sched_state.extend (sched_demo\<lparr>irq_handlers := [Some Timer_irq_tick, Some Keyboard_handler]\<rparr>)
     (kbd_state.fields (replicate 256 0) 0 0 0)"

lemma kbd_demo_facts: "kbd_inv kbd_demo" "handlers_set kbd_demo" "kbd_queue kbd_demo = []" "shift_held kbd_demo = 0"
  by (simp_all add: kbd_demo_def sched_state.defs kbd_state.defs kbd_inv_def handlers_set_def kbd_queue_def kbd_count_def)

text \<open>
  C22. The keyboard buffer is a queue of at most 255 characters: any sequence of timer and keyboard
  interrupts appends the characters typed, in order, and drops those that come when 255 are
  waiting; \<open>keyboard_has_data\<close> tells whether one is waiting, and \<open>keyboard_getchar\<close> then takes the
  oldest at once. A character that arrives after it was read and before the read position moved
  on is neither lost nor taken for it.
\<close>

theorem keyboard_is_fifo:
  fixes s :: "'a kbd_state_scheme"
  assumes inv: "kbd_inv s" and h: "handlers_set s"
  shows "kbd_queue (fold deliver irqs s) = take 255 (kbd_queue s @ typed (shift_held s) irqs) \<and>
    (keyboard_has_data s \<longleftrightarrow> kbd_queue s \<noteq> []) \<and>
    (kbd_queue s \<noteq> [] \<longrightarrow> (\<exists>s'. keyboard_getchar irqs s = Some (hd (kbd_queue s), irqs, s') \<and> kbd_queue s' = tl (kbd_queue s))) \<and>
    (kbd_queue s \<noteq> [] \<longrightarrow> length (kbd_queue s) < 255 \<longrightarrow>
      kbd_queue ((kbd_push c s)\<lparr>kbd_tail := (kbd_tail s + 1) mod KBD_BUF_SIZE\<rparr>) = tl (kbd_queue s) @ [c])"
proof -
  have "kbd_queue ((kbd_push c s)\<lparr>kbd_tail := (kbd_tail s + 1) mod KBD_BUF_SIZE\<rparr>) = tl (kbd_queue s) @ [c]"
    if "kbd_queue s \<noteq> []" "length (kbd_queue s) < 255"
  proof -
    have "kbd_tail (kbd_push c s) = kbd_tail s" by (simp add: kbd_push_def Let_def)
    then show ?thesis using kbd.put_between [OF inv that, of c] getchar_nonempty(3) [OF inv that(1)]
      by (simp add: kbd_pop_def)
  qed
  then show ?thesis
    using delivers_queue [OF assms, of irqs] getchar_nonempty [OF inv] kbd_empty_iff [OF inv]
    by (auto simp: keyboard_has_data_def)
qed

theorem keyboard_is_fifo_witness:
  "kbd_queue (fold deliver [Irq_key 0x23, Irq_timer, Irq_key 0xA3, Irq_key 0x2A, Irq_key 0x17] kbd_demo) = str ''hI''"
proof -
  have "typed 0 [Irq_key 0x23, Irq_timer, Irq_key 0xA3, Irq_key 0x2A, Irq_key 0x17] = str ''hI''"
    by code_simp
  then show ?thesis
    using keyboard_is_fifo [OF kbd_demo_facts(1,2), of "[Irq_key 0x23, Irq_timer, Irq_key 0xA3, Irq_key 0x2A, Irq_key 0x17]"]
      kbd_demo_facts by (simp add: str_def)
qed

text \<open>
  C23. \<open>keyboard_getchar\<close> loses and reorders nothing: the characters waiting and the characters still
  to be typed are, in order, the one it returns followed by those waiting and to be typed
  afterwards. It waits for ever exactly when nothing is waiting and nothing more is typed.
\<close>

theorem keyboard_getchar_correct:
  fixes s :: "'a kbd_state_scheme"
  assumes "kbd_inv s" and "handlers_set s"
  shows "case keyboard_getchar irqs s of
      None \<Rightarrow> kbd_queue s @ typed (shift_held s) irqs = []
    | Some (c, irqs', s') \<Rightarrow> kbd_inv s' \<and> handlers_set s' \<and>
        kbd_queue s @ typed (shift_held s) irqs = c # kbd_queue s' @ typed (shift_held s') irqs'"
  by (rule getchar_conserves [OF assms])

theorem keyboard_getchar_correct_witness:
  "\<exists>irqs' s'. keyboard_getchar [Irq_timer, Irq_key 0x1E, Irq_key 0x30] kbd_demo = Some (0x61, irqs', s') \<and>
     kbd_queue s' @ typed (shift_held s') irqs' = [0x62]"
proof -
  have "typed 0 [Irq_timer, Irq_key 0x1E, Irq_key 0x30] = [0x61, 0x62]" by code_simp
  then show ?thesis
    using keyboard_getchar_correct [OF kbd_demo_facts(1,2), of "[Irq_timer, Irq_key 0x1E, Irq_key 0x30]"] kbd_demo_facts
    by (auto split: option.splits)
qed

end
