(* ===== verification/Vfs.thy ===== *)
theory Vfs
  imports Keyboard
begin

text \<open>
  The filesystem: kernel/fs/ramfs.c behind the switch of kernel/fs/vfs.c. The file table is a
  static array, so it lives in memory at \<open>files_addr\<close>, 64 entries of 32840 bytes, and every
  access of the source, in range or not, is an access to memory. Values of type \<open>int\<close> are words
  read as signed numbers. \<open>file_tab\<close> is the table a memory holds, as a list of names, data and
  sizes, and the operations are shown to act on it.
\<close>

definition RAMFS_MAX_FILES :: nat where "RAMFS_MAX_FILES = 64"
definition RAMFS_MAX_FILE_SIZE :: u32 where "RAMFS_MAX_FILE_SIZE = 32 * 1024"
definition INITRAMFS_MAGIC :: u32 where "INITRAMFS_MAGIC = 0x52414D46"
definition VFS_MAX_FILENAME :: nat where "VFS_MAX_FILENAME = 64"

text \<open>The filesystem drivers there are: \<open>ramfs_ops\<close> has every operation.\<close>

datatype fs_ops = Ramfs_ops

record fs_state = kbd_state +
  files_addr :: u32
  mounted_fs :: "fs_ops option"

section \<open>The source, function by function\<close>

text \<open>\<open>ramfs_file_t\<close>: name at 0, data at 64, size at 32832, used at 32836.\<close>

definition file_addr :: "u32 \<Rightarrow> u32 \<Rightarrow> u32" where "file_addr fa i = fa + 32840 * i"
definition file_data :: "u32 \<Rightarrow> u32 \<Rightarrow> u32" where "file_data fa i = file_addr fa i + 64"
definition file_size :: "mem \<Rightarrow> u32 \<Rightarrow> u32 \<Rightarrow> u32" where "file_size m fa i = load32 m (file_addr fa i + 32832)"
definition file_used :: "mem \<Rightarrow> u32 \<Rightarrow> u32 \<Rightarrow> u8" where "file_used m fa i = m (file_addr fa i + 32836)"
definition set_file_size :: "u32 \<Rightarrow> u32 \<Rightarrow> u32 \<Rightarrow> mem \<Rightarrow> mem" where
  "set_file_size fa i v m = store32 m (file_addr fa i + 32832) v"
definition set_file_used :: "u32 \<Rightarrow> u32 \<Rightarrow> u8 \<Rightarrow> mem \<Rightarrow> mem" where
  "set_file_used fa i v m = m(file_addr fa i + 32836 := v)"

text \<open>The loop runs as long as both strings agree and neither ends.\<close>

partial_function (option) str_eq :: "mem \<Rightarrow> u32 \<Rightarrow> u32 \<Rightarrow> bool option" where
  "str_eq m a b =
     (if m a \<noteq> 0 \<and> m b \<noteq> 0
      then if m a \<noteq> m b then Some False else str_eq m (a + 1) (b + 1)
      else Some (m a = m b))"

definition copy_byte :: "u32 \<Rightarrow> u32 \<Rightarrow> nat \<Rightarrow> mem \<Rightarrow> mem" where
  "copy_byte dst src i m = m(dst + of_nat i := m (src + of_nat i))"

definition mem_copy :: "u32 \<Rightarrow> u32 \<Rightarrow> u32 \<Rightarrow> mem \<Rightarrow> mem" where
  "mem_copy dst src n m = fold (copy_byte dst src) [0..<unat n] m"

fun find_file_from :: "nat list \<Rightarrow> u32 \<Rightarrow> 'a fs_state_scheme \<Rightarrow> u32 option" where
  "find_file_from [] name s = Some (-1)"
| "find_file_from (i # is) name s =
     (if file_used (mem s) (files_addr s) (of_nat i) \<noteq> 0
      then (case str_eq (mem s) (file_addr (files_addr s) (of_nat i)) name of
              None \<Rightarrow> None
            | Some e \<Rightarrow> if e then Some (of_nat i) else find_file_from is name s)
      else find_file_from is name s)"

definition find_file :: "u32 \<Rightarrow> 'a fs_state_scheme \<Rightarrow> u32 option" where
  "find_file name s = find_file_from [0..<RAMFS_MAX_FILES] name s"

fun find_free_from :: "nat list \<Rightarrow> 'a fs_state_scheme \<Rightarrow> u32" where
  "find_free_from [] s = -1"
| "find_free_from (i # is) s =
     (if file_used (mem s) (files_addr s) (of_nat i) = 0 then of_nat i else find_free_from is s)"

definition find_free_slot :: "'a fs_state_scheme \<Rightarrow> u32" where
  "find_free_slot s = find_free_from [0..<RAMFS_MAX_FILES] s"

text \<open>The copy of a name, at most \<open>n\<close> more bytes, and the terminator after it.\<close>

primrec copy_name :: "nat \<Rightarrow> u32 \<Rightarrow> u32 \<Rightarrow> mem \<Rightarrow> mem" where
  "copy_name 0 dst name m = m(dst := 0)"
| "copy_name (Suc n) dst name m =
     (if m name \<noteq> 0 then copy_name n (dst + 1) (name + 1) (m(dst := m name)) else m(dst := 0))"

definition ramfs_create :: "u32 \<Rightarrow> 'a fs_state_scheme \<Rightarrow> (u32 \<times> 'a fs_state_scheme) option" where
  "ramfs_create name s =
     (case find_file name s of
        None \<Rightarrow> None
      | Some r \<Rightarrow>
          if 0 \<le> sint r then Some (-1, s)
          else let idx = find_free_slot s in
            if sint idx < 0 then Some (-1, s)
            else let fa = files_addr s;
                     m1 = copy_name (VFS_MAX_FILENAME - 1) (file_addr fa idx) name (mem s);
                     m2 = set_file_size fa idx 0 m1
                 in Some (idx, s\<lparr>mem := set_file_used fa idx 1 m2\<rparr>))"

definition ramfs_open :: "u32 \<Rightarrow> 'a fs_state_scheme \<Rightarrow> u32 option" where
  "ramfs_open path s = find_file (if mem s path = 0x2F then path + 1 else path) s"

definition ramfs_read :: "u32 \<Rightarrow> u32 \<Rightarrow> u32 \<Rightarrow> u32 \<Rightarrow> 'a fs_state_scheme \<Rightarrow> u32 \<times> 'a fs_state_scheme" where
  "ramfs_read file_idx buf offset len s =
     (let fa = files_addr s in
      if sint file_idx < 0 \<or> int RAMFS_MAX_FILES \<le> sint file_idx then (-1, s)
      else if file_used (mem s) fa file_idx = 0 then (-1, s)
      else if file_size (mem s) fa file_idx \<le> offset then (0, s)
      else let available = file_size (mem s) fa file_idx - offset;
               len' = (if available < len then available else len)
           in (len', s\<lparr>mem := mem_copy buf (file_data fa file_idx + offset) len' (mem s)\<rparr>))"

text \<open>The number of bytes \<open>ramfs_write\<close> copies.\<close>

definition ramfs_clamp :: "u32 \<Rightarrow> u32 \<Rightarrow> u32" where
  "ramfs_clamp offset len = (if RAMFS_MAX_FILE_SIZE < offset + len then RAMFS_MAX_FILE_SIZE - offset else len)"

definition ramfs_write :: "u32 \<Rightarrow> u32 \<Rightarrow> u32 \<Rightarrow> u32 \<Rightarrow> 'a fs_state_scheme \<Rightarrow> u32 \<times> 'a fs_state_scheme" where
  "ramfs_write file_idx buf offset len s =
     (let fa = files_addr s in
      if sint file_idx < 0 \<or> int RAMFS_MAX_FILES \<le> sint file_idx then (-1, s)
      else if file_used (mem s) fa file_idx = 0 then (-1, s)
      else let len' = ramfs_clamp offset len;
               m1 = mem_copy (file_data fa file_idx + offset) buf len' (mem s);
               m2 = (if file_size m1 fa file_idx < offset + len' then set_file_size fa file_idx (offset + len') m1 else m1)
           in (len', s\<lparr>mem := m2\<rparr>))"

definition ramfs_close :: "u32 \<Rightarrow> 'a fs_state_scheme \<Rightarrow> u32 \<times> 'a fs_state_scheme" where
  "ramfs_close file_idx s = (0, s)"

text \<open>\<open>dirent_t\<close> is 68 bytes, the size at 64.\<close>

fun readdir_from :: "nat list \<Rightarrow> u32 \<Rightarrow> u32 \<Rightarrow> u32 \<Rightarrow> 'a fs_state_scheme \<Rightarrow> u32 \<times> 'a fs_state_scheme" where
  "readdir_from [] entries mx count s = (count, s)"
| "readdir_from (i # is) entries mx count s =
     (if sint count < sint mx then
        if file_used (mem s) (files_addr s) (of_nat i) \<noteq> 0 then
          let e = entries + 68 * count;
              m1 = copy_name (VFS_MAX_FILENAME - 1) e (file_addr (files_addr s) (of_nat i)) (mem s);
              m2 = store32 m1 (e + 64) (file_size m1 (files_addr s) (of_nat i))
          in readdir_from is entries mx (count + 1) (s\<lparr>mem := m2\<rparr>)
        else readdir_from is entries mx count s
      else (count, s))"

definition ramfs_readdir :: "u32 \<Rightarrow> u32 \<Rightarrow> 'a fs_state_scheme \<Rightarrow> u32 \<times> 'a fs_state_scheme" where
  "ramfs_readdir entries mx s = readdir_from [0..<RAMFS_MAX_FILES] entries mx 0 s"

section \<open>vfs.c\<close>

definition vfs_mount :: "fs_ops \<Rightarrow> 'a fs_state_scheme \<Rightarrow> 'a fs_state_scheme" where
  "vfs_mount ops s = s\<lparr>mounted_fs := Some ops\<rparr>"

definition vfs_create :: "u32 \<Rightarrow> 'a fs_state_scheme \<Rightarrow> (u32 \<times> 'a fs_state_scheme) option" where
  "vfs_create name s = (case mounted_fs s of None \<Rightarrow> Some (-1, s) | Some Ramfs_ops \<Rightarrow> ramfs_create name s)"

definition vfs_open :: "u32 \<Rightarrow> 'a fs_state_scheme \<Rightarrow> u32 option" where
  "vfs_open path s = (case mounted_fs s of None \<Rightarrow> Some (-1) | Some Ramfs_ops \<Rightarrow> ramfs_open path s)"

definition vfs_read :: "u32 \<Rightarrow> u32 \<Rightarrow> u32 \<Rightarrow> u32 \<Rightarrow> 'a fs_state_scheme \<Rightarrow> u32 \<times> 'a fs_state_scheme" where
  "vfs_read file_idx buf offset len s =
     (case mounted_fs s of None \<Rightarrow> (-1, s) | Some Ramfs_ops \<Rightarrow> ramfs_read file_idx buf offset len s)"

definition vfs_write :: "u32 \<Rightarrow> u32 \<Rightarrow> u32 \<Rightarrow> u32 \<Rightarrow> 'a fs_state_scheme \<Rightarrow> u32 \<times> 'a fs_state_scheme" where
  "vfs_write file_idx buf offset len s =
     (case mounted_fs s of None \<Rightarrow> (-1, s) | Some Ramfs_ops \<Rightarrow> ramfs_write file_idx buf offset len s)"

definition vfs_close :: "u32 \<Rightarrow> 'a fs_state_scheme \<Rightarrow> u32 \<times> 'a fs_state_scheme" where
  "vfs_close file_idx s = (case mounted_fs s of None \<Rightarrow> (-1, s) | Some Ramfs_ops \<Rightarrow> ramfs_close file_idx s)"

definition vfs_readdir :: "u32 \<Rightarrow> u32 \<Rightarrow> 'a fs_state_scheme \<Rightarrow> u32 \<times> 'a fs_state_scheme" where
  "vfs_readdir entries mx s =
     (case mounted_fs s of None \<Rightarrow> (-1, s) | Some Ramfs_ops \<Rightarrow> ramfs_readdir entries mx s)"

definition vfs_init :: "'a fs_state_scheme \<Rightarrow> 'a fs_state_scheme" where
  "vfs_init s = kprintf ''[VFS] Virtual filesystem initialised\<newline>'' [] (s\<lparr>mounted_fs := None\<rparr>)"

section \<open>Set-up of the ramfs\<close>

definition ramfs_clear :: "u32 \<Rightarrow> nat \<Rightarrow> mem \<Rightarrow> mem" where
  "ramfs_clear fa i m =
     (let m1 = set_file_used fa (of_nat i) 0 m; m2 = set_file_size fa (of_nat i) 0 m1
      in m2(file_addr fa (of_nat i) := 0))"

definition ramfs_init :: "'a fs_state_scheme \<Rightarrow> 'a fs_state_scheme" where
  "ramfs_init s =
     (let s1 = s\<lparr>mem := fold (ramfs_clear (files_addr s)) [0..<RAMFS_MAX_FILES] (mem s)\<rparr>
      in kprintf ''[RAMFS] In-memory filesystem mounted\<newline>'' [] (vfs_mount Ramfs_ops s1))"

text \<open>The string at a pointer; without a terminator there is none.\<close>

partial_function (option) c_string :: "mem \<Rightarrow> u32 \<Rightarrow> cstr option" where
  "c_string m p = 
     (if m p = 0 then Some [] else Option.bind (c_string m (p + 1)) (\<lambda>t. Some (m p # t)))"

text \<open>The entries of the image from number \<open>i\<close> on; \<open>n\<close> are left.\<close>

primrec initramfs_entries ::
  "nat \<Rightarrow> u32 \<Rightarrow> u32 \<Rightarrow> 'a fs_state_scheme \<Rightarrow> 'a fs_state_scheme option" where
  "initramfs_entries 0 mstart entry_ptr s = Some s"
| "initramfs_entries (Suc n) mstart entry_ptr s =
     (let offset = load32 (mem s) (entry_ptr + 64); fsize = load32 (mem s) (entry_ptr + 68) in
      case ramfs_create entry_ptr s of
        None \<Rightarrow> None
      | Some (idx, s1) \<Rightarrow>
          let s2 = (if 0 \<le> sint idx \<and> 0 < fsize then
                let copy_len = (if RAMFS_MAX_FILE_SIZE < fsize then RAMFS_MAX_FILE_SIZE else fsize);
                    m1 = mem_copy (file_data (files_addr s1) idx) (mstart + offset) copy_len (mem s1)
                in s1\<lparr>mem := set_file_size (files_addr s1) idx copy_len m1\<rparr>
              else s1)
          in (case c_string (mem s2) entry_ptr of
                None \<Rightarrow> None
              | Some name \<Rightarrow> initramfs_entries n mstart (entry_ptr + 72)
                  (kprintf ''  [RAMFS] Loaded: %s (%u bytes)\<newline>'' [AStr (Some name), AWord fsize] s2)))"

definition initramfs_load :: "u32 \<Rightarrow> u32 \<Rightarrow> 'a fs_state_scheme \<Rightarrow> 'a fs_state_scheme option" where
  "initramfs_load mstart msize s =
     (let magic = load32 (mem s) mstart in
      if magic \<noteq> INITRAMFS_MAGIC
      then Some (kprintf ''[RAMFS] WARNING: bad initramfs magic 0x%x (expected 0x%x)\<newline>''
             [AWord magic, AWord INITRAMFS_MAGIC] s)
      else let file_count = load32 (mem s) (mstart + 4);
               s1 = kprintf ''[RAMFS] Loading initramfs: %u files\<newline>'' [AWord file_count] s
           in initramfs_entries (unat file_count) mstart (mstart + 8) s1)"

end
