(* ===== verification/Ramfs_table.thy ===== *)
theory Ramfs_table
  imports Vfs
begin

text \<open>
  The file table as data: \<open>file_tab s\<close> is the list of names, contents and sizes that the memory of
  a state holds at \<open>files_addr\<close>, \<open>fs_ok\<close> its well-formedness. Strings and byte copies in memory
  come first, then what a store does to the table, then every operation of the ramfs as a function
  on the table.
\<close>

section \<open>Strings and copies in memory\<close>

definition str_at :: "mem \<Rightarrow> u32 \<Rightarrow> cstr \<Rightarrow> bool" where
  "str_at m p cs \<longleftrightarrow> 0 \<notin> set cs \<and> load_bytes m p (length cs) = cs \<and> m (p + of_nat (length cs)) = 0"

lemma str_at_Nil [simp]: "str_at m p [] \<longleftrightarrow> m p = 0"
  by (simp add: str_at_def)

lemma str_at_Cons [simp]: "str_at m p (c # cs) \<longleftrightarrow> c \<noteq> 0 \<and> m p = c \<and> str_at m (p + 1) cs"
  by (auto simp: str_at_def add.assoc)

lemma str_at_unique: "str_at m p xs \<Longrightarrow> str_at m p ys \<Longrightarrow> xs = ys"
proof (induction xs arbitrary: p ys)
  case Nil
  then show ?case by (cases ys) auto
next
  case (Cons x xs)
  then show ?case by (cases ys) auto
qed

lemma c_string_at: "str_at m p cs \<Longrightarrow> c_string m p = Some cs"
  by (induction cs arbitrary: p) (simp_all add: c_string.simps)

text \<open>\<open>str_eq\<close> returns as soon as one of the strings has an end.\<close>

lemma str_eq_at: "str_at m a xs \<Longrightarrow> str_eq m a b = Some (str_at m b xs)"
proof (induction xs arbitrary: a b)
  case Nil
  then show ?case by (auto simp: str_eq.simps)
next
  case (Cons x xs)
  then show ?case by (subst str_eq.simps) auto
qed

lemma str_at_cstr_of:
  "0 \<in> set (load_bytes m p n) \<Longrightarrow> str_at m p (cstr_of (load_bytes m p n))"
proof (induction n arbitrary: p)
  case 0
  then show ?case by simp
next
  case (Suc n)
  then show ?case by (cases "m p = 0") (auto simp: cstr_of_def)
qed

lemma store_bytes_append: "store_bytes m a (xs @ ys) = store_bytes (store_bytes m a xs) (a + of_nat (length xs)) ys"
  by (induction xs arbitrary: m a) (simp_all add: add.assoc)

lemma load_bytes_add: "load_bytes m a (n + k) = load_bytes m a n @ load_bytes m (a + of_nat n) k"
  by (induction n arbitrary: a) (simp_all add: add.assoc)

lemma load_bytes_cong:
  "(\<And>x. unat a \<le> unat x \<Longrightarrow> unat x < unat a + n \<Longrightarrow> m x = m' x) \<Longrightarrow> unat a + n \<le> 2 ^ 32 \<Longrightarrow>
     load_bytes m a n = load_bytes m' a n"
proof (rule nth_equalityI)
  fix i
  assume cong: "\<And>x. unat a \<le> unat x \<Longrightarrow> unat x < unat a + n \<Longrightarrow> m x = m' x"
    and fit: "unat a + n \<le> 2 ^ 32" and i: "i < length (load_bytes m a n)"
  have "i < 2 ^ 32" using i fit by simp
  then have o: "unat (of_nat i :: u32) = i" by (rule unat_of_nat32)
  have "unat (a + of_nat i) = unat a + i" using unat_add_lt [of a "of_nat i"] i fit o by simp
  then show "load_bytes m a n ! i = load_bytes m' a n ! i"
    using i cong [of "a + of_nat i"] by (simp add: nth_load_bytes)
qed simp

definition apart_ranges :: "u32 \<Rightarrow> nat \<Rightarrow> u32 \<Rightarrow> nat \<Rightarrow> bool" where
  "apart_ranges a n b k \<longleftrightarrow> unat a + n \<le> 2 ^ 32 \<and> unat b + k \<le> 2 ^ 32 \<and>
     (unat a + n \<le> unat b \<or> unat b + k \<le> unat a)"

lemma load_store_apart:
  "apart_ranges a (length bs) b n \<Longrightarrow> load_bytes (store_bytes m a bs) b n = load_bytes m b n"
  by (rule load_bytes_cong) (auto simp: apart_ranges_def intro!: store_bytes_other)

lemma str_at_load: "str_at m p cs \<longleftrightarrow> 0 \<notin> set cs \<and> load_bytes m p (Suc (length cs)) = cs @ [0]"
proof (induction cs arbitrary: p)
  case Nil
  then show ?case by simp
next
  case (Cons c cs)
  then show ?case unfolding str_at_Cons Cons.IH by auto
qed

lemma str_at_store:
  assumes "str_at m p cs" and "apart_ranges a (length bs) p (Suc (length cs))"
  shows "str_at (store_bytes m a bs) p cs"
  using assms(1) unfolding str_at_load load_store_apart [OF assms(2)] .

text \<open>Copies between ranges that do not meet.\<close>

lemma of_nat_add_apart:
  assumes "unat (a :: u32) + n \<le> 2 ^ 32" and "i < n"
  shows "unat (a + of_nat i) = unat a + i"
proof -
  have "unat (of_nat i :: u32) = i" using assms by (intro unat_of_nat32) simp
  then show ?thesis using unat_add_lt [of a "of_nat i"] assms by simp
qed

lemma mem_copy_apart:
  assumes "apart_ranges dst (unat n) src (unat n)"
  shows "mem_copy dst src n m = store_bytes m dst (load_bytes m src (unat n))"
proof -
  have "fold (copy_byte dst src) [0..<k] m = store_bytes m dst (load_bytes m src k)"
    if "k \<le> unat n" for k
    using that
  proof (induction k)
    case 0
    then show ?case by simp
  next
    case (Suc k)
    have "apart_ranges dst k src k \<and> apart_ranges dst k (src + of_nat k) 1"
      using assms Suc.prems of_nat_add_apart [of src "unat n" k] by (auto simp: apart_ranges_def)
    then have "store_bytes m dst (load_bytes m src k) (src + of_nat k) = m (src + of_nat k)"
      by (intro store_bytes_other) (auto simp: apart_ranges_def)
    moreover have "load_bytes m src (Suc k) = load_bytes m src k @ [m (src + of_nat k)]"
      using load_bytes_add [of m src k 1] by simp
    ultimately show ?case using Suc by (simp add: store_bytes_append copy_byte_def [of _ _ k] del: load_bytes.simps)
  qed
  then show ?thesis unfolding mem_copy_def by blast
qed

lemma copy_name_store:
  assumes "str_at m name cs" and "apart_ranges dst (Suc n) name (Suc (length cs))"
  shows "copy_name n dst name m = store_bytes m dst (take n cs @ [0])"
  using assms
proof (induction n arbitrary: dst name cs m)
  case 0
  then show ?case by simp
next
  case (Suc n)
  show ?case
  proof (cases cs)
    case Nil
    then show ?thesis using Suc.prems by simp
  next
    case (Cons c ds)
    have d: "unat (dst + 1) = unat dst + 1" "unat (name + 1) = unat name + 1"
      using unat_add_one [of dst] unat_add_one [of name] Suc.prems(2) Cons by (auto simp: apart_ranges_def)
    have "str_at (store_bytes m dst [c]) (name + 1) ds"
      using Suc.prems Cons d by (intro str_at_store) (auto simp: apart_ranges_def)
    moreover have "apart_ranges (dst + 1) (Suc n) (name + 1) (Suc (length ds))"
      using Suc.prems(2) Cons d by (auto simp: apart_ranges_def)
    ultimately have "copy_name n (dst + 1) (name + 1) (m(dst := c)) = store_bytes (m(dst := c)) (dst + 1) (take n ds @ [0])"
      using Suc.IH [of "m(dst := c)" "name + 1" ds "dst + 1"] by (simp add: fun_upd_def)
    then show ?thesis using Suc.prems(1) Cons by auto
  qed
qed

section \<open>The file table a memory holds\<close>

record ram_file =
  rf_used :: bool
  rf_name :: cstr
  rf_data :: "u8 list"
  rf_size :: nat

definition file_at :: "mem \<Rightarrow> u32 \<Rightarrow> nat \<Rightarrow> ram_file" where
  "file_at m fa i =
     \<lparr>rf_used = (file_used m fa (of_nat i) \<noteq> 0),
      rf_name = cstr_of (load_bytes m (file_addr fa (of_nat i)) VFS_MAX_FILENAME),
      rf_data = load_bytes m (file_data fa (of_nat i)) (unat RAMFS_MAX_FILE_SIZE),
      rf_size = unat (file_size m fa (of_nat i))\<rparr>"

definition file_tab :: "'a fs_state_scheme \<Rightarrow> ram_file list" where
  "file_tab s = map (file_at (mem s) (files_addr s)) [0..<RAMFS_MAX_FILES]"

text \<open>The table does not wrap around, its names end and its sizes fit.\<close>

definition tab_ok :: "ram_file list \<Rightarrow> bool" where
  "tab_ok t \<longleftrightarrow> (\<forall>f \<in> set t. rf_used f \<longrightarrow> length (rf_name f) < VFS_MAX_FILENAME \<and> rf_size f \<le> unat RAMFS_MAX_FILE_SIZE)"

definition files_fit :: "u32 \<Rightarrow> bool" where
  "files_fit fa \<longleftrightarrow> unat fa + RAMFS_MAX_FILES * 32840 \<le> 2 ^ 32"

definition fs_ok :: "'a fs_state_scheme \<Rightarrow> bool" where
  "fs_ok s \<longleftrightarrow> files_fit (files_addr s) \<and> tab_ok (file_tab s)"

text \<open>A range of memory that does not meet the table.\<close>

definition off_table :: "'a fs_state_scheme \<Rightarrow> u32 \<Rightarrow> nat \<Rightarrow> bool" where
  "off_table s p n \<longleftrightarrow> apart_ranges (files_addr s) (RAMFS_MAX_FILES * 32840) p n"

lemmas ramfs_consts = RAMFS_MAX_FILES_def RAMFS_MAX_FILE_SIZE_def VFS_MAX_FILENAME_def

lemma length_file_tab [simp]: "length (file_tab s) = RAMFS_MAX_FILES"
  by (simp add: file_tab_def)

lemma nth_file_tab [simp]: "i < RAMFS_MAX_FILES \<Longrightarrow> file_tab s ! i = file_at (mem s) (files_addr s) i"
  by (simp add: file_tab_def)

lemma sint_small: "unat (n :: u32) < 2 ^ 31 \<Longrightarrow> sint n = int (unat n)"
proof -
  assume "unat n < 2 ^ 31"
  then have n: "unat n < 2147483648" by simp
  have u: "int (unat n) = uint n" by (simp only: uint_nat)
  then have "uint n < 2147483648" using n by linarith
  then show ?thesis using u by (simp add: sint32)
qed

lemma sint_minus_one: "sint (-1 :: u32) = -1"
  by simp

lemma file_idx_range: "sint (i :: u32) < 0 \<or> int RAMFS_MAX_FILES \<le> sint i \<longleftrightarrow> RAMFS_MAX_FILES \<le> unat i"
proof (cases "unat i < 2 ^ 31")
  case True
  show ?thesis unfolding sint_small [OF True] by linarith
next
  case False
  then have "2147483648 \<le> unat i" by simp
  then have "2147483648 \<le> uint i" by (simp only: uint_nat)
  then have "sint i < 0" using uint_bounded [of i] by (simp add: sint32)
  then show ?thesis using False by (simp add: ramfs_consts)
qed

lemma unat_file_addr:
  assumes "files_fit fa" and "i < RAMFS_MAX_FILES"
  shows "unat (file_addr fa (of_nat i)) = unat fa + 32840 * i"
proof -
  have i: "unat (of_nat i :: u32) = i"
    using assms(2) by (intro unat_of_nat32) (simp add: ramfs_consts)
  have "unat (32840 * of_nat i :: u32) = 32840 * i"
    using assms(2) i unat_of_nat32 [of "32840 * i"] by (simp add: ramfs_consts)
  then show ?thesis
    using assms unat_add_lt [of fa "32840 * of_nat i"] by (simp add: file_addr_def files_fit_def ramfs_consts)
qed

lemma unat_file_off:
  assumes "files_fit fa" and "i < RAMFS_MAX_FILES"
  shows "unat (file_addr fa (of_nat i) + 32832) = unat fa + 32840 * i + 32832"
    and "unat (file_addr fa (of_nat i) + 32836) = unat fa + 32840 * i + 32836"
    and "unat (file_data fa (of_nat i)) = unat fa + 32840 * i + 64"
    and "unat fa + 32840 * i + 32840 \<le> 2 ^ 32"
  using assms by (simp_all add: unat_add_num unat_file_addr file_data_def files_fit_def ramfs_consts)

lemma load_store_mid:
  assumes "unat a + n \<le> 2 ^ 32" and "k + length bs \<le> n"
  shows "load_bytes (store_bytes m (a + of_nat k) bs) a n =
    take k (load_bytes m a n) @ bs @ drop (k + length bs) (load_bytes m a n)"
proof (cases "bs = []")
  case True
  then show ?thesis by simp
next
  case False
  let ?l = "length bs" and ?m = "store_bytes m (a + of_nat k) bs"
  obtain r where n: "n = k + (?l + r)" using assms(2) by (metis add.assoc le_Suc_ex)
  have "k < n" using False assms(2) by (cases bs) auto
  then have k: "unat (a + of_nat k) = unat a + k" using assms(1) by (intro of_nat_add_apart [of a n])
  have c: "a + of_nat k + of_nat ?l = a + of_nat (k + ?l)" by simp
  have tail: "load_bytes ?m (a + of_nat (k + ?l)) r = load_bytes m (a + of_nat (k + ?l)) r"
  proof (cases r)
    case (Suc q)
    then have "unat (a + of_nat (k + ?l)) = unat a + (k + ?l)"
      using assms n by (intro of_nat_add_apart [of a n]) auto
    then show ?thesis using assms n k by (intro load_store_apart) (simp add: apart_ranges_def)
  qed simp
  have front: "load_bytes ?m a k = load_bytes m a k"
    using assms n k by (intro load_store_apart) (simp add: apart_ranges_def)
  have mid: "load_bytes ?m (a + of_nat k) ?l = bs"
    using assms n k by (intro load_store_bytes) simp
  show ?thesis
    unfolding n load_bytes_add c front mid tail by simp
qed

text \<open>What a store does to the entry it falls into and to the others.\<close>

definition in_entry :: "u32 \<Rightarrow> nat \<Rightarrow> u32 \<Rightarrow> bool" where
  "in_entry fa i x \<longleftrightarrow> unat fa + 32840 * i \<le> unat x \<and> unat x < unat fa + 32840 * i + 32840"

lemma in_entry_unique: "in_entry fa i x \<Longrightarrow> in_entry fa j x \<Longrightarrow> i = j"
  by (simp add: in_entry_def)

lemma file_at_cong:
  assumes "files_fit fa" and "i < RAMFS_MAX_FILES" and "\<And>x. in_entry fa i x \<Longrightarrow> m x = m' x"
  shows "file_at m fa i = file_at m' fa i"
proof -
  note a = unat_file_off [OF assms(1,2)] unat_file_addr [OF assms(1,2)]
  have u: "file_used m fa (of_nat i) = file_used m' fa (of_nat i)"
    unfolding file_used_def by (rule assms(3)) (simp add: in_entry_def a)
  have z: "file_size m fa (of_nat i) = file_size m' fa (of_nat i)"
    unfolding file_size_def by (rule load32_cong) (use assms(3) a in \<open>simp_all add: in_entry_def\<close>)
  have n: "load_bytes m (file_addr fa (of_nat i)) 64 = load_bytes m' (file_addr fa (of_nat i)) 64"
    by (rule load_bytes_cong) (use assms(3) a in \<open>simp_all add: in_entry_def\<close>)
  have d: "load_bytes m (file_data fa (of_nat i)) 32768 = load_bytes m' (file_data fa (of_nat i)) 32768"
    by (rule load_bytes_cong) (use assms(3) a in \<open>simp_all add: in_entry_def\<close>)
  show ?thesis using u z n d by (simp add: file_at_def ramfs_consts)
qed

lemma file_tab_update:
  assumes "files_fit (files_addr s)" and "i < RAMFS_MAX_FILES" and "\<And>x. \<not> in_entry (files_addr s) i x \<Longrightarrow> m x = mem s x"
  shows "file_tab (s\<lparr>mem := m\<rparr>) = (file_tab s)[i := file_at m (files_addr s) i]"
proof (rule nth_equalityI)
  fix j
  assume "j < length (file_tab (s\<lparr>mem := m\<rparr>))"
  then have j: "j < RAMFS_MAX_FILES" by simp
  then have "j \<noteq> i \<Longrightarrow> file_at m (files_addr s) j = file_at (mem s) (files_addr s) j"
    using assms by (intro file_at_cong) (blast dest: in_entry_unique)+
  then show "file_tab (s\<lparr>mem := m\<rparr>) ! j = (file_tab s)[i := file_at m (files_addr s) i] ! j"
    using j assms(2) by (simp add: nth_list_update)
qed simp

lemma file_tab_frame:
  assumes "files_fit (files_addr s)"
    and "\<And>x. unat (files_addr s) \<le> unat x \<Longrightarrow> unat x < unat (files_addr s) + RAMFS_MAX_FILES * 32840 \<Longrightarrow> m x = mem s x"
  shows "file_tab (s\<lparr>mem := m\<rparr>) = file_tab s"
  unfolding file_tab_def
  by (rule map_cong [OF refl]) (use assms in \<open>auto intro!: file_at_cong simp: in_entry_def ramfs_consts\<close>)

lemma file_at_store_data:
  assumes "files_fit fa" and "i < RAMFS_MAX_FILES" and "off + length bs \<le> 32768"
  defines "a \<equiv> file_data fa (of_nat i) + of_nat off"
  shows "file_at (store_bytes m a bs) fa i =
      (file_at m fa i)\<lparr>rf_data := take off (rf_data (file_at m fa i)) @ bs @ drop (off + length bs) (rf_data (file_at m fa i))\<rparr>"
    and "\<not> in_entry fa i x \<Longrightarrow> store_bytes m a bs x = m x"
proof -
  note b = unat_file_off [OF assms(1,2)] unat_file_addr [OF assms(1,2)]
  have a: "bs \<noteq> [] \<Longrightarrow> unat a = unat fa + 32840 * i + 64 + off"
    using assms(3) b unfolding a_def by (cases bs) (auto simp: of_nat_add_apart [of _ 32768])
  show out: "\<not> in_entry fa i x \<Longrightarrow> store_bytes m a bs x = m x"
    by (cases "bs = []") (use a assms(3) b in \<open>auto simp: in_entry_def intro!: store_bytes_other\<close>)
  have "load_bytes (store_bytes m a bs) (file_addr fa (of_nat i)) 64 = load_bytes m (file_addr fa (of_nat i)) 64"
    by (cases "bs = []") (use a assms(3) b in \<open>auto simp: apart_ranges_def intro!: load_store_apart\<close>)
  moreover have "load32 (store_bytes m a bs) (file_addr fa (of_nat i) + 32832) = load32 m (file_addr fa (of_nat i) + 32832)"
    by (cases "bs = []") (use a assms(3) b in \<open>auto intro!: load32_store_bytes_other\<close>)
  moreover have "store_bytes m a bs (file_addr fa (of_nat i) + 32836) = m (file_addr fa (of_nat i) + 32836)"
    by (cases "bs = []") (use a assms(3) b in \<open>auto intro!: store_bytes_other\<close>)
  moreover have "load_bytes (store_bytes m a bs) (file_data fa (of_nat i)) 32768 =
    take off (load_bytes m (file_data fa (of_nat i)) 32768) @ bs @ drop (off + length bs) (load_bytes m (file_data fa (of_nat i)) 32768)"
    unfolding a_def using assms(3) b by (intro load_store_mid) simp_all
  ultimately show "file_at (store_bytes m a bs) fa i =
      (file_at m fa i)\<lparr>rf_data := take off (rf_data (file_at m fa i)) @ bs @ drop (off + length bs) (rf_data (file_at m fa i))\<rparr>"
    by (simp add: file_at_def file_used_def file_size_def ramfs_consts)
qed

lemma file_at_set_size:
  assumes "files_fit fa" and "i < RAMFS_MAX_FILES"
  shows "file_at (set_file_size fa (of_nat i) v m) fa i = (file_at m fa i)\<lparr>rf_size := unat v\<rparr>"
    and "\<not> in_entry fa i x \<Longrightarrow> set_file_size fa (of_nat i) v m x = m x"
proof -
  note b = unat_file_off [OF assms(1,2)] unat_file_addr [OF assms(1,2)]
  let ?m = "store32 m (file_addr fa (of_nat i) + 32832) v"
  show out: "\<not> in_entry fa i x \<Longrightarrow> set_file_size fa (of_nat i) v m x = m x"
    unfolding set_file_size_def by (rule store32_other) (use b in \<open>auto simp: in_entry_def\<close>)
  have "load_bytes ?m (file_addr fa (of_nat i)) 64 = load_bytes m (file_addr fa (of_nat i)) 64"
    using b by (auto intro!: load_bytes_cong store32_other)
  moreover have "?m (file_addr fa (of_nat i) + 32836) = m (file_addr fa (of_nat i) + 32836)"
    using b by (intro store32_other) auto
  moreover have "load_bytes ?m (file_data fa (of_nat i)) 32768 = load_bytes m (file_data fa (of_nat i)) 32768"
    using b by (auto intro!: load_bytes_cong store32_other)
  ultimately show "file_at (set_file_size fa (of_nat i) v m) fa i = (file_at m fa i)\<lparr>rf_size := unat v\<rparr>"
    by (simp add: file_at_def file_used_def file_size_def set_file_size_def ramfs_consts)
qed

lemma file_at_set_used:
  assumes "files_fit fa" and "i < RAMFS_MAX_FILES"
  shows "file_at (set_file_used fa (of_nat i) v m) fa i = (file_at m fa i)\<lparr>rf_used := (v \<noteq> 0)\<rparr>"
    and "\<not> in_entry fa i x \<Longrightarrow> set_file_used fa (of_nat i) v m x = m x"
proof -
  note b = unat_file_off [OF assms(1,2)] unat_file_addr [OF assms(1,2)]
  let ?a = "file_addr fa (of_nat i) + 32836"
  show out: "\<not> in_entry fa i x \<Longrightarrow> set_file_used fa (of_nat i) v m x = m x"
    unfolding set_file_used_def using b by (auto simp: in_entry_def)
  have "load_bytes (m(?a := v)) (file_addr fa (of_nat i)) 64 = load_bytes m (file_addr fa (of_nat i)) 64"
    using b by (auto intro!: load_bytes_cong)
  moreover have "load32 (m(?a := v)) (file_addr fa (of_nat i) + 32832) = load32 m (file_addr fa (of_nat i) + 32832)"
    using b by (intro load32_upd_other) auto
  moreover have "load_bytes (m(?a := v)) (file_data fa (of_nat i)) 32768 = load_bytes m (file_data fa (of_nat i)) 32768"
    using b by (auto intro!: load_bytes_cong)
  ultimately show "file_at (set_file_used fa (of_nat i) v m) fa i = (file_at m fa i)\<lparr>rf_used := (v \<noteq> 0)\<rparr>"
    by (simp add: file_at_def file_used_def file_size_def set_file_used_def ramfs_consts)
qed

lemma file_at_store_name:
  assumes "files_fit fa" and "i < RAMFS_MAX_FILES" and "length cs < 64" and "0 \<notin> set cs"
  shows "file_at (store_bytes m (file_addr fa (of_nat i)) (cs @ [0])) fa i = (file_at m fa i)\<lparr>rf_name := cs\<rparr>"
    and "\<not> in_entry fa i x \<Longrightarrow> store_bytes m (file_addr fa (of_nat i)) (cs @ [0]) x = m x"
proof -
  note b = unat_file_off [OF assms(1,2)] unat_file_addr [OF assms(1,2)]
  let ?m = "store_bytes m (file_addr fa (of_nat i)) (cs @ [0])"
  show out: "\<not> in_entry fa i x \<Longrightarrow> ?m x = m x"
    by (rule store_bytes_other) (use b assms(3) in \<open>auto simp: in_entry_def\<close>)
  have "load_bytes ?m (file_addr fa (of_nat i)) 64 = cs @ 0 # drop (length cs + 1) (load_bytes m (file_addr fa (of_nat i)) 64)"
    using load_store_mid [of "file_addr fa (of_nat i)" 64 0 "cs @ [0]" m] assms(3) b by simp
  then have "cstr_of (load_bytes ?m (file_addr fa (of_nat i)) 64) = cs"
    using assms(4) by (simp add: cstr_of_def takeWhile_tail) (auto simp: takeWhile_eq_all_conv)
  moreover have "load32 ?m (file_addr fa (of_nat i) + 32832) = load32 m (file_addr fa (of_nat i) + 32832)"
    using b assms(3) by (intro load32_store_bytes_other) auto
  moreover have "?m (file_addr fa (of_nat i) + 32836) = m (file_addr fa (of_nat i) + 32836)"
    using b assms(3) by (intro store_bytes_other) auto
  moreover have "load_bytes ?m (file_data fa (of_nat i)) 32768 = load_bytes m (file_data fa (of_nat i)) 32768"
    using b assms(3) by (intro load_store_apart) (simp add: apart_ranges_def)
  ultimately show "file_at ?m fa i = (file_at m fa i)\<lparr>rf_name := cs\<rparr>"
    by (simp add: file_at_def file_used_def file_size_def ramfs_consts)
qed

section \<open>The operations act on the table\<close>

definition tab_find :: "cstr \<Rightarrow> ram_file list \<Rightarrow> nat option" where
  "tab_find nm t = List.find (\<lambda>i. rf_used (t ! i) \<and> rf_name (t ! i) = nm) [0..<length t]"

definition tab_free :: "ram_file list \<Rightarrow> nat option" where
  "tab_free t = List.find (\<lambda>i. \<not> rf_used (t ! i)) [0..<length t]"

definition tab_create :: "cstr \<Rightarrow> ram_file list \<Rightarrow> nat option \<times> ram_file list" where
  "tab_create nm t =
     (case tab_find nm t of
        Some _ \<Rightarrow> (None, t)
      | None \<Rightarrow>
          (case tab_free t of
             None \<Rightarrow> (None, t)
           | Some i \<Rightarrow> (Some i, t[i := (t ! i)\<lparr>rf_used := True, rf_name := take 63 nm, rf_size := 0\<rparr>])))"

definition file_content :: "ram_file \<Rightarrow> u8 list" where
  "file_content f = take (rf_size f) (rf_data f)"

definition file_write :: "nat \<Rightarrow> u8 list \<Rightarrow> ram_file \<Rightarrow> ram_file" where
  "file_write off bs f = f\<lparr>rf_data := take off (rf_data f) @ bs @ drop (off + length bs) (rf_data f),
     rf_size := max (rf_size f) (off + length bs)\<rparr>"

definition idx_ret :: "nat option \<Rightarrow> u32" where
  "idx_ret r = (case r of None \<Rightarrow> -1 | Some i \<Rightarrow> of_nat i)"

lemma idx_ret_sign: "(\<And>i. r = Some i \<Longrightarrow> i < RAMFS_MAX_FILES) \<Longrightarrow> 0 \<le> sint (idx_ret r) \<longleftrightarrow> r \<noteq> None"
proof (cases r)
  case (Some i)
  assume "\<And>i. r = Some i \<Longrightarrow> i < RAMFS_MAX_FILES"
  then have "i < 64" using Some by (simp add: ramfs_consts)
  then have "unat (of_nat i :: u32) = i" by (intro unat_of_nat32) simp
  then show ?thesis using Some sint_small [of "of_nat i"] \<open>i < 64\<close> by (simp add: idx_ret_def)
qed (simp add: idx_ret_def)

lemma tab_found: "tab_find nm t = Some i \<Longrightarrow> i < length t" "tab_free t = Some i \<Longrightarrow> i < length t \<and> \<not> rf_used (t ! i)"
  by (auto simp: tab_find_def tab_free_def find_Some_iff)

lemma used_file_at: "file_used m fa (of_nat i) = 0 \<longleftrightarrow> \<not> rf_used (file_at m fa i)"
  by (simp add: file_at_def)

text \<open>The name of a used entry is a string in memory, so that comparing with it comes to an end.\<close>

lemma file_name_at:
  assumes "length (rf_name (file_at m fa i)) < VFS_MAX_FILENAME"
  shows "str_at m (file_addr fa (of_nat i)) (rf_name (file_at m fa i))"
proof -
  have "length (takeWhile (\<lambda>b. b \<noteq> 0) bs) < length bs \<Longrightarrow> 0 \<in> set bs" for bs :: "u8 list"
    by (induction bs) (auto split: if_splits)
  then have "0 \<in> set (load_bytes m (file_addr fa (of_nat i)) 64)"
    using assms by (auto simp: file_at_def cstr_of_def ramfs_consts)
  then show ?thesis by (simp add: file_at_def ramfs_consts str_at_cstr_of)
qed

lemma fs_ok_entry:
  assumes "fs_ok s" and "i < RAMFS_MAX_FILES" and "rf_used (file_at (mem s) (files_addr s) i)"
  shows "length (rf_name (file_at (mem s) (files_addr s) i)) < VFS_MAX_FILENAME"
    and "rf_size (file_at (mem s) (files_addr s) i) \<le> unat RAMFS_MAX_FILE_SIZE"
proof -
  have "file_tab s ! i \<in> set (file_tab s)" using assms(2) by (intro nth_mem) simp
  then show "length (rf_name (file_at (mem s) (files_addr s) i)) < VFS_MAX_FILENAME"
    and "rf_size (file_at (mem s) (files_addr s) i) \<le> unat RAMFS_MAX_FILE_SIZE"
    using assms unfolding fs_ok_def tab_ok_def by (metis nth_file_tab)+
qed

lemma find_file_any:
  assumes "fs_ok s"
  shows "find_file p s = Some (idx_ret (List.find
    (\<lambda>i. rf_used (file_tab s ! i) \<and> str_at (mem s) p (rf_name (file_tab s ! i))) [0..<RAMFS_MAX_FILES]))"
proof -
  have "set is \<subseteq> {0..<RAMFS_MAX_FILES} \<Longrightarrow> find_file_from is p s = Some (idx_ret (List.find
    (\<lambda>i. rf_used (file_tab s ! i) \<and> str_at (mem s) p (rf_name (file_tab s ! i))) is))" for "is"
  proof (induction "is")
    case Nil
    then show ?case by (simp add: idx_ret_def)
  next
    case (Cons i "is")
    then have i: "i < RAMFS_MAX_FILES" by simp
    have "rf_used (file_at (mem s) (files_addr s) i) \<Longrightarrow> str_eq (mem s) (file_addr (files_addr s) (of_nat i)) p =
        Some (str_at (mem s) p (rf_name (file_at (mem s) (files_addr s) i)))"
      by (intro str_eq_at file_name_at fs_ok_entry [OF assms i])
    then show ?case using Cons i by (auto simp: idx_ret_def used_file_at)
  qed
  then show ?thesis by (simp add: find_file_def)
qed

lemma find_file_spec:
  assumes "fs_ok s" and "str_at (mem s) p nm"
  shows "find_file p s = Some (idx_ret (tab_find nm (file_tab s)))"
proof -
  have "str_at (mem s) p c \<longleftrightarrow> c = nm" for c using assms(2) str_at_unique by blast
  then show ?thesis using find_file_any [OF assms(1), of p] by (simp add: tab_find_def)
qed

lemma find_free_spec: "find_free_slot s = idx_ret (tab_free (file_tab s))"
proof -
  have "set is \<subseteq> {0..<RAMFS_MAX_FILES} \<Longrightarrow>
      find_free_from is s = idx_ret (List.find (\<lambda>i. \<not> rf_used (file_tab s ! i)) is)" for "is"
    by (induction "is") (auto simp: idx_ret_def used_file_at)
  then show ?thesis by (simp add: find_free_slot_def tab_free_def)
qed

text \<open>Only the table and nothing but the table is changed.\<close>

definition table_step :: "'a fs_state_scheme \<Rightarrow> 'a fs_state_scheme \<Rightarrow> bool" where
  "table_step s s' \<longleftrightarrow> s' = s\<lparr>mem := mem s'\<rparr> \<and>
     (\<forall>x. unat x < unat (files_addr s) \<or> unat (files_addr s) + RAMFS_MAX_FILES * 32840 \<le> unat x \<longrightarrow> mem s' x = mem s x)"

lemma table_stepI:
  assumes "i < RAMFS_MAX_FILES" and "\<And>x. \<not> in_entry (files_addr s) i x \<Longrightarrow> m x = mem s x"
  shows "table_step s (s\<lparr>mem := m\<rparr>)"
  unfolding table_step_def using assms by (auto simp: in_entry_def ramfs_consts)

lemma off_entry:
  assumes "off_table s p n" and "i < RAMFS_MAX_FILES"
  shows "unat p + n \<le> unat (files_addr s) + 32840 * i \<or> unat (files_addr s) + 32840 * i + 32840 \<le> unat p"
  using assms by (auto simp: off_table_def apart_ranges_def ramfs_consts)

lemma ramfs_create_spec:
  assumes ok: "fs_ok s" and nm: "str_at (mem s) p nm" and off: "off_table s p (Suc (length nm))"
  shows "\<exists>s'. ramfs_create p s = Some (idx_ret (fst (tab_create nm (file_tab s))), s') \<and>
    file_tab s' = snd (tab_create nm (file_tab s)) \<and> table_step s s'"
proof -
  have fits: "files_fit (files_addr s)" using ok by (simp add: fs_ok_def)
  have r: "0 \<le> sint (idx_ret (tab_find nm (file_tab s))) \<longleftrightarrow> tab_find nm (file_tab s) \<noteq> None"
    and r': "0 \<le> sint (idx_ret (tab_free (file_tab s))) \<longleftrightarrow> tab_free (file_tab s) \<noteq> None"
    using tab_found by (intro idx_ret_sign; fastforce)+
  have refl: "table_step s s" by (simp add: table_step_def)
  show ?thesis
  proof (cases "tab_find nm (file_tab s) \<noteq> None \<or> tab_free (file_tab s) = None")
    case True
    then show ?thesis using r r' refl
      by (auto simp: ramfs_create_def find_file_spec [OF ok nm] find_free_spec tab_create_def idx_ret_def split: option.splits)
  next
    case False
    then obtain i where f: "tab_find nm (file_tab s) = None" "tab_free (file_tab s) = Some i" by auto
    then have i: "i < RAMFS_MAX_FILES" using tab_found(2) by fastforce
    let ?fa = "files_addr s" and ?e = "file_addr (files_addr s) (of_nat i)"
    let ?m1 = "store_bytes (mem s) ?e (take 63 nm @ [0])"
    let ?m = "set_file_used ?fa (of_nat i) 1 (set_file_size ?fa (of_nat i) 0 ?m1)"
    have "apart_ranges ?e (Suc 63) p (Suc (length nm))"
      using off_entry [OF off i] unat_file_off(4) [OF fits i] unat_file_addr [OF fits i] off
      by (auto simp: apart_ranges_def off_table_def)
    then have "copy_name 63 ?e p (mem s) = ?m1" by (rule copy_name_store [OF nm])
    moreover have "0 \<notin> set (take 63 nm)" using nm by (auto simp: str_at_def dest: in_set_takeD)
    note n = file_at_store_name [OF fits i _ this, simplified]
    have "file_at ?m ?fa i = (file_tab s ! i)\<lparr>rf_used := True, rf_name := take 63 nm, rf_size := 0\<rparr>"
      using i by (simp add: file_at_set_used(1) [OF fits i] file_at_set_size(1) [OF fits i] n(1))
    moreover have out: "\<not> in_entry ?fa i x \<Longrightarrow> ?m x = mem s x" for x
      by (simp add: file_at_set_used(2) [OF fits i] file_at_set_size(2) [OF fits i] n(2))
    ultimately show ?thesis
      using f r r' file_tab_update [OF fits i out] table_stepI [OF i out]
      by (simp add: ramfs_create_def find_file_spec [OF ok nm] find_free_spec tab_create_def idx_ret_def Let_def VFS_MAX_FILENAME_def)
  qed
qed

lemma load_bytes_sub: "k + n \<le> l \<Longrightarrow> load_bytes m (a + of_nat k) n = take n (drop k (load_bytes m a l))"
proof -
  assume "k + n \<le> l"
  then obtain r where l: "l = k + (n + r)" by (metis add.assoc le_Suc_ex)
  show ?thesis unfolding l load_bytes_add by simp
qed

lemma length_rf_data [simp]: "length (rf_data (file_at m fa i)) = 32768"
  by (simp add: file_at_def ramfs_consts)

lemma unat_file_index: "i < RAMFS_MAX_FILES \<Longrightarrow> unat (of_nat i :: u32) = i"
  by (rule unat_of_nat32) (simp add: ramfs_consts)

lemma file_size_at: "unat (file_size m fa (of_nat i)) = rf_size (file_at m fa i)"
  by (simp add: file_at_def)

lemma ramfs_read_spec:
  fixes s :: "'a fs_state_scheme" and buf off len :: u32 and i :: nat
  assumes ok: "fs_ok s" and i: "i < RAMFS_MAX_FILES" and used: "rf_used (file_tab s ! i)"
  defines "bs \<equiv> take (unat len) (drop (unat off) (file_content (file_tab s ! i)))"
  assumes buf: "off_table s buf (length bs)"
  shows "ramfs_read (of_nat i) buf off len s = (of_nat (length bs), s\<lparr>mem := store_bytes (mem s) buf bs\<rparr>)"
proof -
  let ?fa = "files_addr s" and ?z = "file_size (mem s) (files_addr s) (of_nat i)"
  let ?d = "file_data ?fa (of_nat i)"
  have fits: "files_fit ?fa" using ok by (simp add: fs_ok_def)
  have z: "rf_size (file_tab s ! i) = unat ?z" using i by (simp add: file_size_at)
  have z32: "unat ?z \<le> 32768"
    using fs_ok_entry(2) [OF ok i] used i by (simp add: file_size_at RAMFS_MAX_FILE_SIZE_def)
  have guard: "\<not> (sint (of_nat i :: u32) < 0 \<or> int RAMFS_MAX_FILES \<le> sint (of_nat i :: u32))"
    unfolding file_idx_range using i by (simp add: unat_file_index)
  show ?thesis
  proof (cases "?z \<le> off")
    case True
    then have "bs = []" using z by (simp add: bs_def file_content_def word_le_nat_alt)
    then show ?thesis using guard used i True
      by (simp add: ramfs_read_def used_file_at)
  next
    case False
    let ?n = "if ?z - off < len then ?z - off else len"
    have a: "unat (?z - off) = unat ?z - unat off" using False by (simp add: unat_sub_le)
    then have n: "unat ?n = length bs"
      using z z32 i by (auto simp: bs_def file_content_def word_less_nat_alt)
    have data: "rf_data (file_tab s ! i) = load_bytes (mem s) ?d 32768"
      using i by (simp add: file_at_def RAMFS_MAX_FILE_SIZE_def)
    have lt: "unat off < unat ?z" using False by (simp add: word_le_nat_alt)
    have le: "unat off + unat ?n \<le> unat ?z" using a lt by (auto simp: word_less_nat_alt)
    have "load_bytes (mem s) (?d + off) (unat ?n) = take (unat ?n) (drop (unat off) (load_bytes (mem s) ?d (unat ?z)))"
      using load_bytes_sub [OF le, of "mem s" ?d] by simp
    also have "load_bytes (mem s) ?d (unat ?z) = file_content (file_tab s ! i)"
      using load_bytes_sub [of 0 "unat ?z" 32768 "mem s" ?d] z z32 by (simp add: file_content_def data)
    finally have l: "load_bytes (mem s) (?d + off) (unat ?n) = bs"
      unfolding n bs_def by (simp add: min_def)
    have d: "unat (?d + off) = unat ?fa + 32840 * i + 64 + unat off"
      using of_nat_add_apart [of ?d 32768 "unat off"] unat_file_off(3,4) [OF fits i] lt z32 by simp
    have "apart_ranges buf (unat ?n) (?d + off) (unat ?n)"
      using off_entry [OF buf i] d le z32 unat_file_off(4) [OF fits i] buf n
      by (auto simp: apart_ranges_def off_table_def)
    then have "mem_copy buf (?d + off) ?n (mem s) = store_bytes (mem s) buf bs"
      using l by (simp only: mem_copy_apart)
    moreover have "?n = of_nat (length bs)" unfolding n [symmetric] by simp
    ultimately show ?thesis using guard used i False
      by (simp add: ramfs_read_def used_file_at Let_def del: of_nat_unat)
  qed
qed

lemma ramfs_clamp_in_range:
  assumes "unat off \<le> 32768" and "unat off + unat len < 2 ^ 32"
  shows "unat (ramfs_clamp off len) = min (unat len) (32768 - unat off)"
proof -
  have "unat (off + len) = unat off + unat len" by (rule unat_add_lt [OF assms(2)])
  moreover have "unat (32768 - off) = 32768 - unat off"
    using assms(1) unat_sub_le [of off 32768] by (simp add: word_le_nat_alt)
  ultimately show ?thesis using assms by (auto simp: ramfs_clamp_def RAMFS_MAX_FILE_SIZE_def word_less_nat_alt min_def)
qed

lemma ramfs_write_spec:
  fixes s :: "'a fs_state_scheme" and buf off len :: u32 and i :: nat
  assumes ok: "fs_ok s" and i: "i < RAMFS_MAX_FILES" and used: "rf_used (file_tab s ! i)"
    and range: "unat off \<le> 32768" "unat off + unat len < 2 ^ 32"
  defines "bs \<equiv> load_bytes (mem s) buf (min (unat len) (32768 - unat off))"
  assumes buf: "off_table s buf (length bs)"
  shows "\<exists>s'. ramfs_write (of_nat i) buf off len s = (of_nat (length bs), s') \<and>
    file_tab s' = (file_tab s)[i := file_write (unat off) bs (file_tab s ! i)] \<and> table_step s s'"
proof -
  let ?fa = "files_addr s" and ?n = "ramfs_clamp off len"
  let ?d = "file_data ?fa (of_nat i)"
  have fits: "files_fit ?fa" using ok by (simp add: fs_ok_def)
  have n: "unat ?n = length bs" unfolding bs_def using ramfs_clamp_in_range [OF range] by simp
  have fit: "unat off + length bs \<le> 32768" using range by (simp add: bs_def)
  have guard: "\<not> (sint (of_nat i :: u32) < 0 \<or> int RAMFS_MAX_FILES \<le> sint (of_nat i :: u32))"
    unfolding file_idx_range using i by (simp add: unat_file_index)
  let ?m1 = "store_bytes (mem s) (?d + off) bs"
  have copy: "mem_copy (?d + off) buf ?n (mem s) = ?m1"
  proof (cases "bs = []")
    case True
    then show ?thesis using n by (simp add: mem_copy_def)
  next
    case False
    then have "unat off < 32768" using fit by (cases bs) auto
    then have "unat (?d + off) = unat ?fa + 32840 * i + 64 + unat off"
      using of_nat_add_apart [of ?d 32768 "unat off"] unat_file_off(3,4) [OF fits i] by simp
    then have "apart_ranges (?d + off) (unat ?n) buf (unat ?n)"
      using off_entry [OF buf i] fit unat_file_off(4) [OF fits i] buf n by (auto simp: apart_ranges_def off_table_def)
    then show ?thesis using n by (simp add: mem_copy_apart bs_def)
  qed
  note st = file_at_store_data [OF fits i fit, where m = "mem s", simplified]
  note z = file_at_set_size [OF fits i]
  have sum: "unat (off + ?n) = unat off + length bs" using fit n unat_add_lt [of off ?n] by simp
  let ?m2 = "if file_size ?m1 ?fa (of_nat i) < off + ?n then set_file_size ?fa (of_nat i) (off + ?n) ?m1 else ?m1"
  have lt: "file_size ?m1 ?fa (of_nat i) < off + ?n \<longleftrightarrow> rf_size (file_tab s ! i) < unat off + length bs"
    using i sum by (simp add: word_less_nat_alt file_size_at st(1))
  have "file_at ?m2 ?fa i = file_write (unat off) bs (file_tab s ! i)"
    using i sum lt by (simp add: z(1) st(1) file_write_def max_def)
  moreover have out: "\<not> in_entry ?fa i x \<Longrightarrow> ?m2 x = mem s x" for x using z(2) st(2) by simp
  moreover have "ramfs_write (of_nat i) buf off len s = (?n, s\<lparr>mem := ?m2\<rparr>)"
    using guard used i copy by (simp add: ramfs_write_def used_file_at Let_def)
  moreover have "?n = of_nat (length bs)" unfolding n [symmetric] by simp
  ultimately show ?thesis using file_tab_update [OF fits i out] table_stepI [OF i out] by auto
qed

section \<open>Invariants of the table\<close>

definition names_unique :: "ram_file list \<Rightarrow> bool" where
  "names_unique t \<longleftrightarrow> (\<forall>i < length t. \<forall>j < length t.
     rf_used (t ! i) \<longrightarrow> rf_used (t ! j) \<longrightarrow> rf_name (t ! i) = rf_name (t ! j) \<longrightarrow> i = j)"

lemma tab_find_None: "tab_find nm t = None \<longleftrightarrow> (\<forall>i < length t. rf_used (t ! i) \<longrightarrow> rf_name (t ! i) \<noteq> nm)"
  by (auto simp: tab_find_def find_None_iff)

lemma tab_find_Some:
  "tab_find nm t = Some i \<Longrightarrow> i < length t \<and> rf_used (t ! i) \<and> rf_name (t ! i) = nm"
  by (auto simp: tab_find_def find_Some_iff)

lemma tab_find_create:
  assumes "tab_find nm t = None" and "i < length t" and "rf_used f" and "rf_name f = nm"
  shows "tab_find nm (t[i := f]) = Some i"
proof (cases "tab_find nm (t[i := f])")
  case None
  then show ?thesis using assms unfolding tab_find_None by (metis length_list_update nth_list_update_eq)
next
  case (Some j)
  then show ?thesis using assms tab_find_Some [OF Some] unfolding tab_find_None
    by (metis length_list_update nth_list_update_neq)
qed

lemma tab_ok_update: "tab_ok t \<Longrightarrow> length (rf_name f) < VFS_MAX_FILENAME \<Longrightarrow> rf_size f \<le> unat RAMFS_MAX_FILE_SIZE \<Longrightarrow>
    tab_ok (t[i := f])"
  unfolding tab_ok_def using set_update_subset_insert [of t i f] by auto

lemma tab_ok_create: "tab_ok t \<Longrightarrow> tab_ok (snd (tab_create nm t))"
  by (auto simp: tab_create_def ramfs_consts split: option.splits intro!: tab_ok_update)

lemma names_unique_update:
  assumes "names_unique t" and "i < length t" and "\<And>j. j < length t \<Longrightarrow> j \<noteq> i \<Longrightarrow> rf_used (t ! j) \<Longrightarrow> rf_name (t ! j) \<noteq> rf_name f"
  shows "names_unique (t[i := f])"
  unfolding names_unique_def
proof (intro allI impI)
  fix j k
  assume "j < length (t[i := f])" and "k < length (t[i := f])" and "rf_used (t[i := f] ! j)" and "rf_used (t[i := f] ! k)"
    and "rf_name (t[i := f] ! j) = rf_name (t[i := f] ! k)"
  then show "j = k" using assms(1,2) assms(3) [of j] assms(3) [of k]
    by (cases "j = i"; cases "k = i") (auto simp: names_unique_def)
qed

lemma names_unique_create:
  "names_unique t \<Longrightarrow> length nm < VFS_MAX_FILENAME \<Longrightarrow> names_unique (snd (tab_create nm t))"
  by (auto simp: tab_create_def tab_find_None ramfs_consts split: option.splits
      intro!: names_unique_update dest: tab_found(2))

lemma file_write_ok:
  assumes "tab_ok t" and "i < length t" and "rf_used (t ! i)" and "off + length bs \<le> 32768"
  shows "tab_ok (t[i := file_write off bs (t ! i)])"
proof -
  have "t ! i \<in> set t" using assms(2) by simp
  then have "length (rf_name (t ! i)) < VFS_MAX_FILENAME \<and> rf_size (t ! i) \<le> unat RAMFS_MAX_FILE_SIZE"
    using assms(1,3) by (auto simp: tab_ok_def)
  then show ?thesis using assms(1,4) by (intro tab_ok_update) (auto simp: file_write_def RAMFS_MAX_FILE_SIZE_def)
qed

lemma file_write_content:
  assumes "off + length bs \<le> length (rf_data f)"
  shows "take (length bs) (drop off (file_content (file_write off bs f))) = bs"
proof -
  let ?k = "max (rf_size f) (off + length bs)" and ?r = "drop (off + length bs) (rf_data f)"
  have "drop off (take ?k (take off (rf_data f) @ bs @ ?r)) = take (?k - off) (bs @ ?r)"
    using assms by (simp add: drop_take)
  then show ?thesis by (simp add: file_content_def file_write_def)
qed

text \<open>Steps on the table keep everything else, and so the strings and buffers of the callers.\<close>

lemma table_step_eq: "table_step s s' \<Longrightarrow> s' = s\<lparr>mem := mem s'\<rparr>"
  unfolding table_step_def by (rule conjunct1)

lemma table_step_fields:
  assumes "table_step s s'"
  shows "files_addr s' = files_addr s" "mounted_fs s' = mounted_fs s"
  by (subst table_step_eq [OF assms], simp)+

lemma table_step_out:
  assumes "table_step s s'" and "off_table s p n"
  shows "load_bytes (mem s') p n = load_bytes (mem s) p n"
  using assms by (intro load_bytes_cong) (auto simp: table_step_def off_table_def apart_ranges_def)

lemma table_step_str:
  assumes "table_step s s'" and "str_at (mem s) p nm" and "off_table s p (Suc (length nm))"
  shows "str_at (mem s') p nm"
  using assms(2) unfolding str_at_load table_step_out [OF assms(1,3)] .

lemma table_step_off: "table_step s s' \<Longrightarrow> off_table s' p n = off_table s p n"
  by (simp add: off_table_def table_step_fields)

lemma table_step_trans: "table_step a b \<Longrightarrow> table_step b c \<Longrightarrow> table_step a c"
proof -
  assume ab: "table_step a b" and bc: "table_step b c"
  have "c = b\<lparr>mem := mem c\<rparr>" by (rule table_step_eq [OF bc])
  also have "\<dots> = a\<lparr>mem := mem c\<rparr>" by (subst table_step_eq [OF ab]) simp
  finally have "c = a\<lparr>mem := mem c\<rparr>" .
  then show ?thesis using ab bc table_step_fields(1) [OF ab] unfolding table_step_def by auto
qed

lemma store_off_table:
  assumes "off_table s p (length bs)" and "fs_ok s"
  shows "file_tab (s\<lparr>mem := store_bytes (mem s) p bs\<rparr>) = file_tab s"
  using assms by (intro file_tab_frame) (auto simp: fs_ok_def off_table_def apart_ranges_def intro!: store_bytes_other)

end
