(* ===== verification/Ramfs.thy ===== *)
theory Ramfs
  imports Ramfs_table
begin

text \<open>
  What the filesystem promises its callers: creating and opening files, reading back what was
  written, listing the files, and loading an initramfs image; and where it does not keep to it, lengths
  that wrap around and names that are too long.
\<close>

lemma kprintf_fs_fields [simp]:
  "files_addr (kprintf f args s) = files_addr s" "mounted_fs (kprintf f args s) = mounted_fs s"
  by (rule kprintf_frame [of f args s]; simp)+

lemma file_tab_cong: "mem s' = mem s \<Longrightarrow> files_addr s' = files_addr s \<Longrightarrow> file_tab s' = file_tab s"
  by (simp add: file_tab_def)

lemma fs_ok_cong: "mem s' = mem s \<Longrightarrow> files_addr s' = files_addr s \<Longrightarrow> fs_ok s' = fs_ok s"
  by (simp add: fs_ok_def file_tab_def)

lemma file_at_clear:
  assumes "files_fit fa" and "i < RAMFS_MAX_FILES"
  shows "file_at (ramfs_clear fa i m) fa i = (file_at m fa i)\<lparr>rf_used := False, rf_name := [], rf_size := 0\<rparr>"
    and "\<not> in_entry fa i x \<Longrightarrow> ramfs_clear fa i m x = m x"
  using file_at_store_name [OF assms, of "[]"] file_at_set_size [OF assms] file_at_set_used [OF assms]
  by (simp_all add: ramfs_clear_def)

lemma file_at_clear_all:
  fixes m :: mem
  assumes fits: "files_fit fa" and "k \<le> RAMFS_MAX_FILES"
  defines "m' \<equiv> fold (ramfs_clear fa) [0..<k] m"
  shows "(\<forall>j < k. file_at m' fa j = (file_at m fa j)\<lparr>rf_used := False, rf_name := [], rf_size := 0\<rparr>) \<and>
    (\<forall>x. (\<forall>j < k. \<not> in_entry fa j x) \<longrightarrow> m' x = m x)"
  using assms(2) unfolding m'_def
proof (induction k)
  case 0
  then show ?case by simp
next
  case (Suc k)
  let ?m = "fold (ramfs_clear fa) [0..<k] m"
  have k: "k < RAMFS_MAX_FILES" using Suc.prems by simp
  have "j < k \<Longrightarrow> file_at (ramfs_clear fa k ?m) fa j = file_at ?m fa j" for j
    using k by (intro file_at_cong [OF fits]) (auto simp: in_entry_def intro!: file_at_clear(2) [OF fits k])
  moreover have "file_at ?m fa k = file_at m fa k"
    using Suc k in_entry_unique by (intro file_at_cong [OF fits k]) (metis Suc_leD less_not_refl)
  moreover have "(\<forall>j < Suc k. \<not> in_entry fa j x) \<Longrightarrow> ramfs_clear fa k ?m x = m x" for x
    using Suc k by (simp add: file_at_clear(2) [OF fits k])
  ultimately show ?case using Suc k by (auto simp: less_Suc_eq file_at_clear(1) [OF fits k])
qed

lemma ramfs_init_spec:
  assumes "files_fit (files_addr s)"
  shows "file_tab (ramfs_init s) = map (\<lambda>f. f\<lparr>rf_used := False, rf_name := [], rf_size := 0\<rparr>) (file_tab s)"
    and "fs_ok (ramfs_init s)" and "names_unique (file_tab (ramfs_init s))"
    and "mounted_fs (ramfs_init s) = Some Ramfs_ops" and "files_addr (ramfs_init s) = files_addr s"
    and "off_table s p n \<Longrightarrow> load_bytes (mem (ramfs_init s)) p n = load_bytes (mem s) p n"
proof -
  let ?m = "fold (ramfs_clear (files_addr s)) [0..<RAMFS_MAX_FILES] (mem s)"
  note c = file_at_clear_all [OF assms order_refl, of "mem s"]
  have m: "mem (ramfs_init s) = ?m" and a: "files_addr (ramfs_init s) = files_addr s"
    and "mounted_fs (ramfs_init s) = Some Ramfs_ops"
    by (simp_all add: ramfs_init_def vfs_mount_def)
  then show "files_addr (ramfs_init s) = files_addr s" "mounted_fs (ramfs_init s) = Some Ramfs_ops" by simp_all
  show t: "file_tab (ramfs_init s) = map (\<lambda>f. f\<lparr>rf_used := False, rf_name := [], rf_size := 0\<rparr>) (file_tab s)"
    unfolding file_tab_def m a using c by simp
  show "fs_ok (ramfs_init s)" using assms a t by (auto simp: fs_ok_def tab_ok_def)
  show "names_unique (file_tab (ramfs_init s))" by (simp add: t names_unique_def)
  show "off_table s p n \<Longrightarrow> load_bytes (mem (ramfs_init s)) p n = load_bytes (mem s) p n"
    unfolding m using c
    by (intro load_bytes_cong) (auto simp: off_table_def apart_ranges_def in_entry_def ramfs_consts)
qed

section \<open>A filesystem with nothing in it\<close>

definition fs_demo :: fs_state where
  "fs_demo = ramfs_init (kbd_state.extend
     (kbd_demo\<lparr>mem := store_bytes (store_bytes (\<lambda>_. 0) 0x800 (str ''a.txt'' @ [0])) 0x1000 (str ''hello'')\<rparr>)
     (fs_state.fields 0x300000 None))"

lemma fs_demo_facts:
  "fs_ok fs_demo" "names_unique (file_tab fs_demo)" "mounted_fs fs_demo = Some Ramfs_ops" "files_addr fs_demo = 0x300000"
  "\<And>i. i < 64 \<Longrightarrow> \<not> rf_used (file_tab fs_demo ! i)"
  "str_at (mem fs_demo) 0x800 (str ''a.txt'')" "load_bytes (mem fs_demo) 0x1000 5 = str ''hello''"
proof -
  let ?s = "kbd_state.extend
     (kbd_demo\<lparr>mem := store_bytes (store_bytes (\<lambda>_. 0) 0x800 (str ''a.txt'' @ [0])) 0x1000 (str ''hello'')\<rparr>)
     (fs_state.fields 0x300000 None) :: fs_state"
  have a: "files_addr ?s = 0x300000" by (simp add: kbd_state.defs fs_state.defs)
  have fit: "files_fit (files_addr ?s)" unfolding a by (simp add: files_fit_def ramfs_consts)
  note i = ramfs_init_spec [OF fit]
  show "fs_ok fs_demo" "names_unique (file_tab fs_demo)" "mounted_fs fs_demo = Some Ramfs_ops" "files_addr fs_demo = 0x300000"
    unfolding fs_demo_def using i a by simp_all
  show "\<And>i. i < 64 \<Longrightarrow> \<not> rf_used (file_tab fs_demo ! i)"
    unfolding fs_demo_def i(1) by (simp add: ramfs_consts)
  have m: "mem ?s = store_bytes (store_bytes (\<lambda>_. 0) 0x800 (str ''a.txt'' @ [0])) 0x1000 (str ''hello'')"
    by (simp add: kbd_state.defs fs_state.defs)
  have off: "off_table ?s 0x800 6" "off_table ?s 0x1000 5"
    unfolding off_table_def a by (simp_all add: apart_ranges_def ramfs_consts)
  have "load_bytes (mem ?s) 0x800 6 = str ''a.txt'' @ [0]" "load_bytes (mem ?s) 0x1000 5 = str ''hello''"
    unfolding m by code_simp+
  then have l: "load_bytes (mem fs_demo) 0x800 6 = str ''a.txt'' @ [0]" and "load_bytes (mem fs_demo) 0x1000 5 = str ''hello''"
    unfolding fs_demo_def i(6) [OF off(1)] i(6) [OF off(2)] by blast+
  then show "load_bytes (mem fs_demo) 0x1000 5 = str ''hello''" by blast
  have "Suc (length (str ''a.txt'')) = 6" by (simp add: str_def)
  moreover have "0 \<notin> set (str ''a.txt'')" by code_simp
  ultimately show "str_at (mem fs_demo) 0x800 (str ''a.txt'')" unfolding str_at_load using l by presburger
qed

section \<open>Copies that overlap\<close>

lemma mem_copy_get:
  assumes "k < unat n" and "k + unat (src - dst) < 2 ^ 32"
  shows "mem_copy dst src n m (dst + of_nat k) = m (src + of_nat k)"
proof -
  let ?f = "copy_byte dst src"
  have inj: "dst + of_nat a = dst + of_nat b \<longleftrightarrow> a = b" if "a < 2 ^ 32" "b < 2 ^ 32" for a b
  proof -
    have "(of_nat a :: u32) = of_nat b \<longleftrightarrow> a = b" using that by (metis unat_of_nat32)
    then show ?thesis by simp
  qed
  have src: "src + of_nat a = dst + of_nat (a + unat (src - dst))" for a by simp
  have "(\<forall>a < j. a + unat (src - dst) < 2 ^ 32 \<longrightarrow> fold ?f [0..<j] m (dst + of_nat a) = m (src + of_nat a)) \<and>
    (\<forall>a. j \<le> a \<longrightarrow> a < 2 ^ 32 \<longrightarrow> fold ?f [0..<j] m (dst + of_nat a) = m (dst + of_nat a))" if "j < 2 ^ 32" for j
    using that
  proof (induction j)
    case 0
    then show ?case by simp
  next
    case (Suc j)
    let ?m = "fold ?f [0..<j] m"
    have IH: "a < j \<Longrightarrow> a + unat (src - dst) < 2 ^ 32 \<Longrightarrow> ?m (dst + of_nat a) = m (src + of_nat a)"
      "j \<le> a \<Longrightarrow> a < 2 ^ 32 \<Longrightarrow> ?m (dst + of_nat a) = m (dst + of_nat a)" for a
      using Suc by auto
    have s: "fold ?f [0..<Suc j] m = ?m(dst + of_nat j := ?m (src + of_nat j))" by (simp add: copy_byte_def)
    have new: "j + unat (src - dst) < 2 ^ 32 \<Longrightarrow> ?m (src + of_nat j) = m (src + of_nat j)"
      using IH(2) [of "j + unat (src - dst)"] unfolding src by simp
    show ?case unfolding s
    proof (intro conjI allI impI)
      fix a assume "a < Suc j" "a + unat (src - dst) < 2 ^ 32"
      then show "(?m(dst + of_nat j := ?m (src + of_nat j))) (dst + of_nat a) = m (src + of_nat a)"
        using IH(1) [of a] new Suc.prems inj [of a j] by (cases "a = j") auto
    next
      fix a assume "Suc j \<le> a" "a < 2 ^ 32"
      then show "(?m(dst + of_nat j := ?m (src + of_nat j))) (dst + of_nat a) = m (dst + of_nat a)"
        using IH(2) [of a] Suc.prems inj [of a j] by auto
    qed
  qed
  then show ?thesis using assms unat_bound32 [of n] unfolding mem_copy_def by auto
qed

lemma ramfs_clamp_wraps:
  assumes "unat off \<le> 32768" and "2 ^ 32 \<le> unat off + unat len"
  shows "ramfs_clamp off len = len" and "unat (off + len) \<le> 32768"
proof -
  show "unat (off + len) \<le> 32768"
    using assms unat_bound32 [of len] unat_word_ariths(1) [of off len] by (auto simp: mod_if)
  then show "ramfs_clamp off len = len" by (simp add: ramfs_clamp_def RAMFS_MAX_FILE_SIZE_def word_less_nat_alt)
qed

lemma ramfs_clamp_bounds:
  "unat off + unat (ramfs_clamp off len) \<le> 32768 \<longleftrightarrow> unat off \<le> 32768 \<and> unat off + unat len < 2 ^ 32"
proof (cases "unat off \<le> 32768 \<and> unat off + unat len < 2 ^ 32")
  case True
  then show ?thesis using ramfs_clamp_in_range [of off len] by auto
next
  case False
  have "32768 < unat off + unat (ramfs_clamp off len)"
  proof (cases "unat off \<le> 32768")
    case True
    then show ?thesis using False ramfs_clamp_wraps(1) [of off len] by simp
  qed simp
  then show ?thesis using False by simp
qed

section \<open>The filesystem as its callers see it\<close>

lemma vfs_ramfs:
  assumes "mounted_fs s = Some Ramfs_ops"
  shows "vfs_create p s = ramfs_create p s" "vfs_open p s = ramfs_open p s" "vfs_read i buf off len s = ramfs_read i buf off len s"
    "vfs_write i buf off len s = ramfs_write i buf off len s" "vfs_readdir e mx s = ramfs_readdir e mx s"
    "vfs_close i s = (0, s)"
  using assms by (simp_all add: vfs_create_def vfs_open_def vfs_read_def vfs_write_def vfs_readdir_def vfs_close_def ramfs_close_def)

lemma vfs_create_table:
  assumes "mounted_fs s = Some Ramfs_ops" and "fs_ok s" and "str_at (mem s) p nm" and "off_table s p (Suc (length nm))"
  obtains s' where "vfs_create p s = Some (idx_ret (fst (tab_create nm (file_tab s))), s')"
    and "file_tab s' = snd (tab_create nm (file_tab s))" and "table_step s s'" and "fs_ok s'"
    and "mounted_fs s' = Some Ramfs_ops" and "str_at (mem s') p nm" and "off_table s' p (Suc (length nm))"
proof -
  obtain s' where s': "ramfs_create p s = Some (idx_ret (fst (tab_create nm (file_tab s))), s')"
      "file_tab s' = snd (tab_create nm (file_tab s))" "table_step s s'"
    using ramfs_create_spec [OF assms(2-4)] by blast
  have "fs_ok s'" using assms(2) s' tab_ok_create by (simp add: fs_ok_def table_step_fields)
  then show ?thesis
    using that [of s'] s' assms by (simp add: vfs_ramfs table_step_fields table_step_off table_step_str)
qed

lemma open_plain:
  assumes "fs_ok s" and "str_at (mem s) p nm" and "hd0 nm \<noteq> 0x2F"
  shows "ramfs_open p s = Some (idx_ret (tab_find nm (file_tab s)))"
proof -
  have "mem s p \<noteq> 0x2F" using assms(2,3) by (cases nm) auto
  then show ?thesis using assms by (simp add: ramfs_open_def find_file_spec)
qed

lemma open_slash:
  assumes "fs_ok s" and "str_at (mem s) p (0x2F # nm)"
  shows "ramfs_open p s = Some (idx_ret (tab_find nm (file_tab s)))"
  using assms by (simp add: ramfs_open_def find_file_spec)



text \<open>The empty filesystem after \<open>vfs_create("a.txt")\<close>.\<close>

definition fs_file_demo :: fs_state where
  "fs_file_demo = snd (the (vfs_create 0x800 fs_demo))"

lemma fs_demo_free: "tab_free (file_tab fs_demo) = Some 0" "tab_find nm (file_tab fs_demo) = None"
proof -
  show "tab_free (file_tab fs_demo) = Some 0"
    using fs_demo_facts(5) unfolding tab_free_def
    by (simp add: ramfs_consts upt_conv_Cons del: nth_file_tab)
  show "tab_find nm (file_tab fs_demo) = None"
    using fs_demo_facts(5) unfolding tab_find_None by (simp add: ramfs_consts del: nth_file_tab)
qed

lemma fs_demo_off: "unat p + n \<le> 0x300000 \<Longrightarrow> off_table fs_demo p n"
  by (simp add: off_table_def fs_demo_facts(4) apart_ranges_def ramfs_consts)

lemma fs_file_demo_facts:
  "fs_ok fs_file_demo" "mounted_fs fs_file_demo = Some Ramfs_ops" "rf_used (file_tab fs_file_demo ! 0)"
  "rf_size (file_tab fs_file_demo ! 0) = 0" "files_addr fs_file_demo = 0x300000"
  "load_bytes (mem fs_file_demo) 0x1000 5 = str ''hello''"
proof -
  have l: "length (str ''a.txt'') = 5" by (simp add: str_def)
  obtain s' where s': "vfs_create 0x800 fs_demo = Some (idx_ret (fst (tab_create (str ''a.txt'') (file_tab fs_demo))), s')"
    "file_tab s' = snd (tab_create (str ''a.txt'') (file_tab fs_demo))" "table_step fs_demo s'" "fs_ok s'"
    "mounted_fs s' = Some Ramfs_ops"
    using vfs_create_table [OF fs_demo_facts(3,1,6)] fs_demo_off [of "0x800" "Suc 5"] l by auto
  have e: "fs_file_demo = s'" using s'(1) by (simp add: fs_file_demo_def)
  show "fs_ok fs_file_demo" "mounted_fs fs_file_demo = Some Ramfs_ops" "files_addr fs_file_demo = 0x300000"
    unfolding e using s' table_step_fields(1) [OF s'(3)] fs_demo_facts(4) by simp_all
  have "file_tab s' ! 0 = (file_tab fs_demo ! 0)\<lparr>rf_used := True, rf_name := take 63 (str ''a.txt''), rf_size := 0\<rparr>"
    unfolding s'(2) by (simp add: tab_create_def fs_demo_free ramfs_consts del: nth_file_tab)
  then show "rf_used (file_tab fs_file_demo ! 0)" "rf_size (file_tab fs_file_demo ! 0) = 0" unfolding e by simp_all
  show "load_bytes (mem fs_file_demo) 0x1000 5 = str ''hello''"
    unfolding e using table_step_out [OF s'(3), of "0x1000" 5] fs_demo_off [of "0x1000" 5] fs_demo_facts(7) by simp
qed

lemma fs_file_demo_off: "unat p + n \<le> 0x300000 \<Longrightarrow> off_table fs_file_demo p n"
  by (simp add: off_table_def fs_file_demo_facts(5) apart_ranges_def ramfs_consts)



text \<open>
  C26. A write that leaves its file: \<open>ramfs_write\<close> stays below 32768 bytes exactly when the position
  is at most 32768 and position plus length does not wrap around. When the sum wraps, the length is
  not reduced: the copy goes on over the \<open>used\<close> flag of the file and what lies behind it, and
  every byte it reaches before it comes to read what it wrote is set to the byte of the caller's
  buffer at that distance.
\<close>

theorem ramfs_write_wraps:
  assumes "mounted_fs s = Some Ramfs_ops" and "fs_ok s" and "i < 64" and "rf_used (file_tab s ! i)"
  defines "d \<equiv> file_data (files_addr s) (of_nat i)"
  shows "(unat off + unat (ramfs_clamp off len) \<le> 32768 \<longleftrightarrow> unat off \<le> 32768 \<and> unat off + unat len < 2 ^ 32) \<and>
    (unat off \<le> 32768 \<longrightarrow> 2 ^ 32 \<le> unat off + unat len \<longrightarrow>
      fst (vfs_write (of_nat i) buf off len s) = len \<and>
      (\<forall>k < unat len. 32772 \<le> unat off + k \<longrightarrow> unat off + k < 2 ^ 32 \<longrightarrow> k + unat (buf - (d + off)) < 2 ^ 32 \<longrightarrow>
        mem (snd (vfs_write (of_nat i) buf off len s)) (d + off + of_nat k) = mem s (buf + of_nat k)))"
proof (intro conjI impI allI)
  have i: "i < RAMFS_MAX_FILES" using assms(3) by (simp add: ramfs_consts)
  have guard: "\<not> (sint (of_nat i :: u32) < 0 \<or> int RAMFS_MAX_FILES \<le> sint (of_nat i :: u32))"
    unfolding file_idx_range using i by (simp add: unat_file_index)
  let ?m1 = "mem_copy (d + off) buf (ramfs_clamp off len) (mem s)"
  have w: "vfs_write (of_nat i) buf off len s = (ramfs_clamp off len, s\<lparr>mem :=
      if file_size ?m1 (files_addr s) (of_nat i) < off + ramfs_clamp off len
      then set_file_size (files_addr s) (of_nat i) (off + ramfs_clamp off len) ?m1 else ?m1\<rparr>)"
    using guard assms(1,4) i by (simp add: vfs_ramfs ramfs_write_def used_file_at Let_def d_def)
  show "unat off + unat (ramfs_clamp off len) \<le> 32768 \<longleftrightarrow> unat off \<le> 32768 \<and> unat off + unat len < 2 ^ 32"
    by (rule ramfs_clamp_bounds)
  assume wrap: "unat off \<le> 32768" "2 ^ 32 \<le> unat off + unat len"
  show "fst (vfs_write (of_nat i) buf off len s) = len" using w ramfs_clamp_wraps(1) [OF wrap] by simp
  fix k
  assume k: "k < unat len" "32772 \<le> unat off + k" "unat off + k < 2 ^ 32" "k + unat (buf - (d + off)) < 2 ^ 32"
  have e: "d + off + of_nat k = d + of_nat (unat off + k)" by simp
  have "(of_nat (unat off + k) :: u32) \<noteq> of_nat (32768 + j)" if "j < 4" for j
    using k(2,3) that unat_of_nat32 [of "unat off + k"] unat_of_nat32 [of "32768 + j"] by auto
  then have ne: "d + off + of_nat k \<noteq> d + of_nat (32768 + j)" if "j < 4" for j unfolding e using that by simp
  have "set_file_size (files_addr s) (of_nat i) v ?m1 (d + off + of_nat k) = ?m1 (d + off + of_nat k)" for v
    using ne [of 0] ne [of 1] ne [of 2] ne [of 3] by (simp add: set_file_size_def store32_def d_def file_data_def)
  then show "mem (snd (vfs_write (of_nat i) buf off len s)) (d + off + of_nat k) = mem s (buf + of_nat k)"
    using w ramfs_clamp_wraps(1) [OF wrap] mem_copy_get [OF k(1,4), of "mem s"] by simp
qed

theorem ramfs_write_wraps_witness:
  "fst (vfs_write 0 0x1000 1 0xFFFFFFFF fs_file_demo) = 0xFFFFFFFF \<and>
   file_used (mem (snd (vfs_write 0 0x1000 1 0xFFFFFFFF fs_file_demo))) 0x300000 0 = mem fs_file_demo 0x9003"
proof -
  have "fst (vfs_write 0 0x1000 1 0xFFFFFFFF fs_file_demo) = 0xFFFFFFFF"
    "mem (snd (vfs_write 0 0x1000 1 0xFFFFFFFF fs_file_demo)) 0x308044 = mem fs_file_demo 0x9003"
    using ramfs_write_wraps [OF fs_file_demo_facts(2,1) _ fs_file_demo_facts(3), where off = 1 and len = "0xFFFFFFFF" and buf = "0x1000"]
    by (auto simp: file_data_def file_addr_def fs_file_demo_facts(5) dest!: spec [where x = 32771])
  then show ?thesis by (simp add: file_used_def file_addr_def)
qed

text \<open>
  C27. A name of 64 characters or more is cut to its first 63 when the file is created, and not when
  it is looked up: the file just created cannot be opened under the name it was created with, and creating
  it again succeeds as long as an entry is free, which leaves two files of the same name.
\<close>

theorem long_names_are_lost:
  assumes "mounted_fs s = Some Ramfs_ops" and "fs_ok s" and "str_at (mem s) p nm" and "off_table s p (Suc (length nm))"
    and "64 \<le> length nm" and "hd0 nm \<noteq> 0x2F" and "tab_free (file_tab s) = Some i"
  shows "\<exists>s'. vfs_create p s = Some (of_nat i, s') \<and> vfs_open p s' = Some (-1) \<and>
    (\<forall>j. tab_free (file_tab s') = Some j \<longrightarrow>
      (\<exists>s''. vfs_create p s' = Some (of_nat j, s'') \<and> \<not> names_unique (file_tab s'')))"
proof -
  have lost: "tab_find nm (file_tab t) = None" if "fs_ok t" for t :: "'a fs_state_scheme"
    unfolding tab_find_None using fs_ok_entry(1) [OF that] assms(5)
    by (fastforce simp: ramfs_consts)
  have i: "i < RAMFS_MAX_FILES" using tab_found(2) [OF assms(7)] by simp
  let ?new = "\<lambda>f. f\<lparr>rf_used := True, rf_name := take 63 nm, rf_size := 0\<rparr>"
  obtain s' where s': "vfs_create p s = Some (idx_ret (fst (tab_create nm (file_tab s))), s')"
    "file_tab s' = snd (tab_create nm (file_tab s))" "table_step s s'" "fs_ok s'"
    "mounted_fs s' = Some Ramfs_ops" "str_at (mem s') p nm" "off_table s' p (Suc (length nm))"
    using vfs_create_table [OF assms(1-4)] by metis
  have 1: "vfs_create p s = Some (of_nat i, s')" "file_tab s' = (file_tab s)[i := ?new (file_tab s ! i)]"
    using s'(1,2) lost [OF assms(2)] assms(7) by (simp_all add: tab_create_def idx_ret_def)
  have 2: "vfs_open p s' = Some (-1)"
    using open_plain [OF s'(4,6) assms(6)] s'(5) lost [OF s'(4)] by (simp add: vfs_ramfs idx_ret_def)
  have 3: "\<exists>s''. vfs_create p s' = Some (of_nat j, s'') \<and> \<not> names_unique (file_tab s'')"
    if f: "tab_free (file_tab s') = Some j" for j
  proof -
    obtain s'' where s'': "vfs_create p s' = Some (idx_ret (fst (tab_create nm (file_tab s'))), s'')"
      "file_tab s'' = snd (tab_create nm (file_tab s'))"
      using vfs_create_table [OF s'(5,4,6,7)] by metis
    have j: "j < RAMFS_MAX_FILES" "\<not> rf_used (file_tab s' ! j)" using tab_found(2) [OF f] by (simp_all del: nth_file_tab)
    have fi: "file_tab s' ! i = ?new (file_tab s ! i)" unfolding 1(2) by (rule nth_list_update_eq) (use i in simp)
    then have "j \<noteq> i" using j(2) by auto
    moreover have t: "file_tab s'' = (file_tab s')[j := ?new (file_tab s' ! j)]"
      using s''(2) lost [OF s'(4)] f by (simp add: tab_create_def)
    ultimately have "file_tab s'' ! i = ?new (file_tab s ! i)" "file_tab s'' ! j = ?new (file_tab s' ! j)"
      unfolding t using j(1) fi by (simp_all del: nth_file_tab)
    then have "rf_used (file_tab s'' ! i)" "rf_used (file_tab s'' ! j)" "rf_name (file_tab s'' ! i) = rf_name (file_tab s'' ! j)"
      by simp_all
    then have "\<not> names_unique (file_tab s'')"
      using i j(1) \<open>j \<noteq> i\<close> unfolding names_unique_def by (metis length_file_tab)
    then show ?thesis using s''(1) lost [OF s'(4)] f by (auto simp: tab_create_def idx_ret_def)
  qed
  show ?thesis using 1(1) 2 3 by blast
qed


theorem long_names_are_lost_witness:
  "\<exists>s :: fs_state. \<exists>s'. str_at (mem s) 0x3000 (replicate 64 0x78) \<and>
     vfs_create 0x3000 s = Some (0, s') \<and> vfs_open 0x3000 s' = Some (-1)"
proof -
  let ?bs = "replicate 64 0x78 @ [0] :: u8 list"
  let ?s = "fs_demo\<lparr>mem := store_bytes (mem fs_demo) 0x3000 ?bs\<rparr>"
  have off: "off_table fs_demo 0x3000 (length ?bs)" by (rule fs_demo_off) simp
  have t: "file_tab ?s = file_tab fs_demo" by (rule store_off_table [OF off fs_demo_facts(1)])
  have ok: "fs_ok ?s" using fs_demo_facts(1) by (simp add: fs_ok_def t del: append_replicate_commute)
  have "mem (fs_demo\<lparr>mem := m\<rparr>) = m" for m by simp
  then have "load_bytes (mem ?s) 0x3000 (length ?bs) = ?bs" using load_store_bytes [of "0x3000" ?bs "mem fs_demo"] by (simp only: length_append) simp
  then have "load_bytes (mem ?s) 0x3000 (Suc (length (replicate 64 (0x78 :: u8)))) = ?bs" by (simp only: length_append) simp
  then have str: "str_at (mem ?s) 0x3000 (replicate 64 0x78)" unfolding str_at_load by simp
  have m: "mounted_fs ?s = Some Ramfs_ops" using fs_demo_facts(3) by simp
  have off': "off_table ?s 0x3000 (Suc (length (replicate 64 (0x78 :: u8))))"
    using off by (simp add: off_table_def)
  have "64 \<le> length (replicate 64 (0x78 :: u8))" and "hd0 (replicate 64 (0x78 :: u8)) \<noteq> 0x2F" by code_simp+
  moreover have "tab_free (file_tab ?s) = Some 0" unfolding t by (rule fs_demo_free)
  ultimately obtain s' where s': "vfs_create 0x3000 ?s = Some (of_nat 0, s')" "vfs_open 0x3000 s' = Some (-1)"
    using long_names_are_lost [OF m ok str off'] by blast
  have z: "(of_nat 0 :: u32) = 0" by simp
  show ?thesis by (rule exI [of _ ?s], rule exI [of _ s'], intro conjI str s' [unfolded z])
qed


section \<open>Listing the table\<close>

definition dirent_at :: "mem \<Rightarrow> u32 \<Rightarrow> nat \<Rightarrow> cstr \<times> nat" where
  "dirent_at m e j = (cstr_of (load_bytes m (e + 68 * of_nat j) 64), unat (load32 m (e + 68 * of_nat j + 64)))"

definition dirent_of :: "ram_file \<Rightarrow> cstr \<times> nat" where
  "dirent_of f = (rf_name f, rf_size f)"

lemma unat_dirent:
  assumes "unat (e :: u32) + 68 * mx \<le> 2 ^ 32" and "j < mx"
  shows "unat (e + 68 * of_nat j) = unat e + 68 * j" and "unat (e + 68 * of_nat j + 64) = unat e + 68 * j + 64"
proof -
  have "unat (of_nat (68 * j) :: u32) = 68 * j" using assms by (intro unat_of_nat32) simp
  then show a: "unat (e + 68 * of_nat j) = unat e + 68 * j"
    using unat_add_lt [of e "of_nat (68 * j)"] assms by simp
  then show "unat (e + 68 * of_nat j + 64) = unat e + 68 * j + 64"
    using assms by (subst unat_add_num) simp_all
qed

lemma dirent_at_cong:
  assumes "unat (e :: u32) + 68 * mx \<le> 2 ^ 32" and "j < mx"
    and "\<And>x. unat e + 68 * j \<le> unat x \<Longrightarrow> unat x < unat e + 68 * j + 68 \<Longrightarrow> m x = m' x"
  shows "dirent_at m e j = dirent_at m' e j"
proof -
  note u = unat_dirent [OF assms(1,2)]
  have "load_bytes m (e + 68 * of_nat j) 64 = load_bytes m' (e + 68 * of_nat j) 64"
    by (rule load_bytes_cong) (use assms u in auto)
  moreover have "load32 m (e + 68 * of_nat j + 64) = load32 m' (e + 68 * of_nat j + 64)"
    by (rule load32_cong) (use assms u in auto)
  ultimately show ?thesis by (simp add: dirent_at_def)
qed

text \<open>Writing one entry of the list.\<close>

lemma dirent_write:
  fixes m :: mem and e v :: u32
  assumes "unat e + 68 * mx \<le> 2 ^ 32" and "j < mx" and "length cs < 64" and "0 \<notin> set cs"
  defines "m' \<equiv> store32 (store_bytes m (e + 68 * of_nat j) (cs @ [0])) (e + 68 * of_nat j + 64) v"
  shows "dirent_at m' e j = (cs, unat v)"
    and "unat x < unat e + 68 * j \<or> unat e + 68 * j + 68 \<le> unat x \<Longrightarrow> m' x = m x"
proof -
  note u = unat_dirent [OF assms(1,2)]
  let ?e = "e + 68 * of_nat j" and ?m1 = "store_bytes m (e + 68 * of_nat j) (cs @ [0])"
  have "load_bytes m' ?e 64 = load_bytes ?m1 ?e 64"
    unfolding m'_def by (rule load_bytes_cong) (use assms u in \<open>auto intro!: store32_other\<close>)
  also have "\<dots> = cs @ 0 # drop (length cs + 1) (load_bytes m ?e 64)"
    using load_store_mid [of ?e 64 0 "cs @ [0]" m] assms u by simp
  finally have "cstr_of (load_bytes m' ?e 64) = cs"
    using assms(4) by (simp add: cstr_of_def takeWhile_tail) (auto simp: takeWhile_eq_all_conv)
  then show "dirent_at m' e j = (cs, unat v)" by (simp add: dirent_at_def m'_def)
  assume "unat x < unat e + 68 * j \<or> unat e + 68 * j + 68 \<le> unat x"
  then show "m' x = m x"
    unfolding m'_def using assms u by (subst store32_other, auto intro!: store_bytes_other)
qed

text \<open>The body of the loop of \<open>ramfs_readdir\<close> for a used entry.\<close>

lemma readdir_entry:
  fixes s :: "'a fs_state_scheme" and e :: u32 and c i mx :: nat
  assumes ok: "fs_ok s" and i: "i < RAMFS_MAX_FILES" and used: "rf_used (file_tab s ! i)"
    and e: "off_table s e (68 * mx)" and c: "c < mx"
  defines "p \<equiv> file_addr (files_addr s) (of_nat i)" and "d \<equiv> e + 68 * of_nat c"
  shows "\<exists>m. store32 (copy_name 63 d p (mem s)) (d + 64) (file_size (copy_name 63 d p (mem s)) (files_addr s) (of_nat i)) = m \<and>
    dirent_at m e c = dirent_of (file_tab s ! i) \<and>
    (\<forall>x. unat x < unat e + 68 * c \<or> unat e + 68 * c + 68 \<le> unat x \<longrightarrow> m x = mem s x)"
proof -
  let ?f = "file_tab s ! i" and ?z = "file_size (mem s) (files_addr s) (of_nat i)"
  let ?m1 = "store_bytes (mem s) d (rf_name ?f @ [0])"
  have fits: "files_fit (files_addr s)" using ok by (simp add: fs_ok_def)
  have room: "unat e + 68 * mx \<le> 2 ^ 32" using e by (simp add: off_table_def apart_ranges_def)
  have len: "length (rf_name ?f) < 64" using fs_ok_entry(1) [OF ok i] used i by (simp add: ramfs_consts)
  have str: "str_at (mem s) p (rf_name ?f)" unfolding p_def using file_name_at i len by (simp add: ramfs_consts)
  note u = unat_dirent [OF room c, folded d_def] and a = unat_file_addr [OF fits i, folded p_def]
    and b = unat_file_off [OF fits i] and off = off_entry [OF e i]
  have "apart_ranges d (Suc 63) p (Suc (length (rf_name ?f)))"
    using off u a b(4) len c room by (auto simp: apart_ranges_def)
  then have copy: "copy_name 63 d p (mem s) = ?m1" using copy_name_store [OF str] len by simp
  have z: "file_size ?m1 (files_addr s) (of_nat i) = ?z"
    unfolding file_size_def using off u b len c room by (intro load32_store_bytes_other) auto
  have nul: "0 \<notin> set (rf_name ?f)" using str by (simp add: str_at_def)
  note w = dirent_write [OF room c len nul, where m = "mem s" and v = ?z, folded d_def]
  show ?thesis unfolding copy z using w i by (auto simp: dirent_of_def file_size_at)
qed

lemma readdir_from_spec:
  assumes "set is \<subseteq> {0..<RAMFS_MAX_FILES}" and "fs_ok s" and "off_table s e (68 * unat mx)" and "unat mx < 2 ^ 31"
    and "c \<le> unat mx"
  shows "\<exists>s' fs. fs = take (unat mx - c) (filter rf_used (map ((!) (file_tab s)) is)) \<and>
    readdir_from is e mx (of_nat c) s = (of_nat (c + length fs), s') \<and> s' = s\<lparr>mem := mem s'\<rparr> \<and>
    (\<forall>x. unat x < unat e + 68 * c \<or> unat e + 68 * unat mx \<le> unat x \<longrightarrow> mem s' x = mem s x) \<and>
    map (dirent_at (mem s') e) [c..<c + length fs] = map dirent_of fs"
  using assms
proof (induction "is" arbitrary: c s)
  case Nil
  then show ?case by (auto intro!: exI [of _ s])
next
  case (Cons i "is")
  have i: "i < RAMFS_MAX_FILES" using Cons.prems(1) by simp
  have uc: "unat (of_nat c :: u32) = c" using Cons.prems(4,5) by (intro unat_of_nat32) simp
  have lt: "sint (of_nat c :: u32) < sint mx \<longleftrightarrow> c < unat mx"
    using sint_small [of "of_nat c"] sint_small [of mx] Cons.prems(4,5) uc by (simp only: of_nat_less_iff)
  have room: "unat e + 68 * unat mx \<le> 2 ^ 32" using Cons.prems(3) by (simp add: off_table_def apart_ranges_def)
  show ?case
  proof (cases "c < unat mx \<and> rf_used (file_tab s ! i)")
    case False
    then show ?thesis using Cons.IH [OF _ Cons.prems(2-5)] Cons.prems(1,5) i lt
      by (cases "c < unat mx") (auto simp: used_file_at intro!: exI [of _ s])
  next
    case True
    let ?f = "file_tab s ! i"
    note b = readdir_entry [OF Cons.prems(2) i _ Cons.prems(3), of c]
    obtain m where m: "dirent_at m e c = dirent_of ?f"
        "\<And>x. unat x < unat e + 68 * c \<or> unat e + 68 * c + 68 \<le> unat x \<Longrightarrow> m x = mem s x"
      and step: "readdir_from (i # is) e mx (of_nat c) s = readdir_from is e mx (of_nat (Suc c)) (s\<lparr>mem := m\<rparr>)"
      using b True i lt by (auto simp: used_file_at Let_def VFS_MAX_FILENAME_def add.commute)
    let ?s = "s\<lparr>mem := m\<rparr>"
    have t: "file_tab ?s = file_tab s"
      using Cons.prems(2,3) True m(2) by (intro file_tab_frame) (auto simp: fs_ok_def off_table_def apart_ranges_def)
    have ok: "fs_ok ?s" "off_table ?s e (68 * unat mx)" using Cons.prems(2,3) t by (simp_all add: fs_ok_def off_table_def)
    have sub: "set is \<subseteq> {0..<RAMFS_MAX_FILES}" and le: "Suc c \<le> unat mx" and me: "mem ?s = m"
      using Cons.prems(1) True by auto
    obtain s' fs where IH: "fs = take (unat mx - Suc c) (filter rf_used (map ((!) (file_tab s)) is))"
      "readdir_from is e mx (of_nat (Suc c)) ?s = (of_nat (Suc c + length fs), s')" "s' = ?s\<lparr>mem := mem s'\<rparr>"
      "\<forall>x. unat x < unat e + 68 * Suc c \<or> unat e + 68 * unat mx \<le> unat x \<longrightarrow> mem s' x = m x"
      "map (dirent_at (mem s') e) [Suc c..<Suc c + length fs] = map dirent_of fs"
      using Cons.IH [OF sub ok Cons.prems(4) le] unfolding t me by blast
    have "dirent_at (mem s') e c = dirent_at m e c" using IH(4) True by (intro dirent_at_cong [OF room]) auto
    moreover have n: "unat mx - c = Suc (unat mx - Suc c)" using le by simp
    moreover have "take (unat mx - c) (filter rf_used (map ((!) (file_tab s)) (i # is))) = ?f # fs"
      unfolding n IH(1) using True by (simp del: nth_file_tab)
    moreover have "\<forall>x. unat x < unat e + 68 * c \<or> unat e + 68 * unat mx \<le> unat x \<longrightarrow> mem s' x = mem s x"
      using IH(4) m(2) True by auto
    moreover have "[c..<c + length (?f # fs)] = c # [Suc c..<Suc c + length fs]" using upt_conv_Cons [of c "c + length (?f # fs)"] by (simp del: upt_Suc)
    moreover have "s' = s\<lparr>mem := mem s'\<rparr>" by (subst IH(3)) simp
    ultimately show ?thesis using step IH(2,5) m(1) by (intro exI [of _ s'] exI [of _ "?f # fs"]) simp
  qed
qed

text \<open>\<open>ramfs_readdir\<close> lists the used entries, as many as its caller has room for.\<close>

lemma ramfs_readdir_spec:
  assumes "fs_ok s" and "off_table s e (68 * unat mx)" and "unat mx < 2 ^ 31"
  defines "fs \<equiv> take (unat mx) (filter rf_used (file_tab s))"
  obtains s' where "ramfs_readdir e mx s = (of_nat (length fs), s')" "s' = s\<lparr>mem := mem s'\<rparr>"
    "\<And>x. unat x < unat e \<or> unat e + 68 * unat mx \<le> unat x \<Longrightarrow> mem s' x = mem s x"
    "map (dirent_at (mem s') e) [0..<length fs] = map dirent_of fs"
proof -
  have "map ((!) (file_tab s)) [0..<RAMFS_MAX_FILES] = file_tab s" by (metis length_file_tab map_nth)
  then show ?thesis
    using readdir_from_spec [of "[0..<RAMFS_MAX_FILES]" s e mx 0] assms(1-3) that
    by (auto simp: fs_def ramfs_readdir_def)
qed

section \<open>Loading an image\<close>

text \<open>What loading one file does to the table: its name is created, and if that worked, its bytes are stored.\<close>

definition tab_load :: "cstr \<times> u8 list \<Rightarrow> ram_file list \<Rightarrow> ram_file list" where
  "tab_load f t =
     (case tab_create (fst f) t of
        (None, t') \<Rightarrow> t'
      | (Some i, t') \<Rightarrow> t'[i := file_write 0 (take 32768 (snd f)) (t' ! i)])"

text \<open>An entry of an image at \<open>ep\<close>, and the bytes it points to, all off the table.\<close>

definition image_entry :: "'a fs_state_scheme \<Rightarrow> u32 \<Rightarrow> u32 \<Rightarrow> cstr \<times> u8 list \<Rightarrow> bool" where
  "image_entry s mstart ep f \<longleftrightarrow>
     str_at (mem s) ep (fst f) \<and> length (fst f) < VFS_MAX_FILENAME \<and> off_table s ep 72 \<and>
     length (snd f) < 2 ^ 32 \<and> load32 (mem s) (ep + 68) = of_nat (length (snd f)) \<and>
     off_table s (mstart + load32 (mem s) (ep + 64)) (length (snd f)) \<and>
     load_bytes (mem s) (mstart + load32 (mem s) (ep + 64)) (length (snd f)) = snd f"

lemma off_table_mono: "off_table s p n \<Longrightarrow> k \<le> n \<Longrightarrow> off_table s p k"
  by (auto simp: off_table_def apart_ranges_def)

lemma load32_bytes: "load_bytes m a 4 = load_bytes m' a 4 \<Longrightarrow> load32 m a = load32 m' a"
  by (simp add: load32_def numeral_eq_Suc add.commute)

lemma table_step_load32:
  assumes "table_step s s'" and "off_table s p 72" and "k + 4 \<le> 72"
  shows "load32 (mem s') (p + of_nat k) = load32 (mem s) (p + of_nat k)"
proof (rule load32_bytes)
  have "load_bytes (mem t) (p + of_nat k) 4 = take 4 (drop k (load_bytes (mem t) p 72))" for t :: "'a fs_state_scheme"
    using assms(3) by (rule load_bytes_sub)
  then show "load_bytes (mem s') (p + of_nat k) 4 = load_bytes (mem s) (p + of_nat k) 4"
    using table_step_out [OF assms(1,2)] by simp
qed

lemma image_entry_step:
  assumes "table_step s s'" and "image_entry s ms ep f"
  shows "image_entry s' ms ep f"
proof -
  have e: "off_table s ep 72" and "length (fst f) < 64" and str: "str_at (mem s) ep (fst f)"
    and d: "off_table s (ms + load32 (mem s) (ep + 64)) (length (snd f))"
    using assms(2) by (simp_all add: image_entry_def ramfs_consts)
  then have "off_table s ep (Suc (length (fst f)))" by (auto intro: off_table_mono)
  then show ?thesis
    using assms(2) table_step_load32 [OF assms(1) e, of 64] table_step_load32 [OF assms(1) e, of 68]
      table_step_str [OF assms(1) str] table_step_out [OF assms(1) d]
    by (simp add: image_entry_def table_step_off [OF assms(1)])
qed

lemma image_entry_cong:
  "mem s' = mem s \<Longrightarrow> files_addr s' = files_addr s \<Longrightarrow> image_entry s' ms ep f = image_entry s ms ep f"
  by (simp add: image_entry_def off_table_def)

text \<open>The bytes of a new file: a write at position 0.\<close>

lemma store_new_file:
  fixes s :: "'a fs_state_scheme"
  assumes ok: "fs_ok s" and i: "i < RAMFS_MAX_FILES" and "rf_used (file_tab s ! i)" and size: "rf_size (file_tab s ! i) = 0"
    and n: "unat n \<le> 32768" and src: "off_table s src (unat n)" "load_bytes (mem s) src (unat n) = bs"
  defines "m \<equiv> set_file_size (files_addr s) (of_nat i) n (mem_copy (file_data (files_addr s) (of_nat i)) src n (mem s))"
  shows "file_tab (s\<lparr>mem := m\<rparr>) = (file_tab s)[i := file_write 0 bs (file_tab s ! i)]" and "table_step s (s\<lparr>mem := m\<rparr>)"
proof -
  have fits: "files_fit (files_addr s)" using ok by (simp add: fs_ok_def)
  have len: "length bs = unat n" using src(2) by auto
  let ?d = "file_data (files_addr s) (of_nat i)"
  have "apart_ranges ?d (unat n) src (unat n)"
    using off_entry [OF src(1) i] src(1) n unat_file_off(3,4) [OF fits i] by (auto simp: apart_ranges_def off_table_def)
  then have m: "m = set_file_size (files_addr s) (of_nat i) n (store_bytes (mem s) ?d bs)"
    by (simp add: m_def mem_copy_apart src(2))
  have fit: "0 + length bs \<le> 32768" using len n by simp
  note st = file_at_store_data [OF fits i fit, simplified]
  note z = file_at_set_size [OF fits i]
  have out: "\<not> in_entry (files_addr s) i x \<Longrightarrow> m x = mem s x" for x unfolding m by (simp add: z(2) st(2))
  have "file_at m (files_addr s) i = file_write 0 bs (file_tab s ! i)"
    unfolding m using i size len by (simp add: z(1) st(1) file_write_def)
  then show "file_tab (s\<lparr>mem := m\<rparr>) = (file_tab s)[i := file_write 0 bs (file_tab s ! i)]"
    using file_tab_update [OF fits i out] by simp
  show "table_step s (s\<lparr>mem := m\<rparr>)" by (rule table_stepI [OF i out])
qed

lemma tab_create_new:
  assumes "tab_create nm t = (Some i, t')"
  shows "i < length t" "t' = t[i := (t ! i)\<lparr>rf_used := True, rf_name := take 63 nm, rf_size := 0\<rparr>]" "tab_find nm t = None"
  using assms tab_found(2) [of t i] by (auto simp: tab_create_def split: option.splits)

lemma tab_load_ok: "tab_ok t \<Longrightarrow> tab_ok (tab_load f t)" and length_tab_load [simp]: "length (tab_load f t) = length t"
proof -
  obtain r t' where c: "tab_create (fst f) t = (r, t')" by (cases "tab_create (fst f) t")
  have l: "length t' = length t" using c by (auto simp: tab_create_def split: option.splits)
  then show "length (tab_load f t) = length t" using c by (simp add: tab_load_def split: option.splits)
  assume ok: "tab_ok t"
  have ok': "tab_ok t'" using tab_ok_create [OF ok, of "fst f"] c by simp
  show "tab_ok (tab_load f t)"
  proof (cases r)
    case None
    then show ?thesis using c ok' by (simp add: tab_load_def)
  next
    case (Some i)
    have "rf_used (t' ! i)" using tab_create_new [OF c [unfolded Some]] by simp
    then have "tab_ok (t'[i := file_write 0 (take 32768 (snd f)) (t' ! i)])"
      using tab_create_new(1) [OF c [unfolded Some]] l by (intro file_write_ok [OF ok']) auto
    then show ?thesis using c Some by (simp add: tab_load_def)
  qed
qed

lemma initramfs_entry:
  assumes ok: "fs_ok s" and e: "image_entry s ms ep f"
  obtains s' where "initramfs_entries (Suc n) ms ep s = initramfs_entries n ms (ep + 72)
      (kprintf ''  [RAMFS] Loaded: %s (%u bytes)\<newline>'' [AStr (Some (fst f)), AWord (load32 (mem s) (ep + 68))] s')"
    "file_tab s' = tab_load f (file_tab s)" "table_step s s'"
proof -
  let ?z = "load32 (mem s) (ep + 68)" and ?src = "ms + load32 (mem s) (ep + 64)"
  have f: "str_at (mem s) ep (fst f)" "length (fst f) < 64" "off_table s ep 72" "length (snd f) < 2 ^ 32"
    "?z = of_nat (length (snd f))" "off_table s ?src (length (snd f))" "load_bytes (mem s) ?src (length (snd f)) = snd f"
    using e by (simp_all add: image_entry_def ramfs_consts)
  have uz: "unat ?z = length (snd f)" using f(4,5) by (simp add: unat_of_nat32)
  obtain r t' where c: "tab_create (fst f) (file_tab s) = (r, t')" by (cases "tab_create (fst f) (file_tab s)")
  have off: "off_table s ep (Suc (length (fst f)))" using f(2) by (auto intro: off_table_mono [OF f(3)])
  obtain s1 where s1: "ramfs_create ep s = Some (idx_ret r, s1)" "file_tab s1 = t'" "table_step s s1"
    using ramfs_create_spec [OF ok f(1) off] c by auto
  have ok1: "fs_ok s1" using ok s1 c tab_ok_create [of "file_tab s" "fst f"] by (simp add: fs_ok_def table_step_fields)
  have sign: "0 \<le> sint (idx_ret r) \<longleftrightarrow> r \<noteq> None"
    using tab_create_new(1) c by (intro idx_ret_sign) fastforce
  have name: "c_string (mem s') ep = Some (fst f)" if "table_step s s'" for s'
    by (rule c_string_at) (rule table_step_str [OF that f(1) off])
  show ?thesis
  proof (cases "r \<noteq> None \<and> 0 < ?z")
    case False
    then have "file_tab s1 = tab_load f (file_tab s)"
    proof (cases r)
      case (Some i)
      then have "snd f = []" using False uz by (simp add: word_gt_0 unat_eq_0)
      then show ?thesis using Some c s1(2) tab_create_new [OF c [unfolded Some]] by (simp add: tab_load_def file_write_def)
    qed (simp add: tab_load_def c s1(2))
    then show ?thesis using that [of s1] s1 name [OF s1(3)] sign False by (auto simp: Let_def)
  next
    case True
    then obtain i where r: "r = Some i" by auto
    note new = tab_create_new [OF c [unfolded r]]
    let ?n = "if RAMFS_MAX_FILE_SIZE < ?z then RAMFS_MAX_FILE_SIZE else ?z"
    have n: "unat ?n \<le> 32768" "unat ?n = min (length (snd f)) 32768"
      using uz by (auto simp: RAMFS_MAX_FILE_SIZE_def word_less_nat_alt)
    have i: "i < RAMFS_MAX_FILES" using new(1) by simp
    have nf: "file_tab s1 ! i = (file_tab s ! i)\<lparr>rf_used := True, rf_name := take 63 (fst f), rf_size := 0\<rparr>"
      unfolding s1(2) new(2) by (rule nth_list_update_eq) (rule new(1))
    have src: "off_table s1 ?src (unat ?n)" using off_table_mono [OF f(6)] n(2) by (simp add: table_step_off [OF s1(3)])
    have "load_bytes (mem s1) ?src (length (snd f)) = snd f" using table_step_out [OF s1(3) f(6)] f(7) by simp
    then have bs: "load_bytes (mem s1) ?src (unat ?n) = take 32768 (snd f)"
      using load_bytes_sub [of 0 "unat ?n" "length (snd f)" "mem s1" ?src] n(2) by (simp add: min_def)
    let ?s2 = "s1\<lparr>mem := set_file_size (files_addr s1) (of_nat i) ?n (mem_copy (file_data (files_addr s1) (of_nat i)) ?src ?n (mem s1))\<rparr>"
    have st: "file_tab ?s2 = (file_tab s1)[i := file_write 0 (take 32768 (snd f)) (file_tab s1 ! i)]" "table_step s1 ?s2"
      by (rule store_new_file [OF ok1 i _ _ n(1) src bs]; use nf in simp)+
    have step: "table_step s ?s2" by (rule table_step_trans [OF s1(3) st(2)])
    have "file_tab ?s2 = tab_load f (file_tab s)" unfolding st(1) using c r s1(2) by (simp add: tab_load_def)
    then show ?thesis using that [of ?s2] s1(1) name [OF step] step sign True r by (simp add: Let_def idx_ret_def)
  qed
qed

lemma initramfs_entries_spec:
  assumes "fs_ok s" and "\<And>k. k < length es \<Longrightarrow> image_entry s ms (ep + 72 * of_nat k) (es ! k)"
  obtains s' where "initramfs_entries (length es) ms ep s = Some s'" "file_tab s' = fold tab_load es (file_tab s)"
    "fs_ok s'" "files_addr s' = files_addr s" "mounted_fs s' = mounted_fs s"
    "\<And>p n. off_table s p n \<Longrightarrow> load_bytes (mem s') p n = load_bytes (mem s) p n"
  using assms
proof (induction es arbitrary: ep s thesis)
  case Nil
  then show ?case by simp
next
  case (Cons f es)
  have e: "image_entry s ms ep f" using Cons.prems(3) [of 0] by simp
  obtain s1 where s1: "initramfs_entries (Suc (length es)) ms ep s = initramfs_entries (length es) ms (ep + 72)
      (kprintf ''  [RAMFS] Loaded: %s (%u bytes)\<newline>'' [AStr (Some (fst f)), AWord (load32 (mem s) (ep + 68))] s1)"
    "file_tab s1 = tab_load f (file_tab s)" "table_step s s1"
    by (rule initramfs_entry [OF Cons.prems(2) e])
  let ?s = "kprintf ''  [RAMFS] Loaded: %s (%u bytes)\<newline>'' [AStr (Some (fst f)), AWord (load32 (mem s) (ep + 68))] s1"
  have t: "file_tab ?s = file_tab s1" by (rule file_tab_cong) simp_all
  have ok: "fs_ok ?s"
    using Cons.prems(2) s1(2,3) tab_load_ok [of "file_tab s" f] t by (simp add: fs_ok_def table_step_fields)
  have "image_entry ?s ms (ep + 72 + 72 * of_nat k) (es ! k)" if "k < length es" for k
  proof -
    have "image_entry s ms (ep + 72 * of_nat (Suc k)) (es ! k)" using Cons.prems(3) [of "Suc k"] that by simp
    then have "image_entry s1 ms (ep + 72 + 72 * of_nat k) (es ! k)"
      using image_entry_step [OF s1(3)] by (simp add: distrib_left add.assoc)
    then show ?thesis by (simp add: image_entry_cong [of ?s s1])
  qed
  then obtain s' where s': "initramfs_entries (length es) ms (ep + 72) ?s = Some s'"
    "file_tab s' = fold tab_load es (file_tab ?s)" "fs_ok s'" "files_addr s' = files_addr ?s" "mounted_fs s' = mounted_fs ?s"
    "\<And>p n. off_table ?s p n \<Longrightarrow> load_bytes (mem s') p n = load_bytes (mem ?s) p n"
    using Cons.IH [OF _ ok] by blast
  show ?case
  proof (rule Cons.prems(1) [of s'])
    fix p n
    assume p: "off_table s p n"
    then have "off_table ?s p n" by (simp add: off_table_def table_step_fields [OF s1(3)])
    then show "load_bytes (mem s') p n = load_bytes (mem s) p n"
      using s'(6) table_step_out [OF s1(3) p] by simp
  qed (use s' s1 t in \<open>simp_all add: table_step_fields [OF s1(3)]\<close>)
qed

lemma initramfs_load_spec:
  assumes "fs_ok s" and "load32 (mem s) ms = INITRAMFS_MAGIC" and "load32 (mem s) (ms + 4) = of_nat (length es)"
    and "length es < 2 ^ 32" and "\<And>k. k < length es \<Longrightarrow> image_entry s ms (ms + 8 + 72 * of_nat k) (es ! k)"
  obtains s' where "initramfs_load ms n s = Some s'" "file_tab s' = fold tab_load es (file_tab s)"
    "fs_ok s'" "files_addr s' = files_addr s" "mounted_fs s' = mounted_fs s"
    "\<And>p n. off_table s p n \<Longrightarrow> load_bytes (mem s') p n = load_bytes (mem s) p n"
proof -
  let ?s = "kprintf ''[RAMFS] Loading initramfs: %u files\<newline>'' [AWord (of_nat (length es))] s"
  have ok: "fs_ok ?s" using assms(1) by (simp add: fs_ok_cong [of ?s s])
  have t: "file_tab ?s = file_tab s" by (rule file_tab_cong) simp_all
  have e: "image_entry ?s ms (ms + 8 + 72 * of_nat k) (es ! k)" if "k < length es" for k
    using assms(5) [OF that] by (simp add: image_entry_cong [of ?s s])
  obtain s' where s': "initramfs_entries (length es) ms (ms + 8) ?s = Some s'"
    "file_tab s' = fold tab_load es (file_tab ?s)" "fs_ok s'" "files_addr s' = files_addr ?s" "mounted_fs s' = mounted_fs ?s"
    "\<And>p n. off_table ?s p n \<Longrightarrow> load_bytes (mem s') p n = load_bytes (mem ?s) p n"
    by (rule initramfs_entries_spec [OF ok e]) blast+
  show ?thesis
  proof (rule that [of s'])
    show "initramfs_load ms n s = Some s'"
      using s'(1) assms(2-4) by (simp add: initramfs_load_def Let_def unat_of_nat32)
    show "load_bytes (mem s') p n = load_bytes (mem s) p n" if "off_table s p n" for p n
      using s'(6) [of p n] that by (simp add: off_table_def)
  qed (use s' t in simp_all)
qed

text \<open>Files with new and different names fill the free entries of the table one after the other.\<close>

definition tab_free_from :: "nat \<Rightarrow> ram_file list \<Rightarrow> bool" where
  "tab_free_from n t \<longleftrightarrow> (\<forall>i < length t. rf_used (t ! i) \<longleftrightarrow> i < n)"

lemma tab_free_next: "tab_free_from n t \<Longrightarrow> n < length t \<Longrightarrow> tab_free t = Some n"
  unfolding tab_free_def find_Some_iff tab_free_from_def by (auto intro!: exI [of _ n])

lemma tab_load_next:
  assumes "tab_free_from n t" and "n < length t" and "tab_find (fst f) t = None" and "length (fst f) < 64"
    and "length (rf_data (t ! n)) = 32768"
  shows "tab_free_from (Suc n) (tab_load f t)" and "i < length t \<Longrightarrow> i \<noteq> n \<Longrightarrow> tab_load f t ! i = t ! i"
    and "rf_name (tab_load f t ! n) = fst f" and "file_content (tab_load f t ! n) = take 32768 (snd f)"
    and "length (rf_data (tab_load f t ! n)) = 32768"
proof -
  have n: "tab_free t = Some n" by (rule tab_free_next [OF assms(1,2)])
  let ?g = "(t ! n)\<lparr>rf_used := True, rf_name := fst f, rf_size := 0\<rparr>"
  have l: "tab_load f t = t[n := file_write 0 (take 32768 (snd f)) ?g]"
    using n assms(2-4) by (simp add: tab_load_def tab_create_def)
  show "tab_free_from (Suc n) (tab_load f t)"
    unfolding l using assms(1,2) by (auto simp: tab_free_from_def nth_list_update file_write_def)
  show "i < length t \<Longrightarrow> i \<noteq> n \<Longrightarrow> tab_load f t ! i = t ! i" unfolding l by simp
  have g: "tab_load f t ! n = file_write 0 (take 32768 (snd f)) ?g" unfolding l using assms(2) by simp
  show "rf_name (tab_load f t ! n) = fst f" "length (rf_data (tab_load f t ! n)) = 32768"
    "file_content (tab_load f t ! n) = take 32768 (snd f)"
    unfolding g using assms(5) by (auto simp: file_write_def file_content_def min_def)
qed

lemma fold_tab_load:
  assumes "tab_free_from n t" and "n + length es \<le> length t" and "distinct (map fst es)"
    and "\<And>f. f \<in> set es \<Longrightarrow> length (fst f) < 64 \<and> tab_find (fst f) t = None"
    and "\<And>i. i < length t \<Longrightarrow> length (rf_data (t ! i)) = 32768"
  shows "tab_free_from (n + length es) (fold tab_load es t) \<and>
    (\<forall>i < n. fold tab_load es t ! i = t ! i) \<and>
    (\<forall>k < length es. rf_name (fold tab_load es t ! (n + k)) = fst (es ! k) \<and>
      file_content (fold tab_load es t ! (n + k)) = take 32768 (snd (es ! k)))"
  using assms
proof (induction es arbitrary: n t)
  case Nil
  then show ?case by simp
next
  case (Cons f es)
  let ?t = "tab_load f t"
  have n: "n < length t" using Cons.prems(2) by simp
  have f: "tab_find (fst f) t = None" "length (fst f) < 64" "length (rf_data (t ! n)) = 32768"
    using Cons.prems(4) [of f] Cons.prems(5) n by simp_all
  note l = tab_load_next [OF Cons.prems(1) n f]
  have nf: "tab_find (fst g) ?t = None" if g: "g \<in> set es" for g
  proof -
    have "fst g \<noteq> fst f" using Cons.prems(3) g by (force simp: image_iff)
    moreover have "tab_find (fst g) t = None" using Cons.prems(4) g by simp
    ultimately show ?thesis unfolding tab_find_None using l(2,3) by (metis length_tab_load)
  qed
  have d: "length (rf_data (?t ! i)) = 32768" if "i < length ?t" for i
    using that l(2) [of i] l(5) Cons.prems(5) by (cases "i = n") auto
  have IH: "tab_free_from (Suc n + length es) (fold tab_load es ?t) \<and>
    (\<forall>i < Suc n. fold tab_load es ?t ! i = ?t ! i) \<and>
    (\<forall>k < length es. rf_name (fold tab_load es ?t ! (Suc n + k)) = fst (es ! k) \<and>
      file_content (fold tab_load es ?t ! (Suc n + k)) = take 32768 (snd (es ! k)))"
    using Cons.prems nf d l(1) by (intro Cons.IH) auto
  show ?case
  proof (intro conjI allI impI)
    show "tab_free_from (n + length (f # es)) (fold tab_load (f # es) t)" using IH by simp
    show "fold tab_load (f # es) t ! i = t ! i" if "i < n" for i using IH l(2) [of i] that n by simp
    show "rf_name (fold tab_load (f # es) t ! (n + k)) = fst ((f # es) ! k)" if "k < length (f # es)" for k
      using IH l(3) that by (cases k) auto
    show "file_content (fold tab_load (f # es) t ! (n + k)) = take 32768 (snd ((f # es) ! k))" if "k < length (f # es)" for k
      using IH l(4) that by (cases k) auto
  qed
qed

end
