(* ===== verification/Mkramfs.thy ===== *)
theory Mkramfs
  imports Ramfs
begin

text \<open>
  The image builder of tools/mkramfs.c. It runs on the host: what the host answers for each name
  of the directory (whether it is a regular file, whether it can be opened, whether there is memory
  for it, the bytes read) is data of the model, a \<open>dir_ent\<close>, and so is whether the output file can be
  opened. The integers of the image are those of a little-endian host. The theorem of this theory joins the
  builder to the loader of ramfs.c.
\<close>

record dir_ent =
  d_name :: cstr
  is_regular :: bool
  fopen_ok :: bool
  malloc_ok :: bool
  file_bytes :: "u8 list"

record file_entry =
  fe_name :: "u8 list"
  fe_offset :: u32
  fe_size :: u32
  fe_data :: "u8 list"

datatype host_msg = Usage cstr | Perror cstr | Added cstr u32 | Created cstr nat u32

definition MAGIC :: u32 where "MAGIC = 0x52414D46"
definition NAME_LEN :: nat where "NAME_LEN = 64"
definition MAX_FILES :: nat where "MAX_FILES = 64"

text \<open>\<open>memset\<close> to zero and \<open>strncpy\<close> of at most 63 bytes.\<close>

definition name_field :: "cstr \<Rightarrow> u8 list" where
  "name_field nm = take (NAME_LEN - 1) nm @ replicate (NAME_LEN - length (take (NAME_LEN - 1) nm)) 0"

text \<open>The scan of the directory; \<open>fs\<close> are the files found so far.\<close>

fun scan_dir :: "cstr \<Rightarrow> dir_ent list \<Rightarrow> file_entry list \<Rightarrow> host_msg list \<Rightarrow> file_entry list \<times> host_msg list" where
  "scan_dir input_dir [] fs out = (fs, out)"
| "scan_dir input_dir (e # es) fs out =
     (if length fs < MAX_FILES then
        if hd0 (d_name e) = 0x2E then scan_dir input_dir es fs out
        else if \<not> is_regular e then scan_dir input_dir es fs out
        else if \<not> fopen_ok e then scan_dir input_dir es fs (out @ [Perror (take 511 (input_dir @ str ''/'' @ d_name e))])
        else if \<not> malloc_ok e then scan_dir input_dir es fs out
        else scan_dir input_dir es
          (fs @ [\<lparr>fe_name = name_field (d_name e), fe_offset = 0, fe_size = of_nat (length (file_bytes e)), fe_data = file_bytes e\<rparr>])
          (out @ [Added (d_name e) (of_nat (length (file_bytes e)))])
      else (fs, out))"

fun assign_offsets :: "u32 \<Rightarrow> file_entry list \<Rightarrow> file_entry list \<times> u32" where
  "assign_offsets data_offset [] = ([], data_offset)"
| "assign_offsets data_offset (f # fs) =
     (let (fs', d) = assign_offsets (data_offset + fe_size f) fs in (f\<lparr>fe_offset := data_offset\<rparr> # fs', d))"

definition le32 :: "u32 \<Rightarrow> u8 list" where
  "le32 v = [ucast v, ucast (drop_bit 8 v), ucast (drop_bit 16 v), ucast (drop_bit 24 v)]"

definition entry_bytes :: "file_entry \<Rightarrow> u8 list" where
  "entry_bytes f = fe_name f @ le32 (fe_offset f) @ le32 (fe_size f)"

definition data_bytes :: "file_entry \<Rightarrow> u8 list" where
  "data_bytes f = take (unat (fe_size f)) (fe_data f)"

definition image_bytes :: "file_entry list \<Rightarrow> u8 list" where
  "image_bytes fs = le32 MAGIC @ le32 (of_nat (length fs)) @ concat (map entry_bytes fs) @ concat (map data_bytes fs)"

text \<open>Exit code, messages, and the bytes of the output file if there is one.\<close>

definition mkramfs_main ::
  "cstr list \<Rightarrow> dir_ent list option \<Rightarrow> bool \<Rightarrow> nat \<times> host_msg list \<times> u8 list option" where
  "mkramfs_main argv dir out_ok =
     (if length argv \<noteq> 3 then (1, [Usage (case argv of [] \<Rightarrow> [] | a # _ \<Rightarrow> a)], None)
      else case dir of
        None \<Rightarrow> (1, [Perror (str ''opendir'')], None)
      | Some ents \<Rightarrow>
          let (fs, out) = scan_dir (argv ! 1) ents [] [];
              header_size = 8 + of_nat (length fs) * 72;
              (fs', data_offset) = assign_offsets header_size fs
          in if \<not> out_ok then (1, out @ [Perror (str ''fopen output'')], None)
             else (0, out @ [Created (argv ! 2) (length fs) data_offset], Some (image_bytes fs')))"

section \<open>The files of the image\<close>

definition kept :: "dir_ent \<Rightarrow> bool" where
  "kept e \<longleftrightarrow> hd0 (d_name e) \<noteq> 0x2E \<and> is_regular e \<and> fopen_ok e \<and> malloc_ok e"

definition packed :: "dir_ent list \<Rightarrow> (cstr \<times> u8 list) list" where
  "packed ents = map (\<lambda>e. (take 63 (d_name e), file_bytes e)) (take MAX_FILES (filter kept ents))"

definition new_entry :: "dir_ent \<Rightarrow> file_entry" where
  "new_entry e = \<lparr>fe_name = name_field (d_name e), fe_offset = 0, fe_size = of_nat (length (file_bytes e)), fe_data = file_bytes e\<rparr>"

lemma scan_dir_files:
  "length fs \<le> MAX_FILES \<Longrightarrow> fst (scan_dir d ents fs out) = fs @ map new_entry (take (MAX_FILES - length fs) (filter kept ents))"
proof (induction ents arbitrary: fs out)
  case Nil
  then show ?case by simp
next
  case (Cons e es)
  show ?case
  proof (cases "MAX_FILES - length fs")
    case (Suc m)
    then have "MAX_FILES - Suc (length fs) = m" "length fs < MAX_FILES" by simp_all
    then show ?thesis using Cons.IH Suc by (simp add: kept_def new_entry_def)
  qed (use Cons.prems in simp)
qed

lemma assign_offsets_at:
  "length (fst (assign_offsets d fs)) = length fs"
  "k < length fs \<Longrightarrow> fst (assign_offsets d fs) ! k = (fs ! k)\<lparr>fe_offset := d + sum_list (map fe_size (take k fs))\<rparr>"
proof (induction fs arbitrary: d k)
  case (Cons f fs)
  case 1
  then show ?case using Cons.IH(1) [of "d + fe_size f"] by (simp add: split_beta)
  case 2
  then show ?case using Cons.IH(2) [of "k - 1" "d + fe_size f"]
    by (cases k) (simp_all add: split_beta add.assoc)
qed simp_all

lemma concat_at: "k < length xs \<Longrightarrow> take (length (xs ! k)) (drop (length (concat (take k xs))) (concat xs)) = xs ! k"
proof (induction xs arbitrary: k)
  case (Cons x xs)
  then show ?case by (cases k) simp_all
qed simp

lemma concat_prefix: "k < length xs \<Longrightarrow> length (concat (take k xs)) + length (xs ! k) \<le> length (concat xs)"
proof (induction xs arbitrary: k)
  case (Cons x xs)
  then show ?case by (cases k) simp_all
qed simp

lemma load32_le32: "load_bytes m a 4 = le32 v \<Longrightarrow> load32 m a = v"
  using bytes_of_word32 [of v] by (simp add: load32_def le32_def numeral_eq_Suc add.commute)

lemma length_le32 [simp]: "length (le32 v) = 4"
  by (simp add: le32_def)

lemma length_name_field [simp]: "length (name_field nm) = 64"
  by (simp add: name_field_def NAME_LEN_def)

lemma length_concat_entries: "(\<And>f. f \<in> set fs \<Longrightarrow> length (fe_name f) = 64) \<Longrightarrow> length (concat (map entry_bytes fs)) = 72 * length fs"
  by (induction fs) (simp_all add: entry_bytes_def)

text \<open>Where the parts of the image are.\<close>

lemma image_parts:
  fixes fs :: "file_entry list"
  assumes names: "\<And>f. f \<in> set fs \<Longrightarrow> length (fe_name f) = 64" and k: "k < length fs"
  shows "take 4 (image_bytes fs) = le32 MAGIC" and "take 4 (drop 4 (image_bytes fs)) = le32 (of_nat (length fs))"
    and "take 72 (drop (8 + 72 * k) (image_bytes fs)) = entry_bytes (fs ! k)"
    and "take (length (data_bytes (fs ! k))) (drop (8 + 72 * length fs + length (concat (map data_bytes (take k fs)))) (image_bytes fs)) =
      data_bytes (fs ! k)"
    and "8 + 72 * k + 72 \<le> length (image_bytes fs)"
    and "8 + 72 * length fs + length (concat (map data_bytes (take k fs))) + length (data_bytes (fs ! k)) \<le> length (image_bytes fs)"
proof -
  let ?E = "concat (map entry_bytes fs)" and ?D = "concat (map data_bytes fs)"
  have E: "length ?E = 72 * length fs" by (rule length_concat_entries [OF names])
  have Ek: "length (concat (take k (map entry_bytes fs))) = 72 * k"
    using length_concat_entries [of "take k fs"] names k by (auto simp: take_map dest: in_set_takeD)
  have e: "length (entry_bytes (fs ! k)) = 72" using names k by (simp add: entry_bytes_def)
  show "take 4 (image_bytes fs) = le32 MAGIC" "take 4 (drop 4 (image_bytes fs)) = le32 (of_nat (length fs))"
    by (simp_all add: image_bytes_def)
  have i: "image_bytes fs = (le32 MAGIC @ le32 (of_nat (length fs))) @ ?E @ ?D" by (simp add: image_bytes_def)
  have "72 * k + 72 \<le> length ?E" using E k by simp
  then have "take 72 (drop (72 * k) (?E @ ?D)) = take 72 (drop (72 * k) ?E)" by simp
  also have "\<dots> = entry_bytes (fs ! k)" using concat_at [of k "map entry_bytes fs"] k e Ek by simp
  finally show "take 72 (drop (8 + 72 * k) (image_bytes fs)) = entry_bytes (fs ! k)"
    unfolding i drop_append by simp
  have "take (length (data_bytes (fs ! k))) (drop (length (concat (map data_bytes (take k fs)))) ?D) = data_bytes (fs ! k)"
    using concat_at [of k "map data_bytes fs"] k by (simp add: take_map)
  then show "take (length (data_bytes (fs ! k))) (drop (8 + 72 * length fs + length (concat (map data_bytes (take k fs)))) (image_bytes fs)) =
      data_bytes (fs ! k)"
    unfolding i using E by (simp add: add.commute)
  show "8 + 72 * k + 72 \<le> length (image_bytes fs)" using E k by (simp add: image_bytes_def)
  show "8 + 72 * length fs + length (concat (map data_bytes (take k fs))) + length (data_bytes (fs ! k)) \<le> length (image_bytes fs)"
    using concat_prefix [of k "map data_bytes fs"] k E by (simp add: image_bytes_def take_map)
qed

lemma off_table_sub:
  assumes "off_table s p n" and "a + k \<le> n"
  shows "off_table s (p + of_nat a) k"
proof (cases "unat p + a < 2 ^ 32")
  case True
  then have "unat (p + of_nat a) = unat p + a" by (intro of_nat_add_apart [of p "a + 1"]) simp_all
  then show ?thesis using assms by (auto simp: off_table_def apart_ranges_def)
next
  case False
  then have "unat p + a = 2 ^ 32" "k = 0" using assms by (auto simp: off_table_def apart_ranges_def)
  then have "unat (p + of_nat a) = 0"
    by (simp add: unat_word_ariths unat_of_nat mod_add_right_eq)
  then show ?thesis using assms \<open>k = 0\<close> by (simp add: off_table_def apart_ranges_def)
qed

lemma data_bytes_all: "fe_size f = of_nat (length (fe_data f)) \<Longrightarrow> length (fe_data f) < 2 ^ 32 \<Longrightarrow> data_bytes f = fe_data f"
  by (simp add: data_bytes_def unat_of_nat32)

lemma sum_sizes:
  "(\<And>f. f \<in> set fs \<Longrightarrow> fe_size f = of_nat (length (fe_data f)) \<and> length (fe_data f) < 2 ^ 32) \<Longrightarrow>
     sum_list (map fe_size fs) = of_nat (length (concat (map data_bytes fs)))"
  by (induction fs) (simp_all add: data_bytes_all)

lemma str_at_name_field:
  assumes "load_bytes m p 64 = name_field nm" and "0 \<notin> set nm"
  shows "str_at m p (take 63 nm)"
proof -
  have pad: "take (Suc (length t)) (t @ replicate (64 - length t) 0) = t @ [0]" if "length t \<le> 63" for t :: cstr
    using that by (simp add: Suc_diff_le)
  have "load_bytes m p (Suc (length (take 63 nm))) = take (Suc (length (take 63 nm))) (load_bytes m p 64)"
    using load_bytes_sub [of 0 "Suc (length (take 63 nm))" 64 m p] by simp
  also have "\<dots> = take 63 nm @ [0]" unfolding assms(1) name_field_def NAME_LEN_def
    using pad [of "take 63 nm"] by simp
  finally show ?thesis unfolding str_at_load using assms(2) by (auto dest: in_set_takeD)
qed

text \<open>An image in memory has the entries the loader looks for.\<close>

lemma image_in_memory:
  fixes s :: "'a fs_state_scheme" and fs :: "file_entry list"
  assumes img: "load_bytes (mem s) ms (length (image_bytes fs)) = image_bytes fs" "off_table s ms (length (image_bytes fs))"
    and k: "k < length fs" and names: "\<And>f. f \<in> set fs \<Longrightarrow> length (fe_name f) = 64"
    and nm: "fe_name (fs ! k) = name_field nm" "0 \<notin> set nm"
    and sizes: "\<And>f. f \<in> set fs \<Longrightarrow> fe_size f = of_nat (length (fe_data f)) \<and> length (fe_data f) < 2 ^ 32"
    and offset: "fe_offset (fs ! k) = 8 + of_nat (length fs) * 72 + sum_list (map fe_size (take k fs))"
  shows "image_entry s ms (ms + 8 + 72 * of_nat k) (take 63 nm, fe_data (fs ! k))"
proof -
  note p = image_parts [OF names k]
  let ?f = "fs ! k" and ?a = "8 + 72 * k"
  have ep: "ms + 8 + 72 * of_nat k = ms + of_nat ?a" by (simp add: add.assoc)
  have at: "load_bytes (mem s) (ms + of_nat (?a + b)) n = take n (drop b (entry_bytes ?f))" if "b + n \<le> 72" for b n
  proof -
    have "load_bytes (mem s) (ms + of_nat (?a + b)) n = take n (drop b (take 72 (drop ?a (image_bytes fs))))"
      using load_bytes_sub [of "?a + b" n "length (image_bytes fs)" "mem s" ms] p(5) that unfolding img(1)
      by (simp add: take_drop add.commute)
    then show ?thesis using p(3) by simp
  qed
  have l: "length (fe_name ?f) = 64" using names k by simp
  have "load_bytes (mem s) (ms + of_nat ?a) 64 = name_field nm" using at [of 0 64] l nm(1) by (simp add: entry_bytes_def)
  then have str: "str_at (mem s) (ms + of_nat ?a) (take 63 nm)" using nm(2) by (rule str_at_name_field)
  have "load_bytes (mem s) (ms + of_nat ?a + 64) 4 = le32 (fe_offset ?f)"
    using at [of 64 4] l by (simp add: entry_bytes_def add.assoc)
  then have off: "load32 (mem s) (ms + of_nat ?a + 64) = fe_offset ?f" by (rule load32_le32)
  have "load_bytes (mem s) (ms + of_nat ?a + 68) 4 = le32 (fe_size ?f)"
    using at [of 68 4] l by (simp add: entry_bytes_def add.assoc)
  then have size: "load32 (mem s) (ms + of_nat ?a + 68) = fe_size ?f" by (rule load32_le32)
  let ?b = "8 + 72 * length fs + length (concat (map data_bytes (take k fs)))"
  have "sum_list (map fe_size (take k fs)) = of_nat (length (concat (map data_bytes (take k fs))))"
    using sizes by (intro sum_sizes) (auto dest: in_set_takeD)
  then have data: "ms + fe_offset ?f = ms + of_nat ?b" unfolding offset by (simp add: algebra_simps)
  have d: "data_bytes ?f = fe_data ?f" using sizes k by (simp add: data_bytes_all)
  have "load_bytes (mem s) (ms + of_nat ?b) (length (fe_data ?f)) = fe_data ?f"
    using load_bytes_sub [of ?b "length (fe_data ?f)" "length (image_bytes fs)" "mem s" ms] p(4,6) d unfolding img(1) by simp
  moreover have "off_table s (ms + of_nat ?b) (length (fe_data ?f))" using off_table_sub [OF img(2), of ?b] p(6) d by simp
  moreover have "off_table s (ms + of_nat ?a) 72" using off_table_sub [OF img(2), of ?a 72] p(5) by simp
  ultimately show ?thesis
    unfolding ep using str off size data sizes k by (simp add: image_entry_def ramfs_consts)
qed

section \<open>Building and loading an image\<close>

lemma assign_offsets_sizes: "map fe_size (take k (fst (assign_offsets d fs))) = map fe_size (take k fs)"
  by (rule nth_equalityI) (auto simp: assign_offsets_at)

text \<open>The files of the image the tool writes.\<close>

lemma mkramfs_image:
  assumes "mkramfs_main argv (Some ents) True = (r, out, Some img)"
  obtains fs where "img = image_bytes fs" "length fs = length (packed ents)"
    "\<And>k. k < length fs \<Longrightarrow> \<exists>e \<in> set ents. packed ents ! k = (take 63 (d_name e), file_bytes e) \<and>
      fe_name (fs ! k) = name_field (d_name e) \<and> fe_data (fs ! k) = file_bytes e \<and> fe_size (fs ! k) = of_nat (length (file_bytes e)) \<and>
      fe_offset (fs ! k) = 8 + of_nat (length fs) * 72 + sum_list (map fe_size (take k fs))"
proof -
  define es where "es = take MAX_FILES (filter kept ents)"
  define gs where "gs = map new_entry es"
  define fs where "fs = fst (assign_offsets (8 + of_nat (length gs) * 72) gs)"
  have scan: "fst (scan_dir (argv ! 1) ents [] []) = gs"
    using scan_dir_files [of "[]" "argv ! 1" ents "[]"] by (simp add: gs_def es_def)
  have img: "img = image_bytes fs"
    using assms scan by (auto simp: mkramfs_main_def split_beta Let_def fs_def split: if_splits)
  have len: "length fs = length gs" unfolding fs_def by (rule assign_offsets_at)
  show ?thesis
  proof (rule that [OF img])
    show "length fs = length (packed ents)" using len by (simp add: packed_def gs_def es_def)
    fix k
    assume k: "k < length fs"
    have e: "es ! k \<in> set ents"
      using k len nth_mem [of k es] by (auto simp: gs_def es_def dest!: in_set_takeD)
    have "fs ! k = (new_entry (es ! k))\<lparr>fe_offset := 8 + of_nat (length fs) * 72 + sum_list (map fe_size (take k fs))\<rparr>"
      using assign_offsets_at(2) [of k gs "8 + of_nat (length gs) * 72", folded fs_def] k len
        assign_offsets_sizes [of k "8 + of_nat (length gs) * 72" gs, folded fs_def] by (simp add: gs_def)
    then show "\<exists>e \<in> set ents. packed ents ! k = (take 63 (d_name e), file_bytes e) \<and>
      fe_name (fs ! k) = name_field (d_name e) \<and> fe_data (fs ! k) = file_bytes e \<and> fe_size (fs ! k) = of_nat (length (file_bytes e)) \<and>
      fe_offset (fs ! k) = 8 + of_nat (length fs) * 72 + sum_list (map fe_size (take k fs))"
      using k len by (intro bexI [OF _ e]) (simp add: packed_def new_entry_def gs_def es_def)
  qed
qed

lemma packed_names:
  assumes "f \<in> set (packed ents)"
    and "\<And>e. e \<in> set ents \<Longrightarrow> 0 \<notin> set (d_name e) \<and> hd0 (d_name e) \<noteq> 0x2F \<and> length (file_bytes e) < 2 ^ 32"
  shows "length (fst f) < 64 \<and> hd0 (fst f) \<noteq> 0x2F"
proof -
  have h: "hd0 (take 63 nm) = hd0 nm" for nm by (cases nm) auto
  have "e \<in> set ents \<Longrightarrow> length (take 63 (d_name e)) < 64 \<and> hd0 (take 63 (d_name e)) \<noteq> 0x2F" for e
    using assms(2) [of e] h by simp
  moreover have "f \<in> (\<lambda>e. (take 63 (d_name e), file_bytes e)) ` set ents"
    using assms(1) by (auto simp: packed_def dest: in_set_takeD)
  ultimately show ?thesis by (auto simp del: length_take)
qed

lemma image_header:
  assumes "load_bytes m ms (length (image_bytes fs)) = image_bytes fs"
  shows "load32 m ms = INITRAMFS_MAGIC" and "load32 m (ms + 4) = of_nat (length fs)"
proof -
  let ?img = "image_bytes fs"
  have "8 \<le> length ?img" by (simp add: image_bytes_def)
  then have "load_bytes m ms 4 = take 4 ?img" "load_bytes m (ms + 4) 4 = take 4 (drop 4 ?img)"
    using load_bytes_sub [of 0 4 "length ?img" m ms] load_bytes_sub [of 4 4 "length ?img" m ms] assms by simp_all
  then show "load32 m ms = INITRAMFS_MAGIC" "load32 m (ms + 4) = of_nat (length fs)"
    by (auto simp: image_bytes_def MAGIC_def INITRAMFS_MAGIC_def intro!: load32_le32)
qed

lemma tab_find_named:
  assumes "names_unique t" and "i < length t" and "rf_used (t ! i)" and "rf_name (t ! i) = nm"
  shows "tab_find nm t = Some i"
proof (cases "tab_find nm t")
  case None
  then show ?thesis using assms by (simp add: tab_find_None)
next
  case (Some j)
  then show ?thesis using assms tab_find_Some [OF Some] by (auto simp: names_unique_def)
qed

text \<open>The image in memory, as \<open>initramfs_load\<close> reads it.\<close>

lemma mkramfs_image_loaded:
  fixes s :: "'a fs_state_scheme"
  assumes "mkramfs_main argv (Some ents) True = (0, out, Some img)"
    and "load_bytes (mem s) ms (length img) = img" and "off_table s ms (length img)"
    and "\<And>e. e \<in> set ents \<Longrightarrow> 0 \<notin> set (d_name e) \<and> hd0 (d_name e) \<noteq> 0x2F \<and> length (file_bytes e) < 2 ^ 32"
  shows "load32 (mem s) ms = INITRAMFS_MAGIC" and "load32 (mem s) (ms + 4) = of_nat (length (packed ents))"
    and "\<And>k. k < length (packed ents) \<Longrightarrow> image_entry s ms (ms + 8 + 72 * of_nat k) (packed ents ! k)"
proof -
  let ?es = "packed ents"
  obtain fs where fs: "img = image_bytes fs" "length fs = length ?es"
    and at: "\<And>k. k < length fs \<Longrightarrow> \<exists>e \<in> set ents. ?es ! k = (take 63 (d_name e), file_bytes e) \<and>
      fe_name (fs ! k) = name_field (d_name e) \<and> fe_data (fs ! k) = file_bytes e \<and> fe_size (fs ! k) = of_nat (length (file_bytes e)) \<and>
      fe_offset (fs ! k) = 8 + of_nat (length fs) * 72 + sum_list (map fe_size (take k fs))"
    by (rule mkramfs_image [OF assms(1)]) blast
  have each: "length (fe_name f) = 64" "fe_size f = of_nat (length (fe_data f)) \<and> length (fe_data f) < 2 ^ 32" if "f \<in> set fs" for f
    using that at assms(4) by (metis in_set_conv_nth length_name_field)+
  show "image_entry s ms (ms + 8 + 72 * of_nat k) (?es ! k)" if "k < length ?es" for k
    using at [of k] that fs assms(2-4) each image_in_memory [of s ms fs k] by (metis (no_types, lifting))
  show "load32 (mem s) ms = INITRAMFS_MAGIC" "load32 (mem s) (ms + 4) = of_nat (length ?es)"
    using image_header [OF assms(2) [unfolded fs(1)], unfolded fs(2)] .
qed

text \<open>
  C29. What the image builder packs, the kernel unpacks: an image that \<open>mkramfs\<close> wrote, in memory off the
  file table, is loaded into an empty file system as exactly the files of the directory that
  were readable, at most 64 and in order, each under its name cut to 63 bytes and with its bytes up to
  32768 of them; each can be opened by that name. This is so when no two names agree on their first 63 bytes.
\<close>

theorem mkramfs_initramfs_roundtrip:
  fixes s :: "'a fs_state_scheme"
  assumes "mkramfs_main argv (Some ents) True = (0, out, Some img)"
    and "fs_ok s" and "mounted_fs s = Some Ramfs_ops" and "tab_free_from 0 (file_tab s)"
    and "load_bytes (mem s) ms (length img) = img" and "off_table s ms (length img)"
    and "\<And>e. e \<in> set ents \<Longrightarrow> 0 \<notin> set (d_name e) \<and> hd0 (d_name e) \<noteq> 0x2F \<and> length (file_bytes e) < 2 ^ 32"
    and "distinct (map fst (packed ents))"
  shows "\<exists>s'. initramfs_load ms n s = Some s' \<and> fs_ok s' \<and> tab_free_from (length (packed ents)) (file_tab s') \<and>
    (\<forall>k < length (packed ents). rf_name (file_tab s' ! k) = fst (packed ents ! k) \<and>
      file_content (file_tab s' ! k) = take 32768 (snd (packed ents ! k)) \<and>
      (\<forall>p. str_at (mem s') p (fst (packed ents ! k)) \<longrightarrow> vfs_open p s' = Some (of_nat k)))"
proof -
  let ?es = "packed ents"
  have le: "length ?es \<le> 64" by (simp add: packed_def MAX_FILES_def)
  have name: "f \<in> set ?es \<Longrightarrow> length (fst f) < 64 \<and> hd0 (fst f) \<noteq> 0x2F" for f
    by (rule packed_names [OF _ assms(7)])
  note im = mkramfs_image_loaded [OF assms(1,5-7)]
  have lt: "length ?es < 2 ^ 32" using le by simp
  obtain s' where s': "initramfs_load ms n s = Some s'" "file_tab s' = fold tab_load ?es (file_tab s)" "fs_ok s'"
    "files_addr s' = files_addr s" "mounted_fs s' = mounted_fs s"
    by (rule initramfs_load_spec [OF assms(2) im(1,2) lt im(3), where n = n])
  have "tab_find (fst f) (file_tab s) = None" for f :: "cstr \<times> u8 list"
    using assms(4) unfolding tab_find_None by (simp add: tab_free_from_def del: nth_file_tab)
  then have tab: "tab_free_from (length ?es) (file_tab s')"
      "\<And>k. k < length ?es \<Longrightarrow> rf_name (file_tab s' ! k) = fst (?es ! k) \<and> file_content (file_tab s' ! k) = take 32768 (snd (?es ! k))"
    using fold_tab_load [OF assms(4) _ assms(8)] le name unfolding s'(2) by (auto simp: ramfs_consts)
  have "names_unique (file_tab s')"
    unfolding names_unique_def using tab assms(8) by (auto simp: tab_free_from_def distinct_conv_nth simp del: nth_file_tab)
  then have "tab_find (fst (?es ! k)) (file_tab s') = Some k" if "k < length ?es" for k
    using tab that le by (intro tab_find_named) (auto simp: tab_free_from_def ramfs_consts simp del: nth_file_tab)
  then have "vfs_open p s' = Some (of_nat k)" if "k < length ?es" "str_at (mem s') p (fst (?es ! k))" for k p
    using that open_plain [OF s'(3) that(2)] name [of "?es ! k"] s'(5) assms(3) by (simp add: vfs_ramfs idx_ret_def)
  then show ?thesis using s'(1,3) tab by blast
qed

theorem mkramfs_initramfs_roundtrip_witness:
  "\<exists>out img (s :: fs_state) s'. mkramfs_main [str ''mkramfs'', str ''dir'', str ''out''] (Some
       [\<lparr>d_name = str ''.'', is_regular = False, fopen_ok = True, malloc_ok = True, file_bytes = []\<rparr>,
        \<lparr>d_name = str ''b'', is_regular = True, fopen_ok = True, malloc_ok = True, file_bytes = [1, 2]\<rparr>]) True = (0, out, Some img) \<and>
     load_bytes (mem s) 0x4000 (length img) = img \<and>
     initramfs_load 0x4000 0 s = Some s' \<and> file_content (file_tab s' ! 0) = [1, 2]"
proof -
  let ?ents = "[\<lparr>d_name = str ''.'', is_regular = False, fopen_ok = True, malloc_ok = True, file_bytes = []\<rparr>,
      \<lparr>d_name = str ''b'', is_regular = True, fopen_ok = True, malloc_ok = True, file_bytes = [1, 2]\<rparr>]"
  obtain out img where run: "mkramfs_main [str ''mkramfs'', str ''dir'', str ''out''] (Some ?ents) True = (0, out, Some img)"
    by (auto simp: mkramfs_main_def split_beta Let_def)
  obtain fs where fs: "img = image_bytes fs" "length fs = length (packed ?ents)"
    by (rule mkramfs_image [OF run])
  have p: "packed ?ents = [(str ''b'', [1, 2])]" by (simp add: packed_def kept_def MAX_FILES_def str_def)
  let ?s = "fs_demo\<lparr>mem := store_bytes (mem fs_demo) 0x4000 img\<rparr>"
  have len: "length img \<le> 0x2000" using run by (auto simp: mkramfs_main_def split_beta Let_def image_bytes_def entry_bytes_def data_bytes_def MAX_FILES_def str_def)
  have off: "off_table fs_demo 0x4000 (length img)" by (rule fs_demo_off) (use len in simp)
  have t: "file_tab ?s = file_tab fs_demo" by (rule store_off_table [OF off fs_demo_facts(1)])
  have img: "load_bytes (mem ?s) 0x4000 (length img) = img" using load_store_bytes [of "0x4000" img "mem fs_demo"] len by simp
  have ok: "fs_ok ?s" using fs_demo_facts(1) t by (simp add: fs_ok_def)
  have free: "tab_free_from 0 (file_tab ?s)" using fs_demo_facts(5) unfolding t tab_free_from_def by (simp add: ramfs_consts del: nth_file_tab)
  have m: "mounted_fs ?s = Some Ramfs_ops" using fs_demo_facts(3) by simp
  have off': "off_table ?s 0x4000 (length img)" using off by (simp add: off_table_def)
  have h: "0 \<notin> set (d_name e) \<and> hd0 (d_name e) \<noteq> 0x2F \<and> length (file_bytes e) < 2 ^ 32" if "e \<in> set ?ents" for e
    using that by (auto simp: str_def)
  have "\<exists>s'. initramfs_load 0x4000 0 ?s = Some s' \<and> file_content (file_tab s' ! 0) = [1, 2]"
    using mkramfs_initramfs_roundtrip [OF run ok m free img off' h, of 0] p by (auto simp: str_def)
  then show ?thesis using run img by blast
qed

end
