(* ===== verification/Syscall.thy ===== *)
theory Syscall
  imports Ramfs
begin

text \<open>
  System calls: kernel/syscall/syscall.c and the exception handler of kernel/arch/isr.c, which
  leads to it. Every call is a function on the kernel state. A call that reads the keyboard
  takes the hardware interrupts that arrive while it sleeps, and is \<open>None\<close> when it waits for ever;
  \<open>sys_exit\<close> does not return to its caller, which the type \<open>outcome\<close> says. Descriptors are read and
  written where they are, in the PCB of the current process.
\<close>

datatype ('r, 's) outcome = Returned 'r 's | Switched 's | Halted 's

definition SYS_EXIT :: u32 where "SYS_EXIT = 1"
definition SYS_WRITE :: u32 where "SYS_WRITE = 2"
definition SYS_READ :: u32 where "SYS_READ = 3"
definition SYS_OPEN :: u32 where "SYS_OPEN = 4"
definition SYS_CLOSE :: u32 where "SYS_CLOSE = 5"
definition SYS_GETPID :: u32 where "SYS_GETPID = 6"
definition SYS_READDIR :: u32 where "SYS_READDIR = 7"
definition SYS_UPTIME :: u32 where "SYS_UPTIME = 8"
definition SYS_MEMINFO :: u32 where "SYS_MEMINFO = 9"
definition SYS_PS :: u32 where "SYS_PS = 10"
definition SYS_MAX :: u32 where "SYS_MAX = 10"

lemmas sys_numbers = SYS_EXIT_def SYS_WRITE_def SYS_READ_def SYS_OPEN_def SYS_CLOSE_def SYS_GETPID_def
  SYS_READDIR_def SYS_UPTIME_def SYS_MEMINFO_def SYS_PS_def

section \<open>The source, function by function\<close>

text \<open>\<open>fd_entry_t\<close>: 12 bytes, from offset 32 of the PCB on; the index at 0, the offset at 4, the flag at 8.\<close>

definition fd_addr :: "u32 \<Rightarrow> u32 \<Rightarrow> u32" where "fd_addr p fd = p + 32 + 12 * fd"
definition fd_file_idx :: "mem \<Rightarrow> u32 \<Rightarrow> u32 \<Rightarrow> u32" where "fd_file_idx m p fd = load32 m (fd_addr p fd)"
definition fd_offset :: "mem \<Rightarrow> u32 \<Rightarrow> u32 \<Rightarrow> u32" where "fd_offset m p fd = load32 m (fd_addr p fd + 4)"
definition fd_in_use :: "mem \<Rightarrow> u32 \<Rightarrow> u32 \<Rightarrow> u8" where "fd_in_use m p fd = m (fd_addr p fd + 8)"
definition set_fd_offset :: "u32 \<Rightarrow> u32 \<Rightarrow> u32 \<Rightarrow> mem \<Rightarrow> mem" where
  "set_fd_offset p fd v m = store32 m (fd_addr p fd + 4) v"
definition set_fd :: "u32 \<Rightarrow> u32 \<Rightarrow> u32 \<Rightarrow> u32 \<Rightarrow> u8 \<Rightarrow> mem \<Rightarrow> mem" where
  "set_fd p fd idx off use m = (store32 (store32 m (fd_addr p fd) idx) (fd_addr p fd + 4) off)(fd_addr p fd + 8 := use)"

text \<open>The check both file calls make: the process, and a descriptor in range, open and with a file.\<close>

definition fd_file :: "u32 \<Rightarrow> 'a fs_state_scheme \<Rightarrow> (u32 \<times> u32) option" where
  "fd_file fd s =
     (let cur = scheduler_current s in
      if cur = 0 \<or> of_nat MAX_FDS \<le> fd \<or> fd_in_use (mem s) cur fd = 0 then None
      else let file_idx = fd_file_idx (mem s) cur fd in if sint file_idx < 0 then None else Some (cur, file_idx))"

text \<open>The characters of a buffer to the screen.\<close>

definition put_buf :: "u32 \<Rightarrow> nat \<Rightarrow> 'a fs_state_scheme \<Rightarrow> 'a fs_state_scheme" where
  "put_buf buf n s = fold (\<lambda>i s. vga_putchar (mem s (buf + of_nat i)) s) [0..<n] s"

definition sys_write :: "u32 \<Rightarrow> u32 \<Rightarrow> u32 \<Rightarrow> 'a fs_state_scheme \<Rightarrow> u32 \<times> 'a fs_state_scheme" where
  "sys_write fd buf len s =
     (if fd = 1 \<or> fd = 2 then (len, put_buf buf (unat len) s)
      else case fd_file fd s of
        None \<Rightarrow> (-1, s)
      | Some (cur, file_idx) \<Rightarrow>
          let (written, s1) = vfs_write file_idx buf (fd_offset (mem s) cur fd) len s
          in (written, if 0 < sint written
                       then s1\<lparr>mem := set_fd_offset cur fd (fd_offset (mem s1) cur fd + written) (mem s1)\<rparr> else s1))"

text \<open>Characters from the keyboard into a buffer.\<close>

primrec get_buf :: "nat \<Rightarrow> u32 \<Rightarrow> hw_irq list \<Rightarrow> 'a fs_state_scheme \<Rightarrow> (hw_irq list \<times> 'a fs_state_scheme) option" where
  "get_buf 0 buf irqs s = Some (irqs, s)"
| "get_buf (Suc n) buf irqs s =
     (case keyboard_getchar irqs s of
        None \<Rightarrow> None
      | Some (c, irqs', s') \<Rightarrow> get_buf n (buf + 1) irqs' (s'\<lparr>mem := (mem s')(buf := c)\<rparr>))"

definition sys_read ::
  "u32 \<Rightarrow> u32 \<Rightarrow> u32 \<Rightarrow> hw_irq list \<Rightarrow> 'a fs_state_scheme \<Rightarrow> (u32 \<times> hw_irq list \<times> 'a fs_state_scheme) option" where
  "sys_read fd buf len irqs s =
     (if fd = 0 then map_option (\<lambda>(irqs', s'). (len, irqs', s')) (get_buf (unat len) buf irqs s)
      else case fd_file fd s of
        None \<Rightarrow> Some (-1, irqs, s)
      | Some (cur, file_idx) \<Rightarrow>
          let (bytes, s1) = vfs_read file_idx buf (fd_offset (mem s) cur fd) len s
          in Some (bytes, irqs, if 0 < sint bytes
               then s1\<lparr>mem := set_fd_offset cur fd (fd_offset (mem s1) cur fd + bytes) (mem s1)\<rparr> else s1))"

fun free_fd :: "nat list \<Rightarrow> u32 \<Rightarrow> mem \<Rightarrow> u32" where
  "free_fd [] p m = -1"
| "free_fd (i # is) p m = (if fd_in_use m p (of_nat i) = 0 then of_nat i else free_fd is p m)"

definition sys_open :: "u32 \<Rightarrow> 'a fs_state_scheme \<Rightarrow> (u32 \<times> 'a fs_state_scheme) option" where
  "sys_open path s =
     (let cur = scheduler_current s in
      if cur = 0 then Some (-1, s)
      else let fd = free_fd [3..<MAX_FDS] cur (mem s) in
        if sint fd < 0 then Some (-1, s)
        else case vfs_open path s of
          None \<Rightarrow> None
        | Some file_idx \<Rightarrow>
            if sint file_idx < 0 then Some (-1, s)
            else Some (fd, s\<lparr>mem := set_fd cur fd file_idx 0 1 (mem s)\<rparr>))"

definition sys_close :: "u32 \<Rightarrow> 'a fs_state_scheme \<Rightarrow> u32 \<times> 'a fs_state_scheme" where
  "sys_close fd s =
     (let cur = scheduler_current s in
      if cur = 0 \<or> fd < 3 \<or> of_nat MAX_FDS \<le> fd then (-1, s)
      else if fd_in_use (mem s) cur fd = 0 then (-1, s)
      else let s1 = snd (vfs_close (fd_file_idx (mem s) cur fd) s);
               m1 = (mem s1)(fd_addr cur fd + 8 := 0);
               m2 = store32 m1 (fd_addr cur fd) (-1)
           in (0, s1\<lparr>mem := set_fd_offset cur fd 0 m2\<rparr>))"

definition khalt :: "'s \<Rightarrow> ('r, 's) outcome" where
  "khalt s = Halted s"

definition sys_exit :: "u32 \<Rightarrow> 'a fs_state_scheme \<Rightarrow> ('r, 'a fs_state_scheme) outcome" where
  "sys_exit code s =
     (let cur = scheduler_current s;
          s1 = (if cur \<noteq> 0 then s\<lparr>mem := pset cur Exit_code code (pset cur State PROC_ZOMBIE (mem s))\<rparr> else s)
      in case scheduler_tick s1 of Inl s2 \<Rightarrow> khalt s2 | Inr s2 \<Rightarrow> Switched s2)"

definition sys_getpid :: "'a fs_state_scheme \<Rightarrow> u32" where
  "sys_getpid s = (let cur = scheduler_current s in if cur \<noteq> 0 then pget (mem s) cur Pid else 0)"

definition sys_readdir :: "u32 \<Rightarrow> u32 \<Rightarrow> 'a fs_state_scheme \<Rightarrow> u32 \<times> 'a fs_state_scheme" where
  "sys_readdir entries mx s = vfs_readdir entries mx s"

text \<open>\<open>None\<close> is the division by zero before the timer is set up.\<close>

definition sys_uptime :: "'a fs_state_scheme \<Rightarrow> u32 option" where
  "sys_uptime s = timer_get_seconds s"

text \<open>\<open>meminfo_t\<close> is three words, \<open>ps_entry_t\<close> two.\<close>

definition sys_meminfo :: "u32 \<Rightarrow> 'a fs_state_scheme \<Rightarrow> u32 \<times> 'a fs_state_scheme" where
  "sys_meminfo info s =
     (if info = 0 then (-1, s)
      else let m1 = store32 (mem s) info (pmm_get_total_pages s);
               m2 = store32 m1 (info + 4) (pmm_get_free_pages s)
           in (0, s\<lparr>mem := store32 m2 (info + 8) (pmm_get_used_pages s)\<rparr>))"

definition ps_entry :: "u32 \<Rightarrow> u32 \<Rightarrow> u32 \<Rightarrow> mem \<Rightarrow> mem" where
  "ps_entry entries count p m =
     (let m1 = store32 m (entries + 8 * count) (pget m p Pid)
      in store32 m1 (entries + 8 * count + 4) (pget m1 p State))"

partial_function (option) ps_loop :: "u32 \<Rightarrow> u32 \<Rightarrow> u32 \<Rightarrow> u32 \<Rightarrow> u32 \<Rightarrow> mem \<Rightarrow> (u32 \<times> mem) option" where
  "ps_loop entries mx cur p count m =
     (let count' = (if sint count < sint mx then count + 1 else count);
          m' = (if sint count < sint mx then ps_entry entries count p m else m);
          p' = pget m' p Next
      in if p' \<noteq> 0 \<and> p' \<noteq> cur \<and> sint count' < sint mx then ps_loop entries mx cur p' count' m' else Some (count', m'))"

definition sys_ps :: "u32 \<Rightarrow> u32 \<Rightarrow> 'a fs_state_scheme \<Rightarrow> (u32 \<times> 'a fs_state_scheme) option" where
  "sys_ps entries mx s =
     (if entries = 0 \<or> sint mx \<le> 0 then Some (-1, s)
      else let cur = scheduler_current s in
        if cur = 0 then Some (0, s)
        else map_option (\<lambda>(count, m). (count, s\<lparr>mem := m\<rparr>)) (ps_loop entries mx cur cur 0 (mem s)))"

text \<open>The dispatcher. The result is the register frame with the return value in EAX.\<close>

definition syscall_handler ::
  "hw_irq list \<Rightarrow> registers \<Rightarrow> 'a fs_state_scheme \<Rightarrow> (registers \<times> hw_irq list, 'a fs_state_scheme) outcome option" where
  "syscall_handler irqs regs s =
     (let ret = (\<lambda>(v, s'). Some (Returned (regs\<lparr>r_eax := v\<rparr>, irqs) s')); num = r_eax regs in
      if num = SYS_WRITE then ret (sys_write (r_ebx regs) (r_ecx regs) (r_edx regs) s)
      else if num = SYS_READ then
        map_option (\<lambda>(v, irqs', s'). Returned (regs\<lparr>r_eax := v\<rparr>, irqs') s') (sys_read (r_ebx regs) (r_ecx regs) (r_edx regs) irqs s)
      else if num = SYS_OPEN then Option.bind (sys_open (r_ebx regs) s) ret
      else if num = SYS_CLOSE then ret (sys_close (r_ebx regs) s)
      else if num = SYS_EXIT then Some (sys_exit (r_ebx regs) s)
      else if num = SYS_GETPID then ret (sys_getpid s, s)
      else if num = SYS_READDIR then ret (sys_readdir (r_ebx regs) (r_ecx regs) s)
      else if num = SYS_UPTIME then Option.bind (sys_uptime s) (\<lambda>v. ret (v, s))
      else if num = SYS_MEMINFO then ret (sys_meminfo (r_ebx regs) s)
      else if num = SYS_PS then Option.bind (sys_ps (r_ebx regs) (r_ecx regs) s) ret
      else ret (-1, s))"

definition syscall_init :: "'a fs_state_scheme \<Rightarrow> 'a fs_state_scheme" where
  "syscall_init s = debug_print (str ''[serial] Syscall init\<newline>'')
     (kprintf ''[SYSCALL] System call interface ready (int 0x80, %d syscalls)\<newline>'' [AWord SYS_MAX] s)"

section \<open>isr.c\<close>

definition exception_names :: "string list" where
  "exception_names =
     [''Divide by Zero'', ''Debug'', ''Non-Maskable Interrupt'', ''Breakpoint'', ''Overflow'', ''Bound Range Exceeded'',
      ''Invalid Opcode'', ''Device Not Available'', ''Double Fault'', ''Coprocessor Segment Overrun'', ''Invalid TSS'',
      ''Segment Not Present'', ''Stack-Segment Fault'', ''General Protection Fault'', ''Page Fault'', ''Reserved'',
      ''x87 Floating-Point'', ''Alignment Check'', ''Machine Check'', ''SIMD Floating-Point'', ''Virtualisation'',
      ''Control Protection''] @ replicate 10 ''Reserved''"

text \<open>\<open>cr2\<close> is the faulting address the processor keeps for a page fault.\<close>

definition isr_handler ::
  "hw_irq list \<Rightarrow> u32 \<Rightarrow> registers \<Rightarrow> 'a fs_state_scheme \<Rightarrow> (registers \<times> hw_irq list, 'a fs_state_scheme) outcome option" where
  "isr_handler irqs cr2 regs s =
     (if r_int_no regs = 0x80 then syscall_handler irqs regs s
      else
        let s1 = debug_print (str ''[serial] EXCEPTION caught\<newline>'') s;
            s2 = vga_set_color (vga_make_color VGA_COLOR_RED VGA_COLOR_BLACK) s1;
            name = (if r_int_no regs < 32 then exception_names ! unat (r_int_no regs) else ''Unknown'');
            s3 = kprintf ''\<newline>*** KERNEL EXCEPTION ***\<newline>'' [] s2;
            s4 = kprintf ''Exception %u: %s\<newline>'' [AWord (r_int_no regs), AStr (Some (str name))] s3;
            s5 = kprintf ''Error code: 0x%x\<newline>'' [AWord (r_err_code regs)] s4;
            s6 = (if r_int_no regs = 14 then kprintf ''Faulting address (CR2): 0x%x\<newline>'' [AWord cr2] s5 else s5);
            s7 = kprintf ''\<newline>Registers:\<newline>'' [] s6;
            s8 = kprintf ''  eax=0x%x  ebx=0x%x  ecx=0x%x  edx=0x%x\<newline>''
              [AWord (r_eax regs), AWord (r_ebx regs), AWord (r_ecx regs), AWord (r_edx regs)] s7;
            s9 = kprintf ''  esi=0x%x  edi=0x%x  ebp=0x%x\<newline>'' [AWord (r_esi regs), AWord (r_edi regs), AWord (r_ebp regs)] s8;
            s10 = kprintf ''  eip=0x%x  cs=0x%x  eflags=0x%x\<newline>'' [AWord (r_eip regs), AWord (r_cs regs), AWord (r_eflags regs)] s9;
            s11 = vga_set_color (vga_make_color VGA_COLOR_LIGHT_GREY VGA_COLOR_BLACK) s10
        in Some (khalt (kprintf ''\<newline>System halted.\<newline>'' [] s11)))"

section \<open>Descriptors in the PCB\<close>

lemma unat_fd_addr:
  assumes "unat p + 416 \<le> 2 ^ 32" and "unat fd < MAX_FDS"
  shows "unat (fd_addr p fd) = unat p + 32 + 12 * unat fd"
    and "unat (fd_addr p fd + 4) = unat p + 36 + 12 * unat fd"
    and "unat (fd_addr p fd + 8) = unat p + 40 + 12 * unat fd"
proof -
  have f: "unat fd < 32" using assms(2) by (simp add: MAX_FDS_def)
  have "unat (12 * fd) = 12 * unat fd" using f by (simp add: unat_word_ariths)
  then show a: "unat (fd_addr p fd) = unat p + 32 + 12 * unat fd"
    using f assms(1) unat_add_lt [of "p + 32" "12 * fd"] unat_add_num [of p] by (simp add: fd_addr_def)
  show "unat (fd_addr p fd + 4) = unat p + 36 + 12 * unat fd" "unat (fd_addr p fd + 8) = unat p + 40 + 12 * unat fd"
    using a f assms(1) by (simp_all add: unat_add_num)
qed

text \<open>The current process has a PCB off the file table.\<close>

definition pcb_ok :: "'a fs_state_scheme \<Rightarrow> bool" where
  "pcb_ok s \<longleftrightarrow> current s \<noteq> 0 \<and> off_table s (current s) 416"

lemma pcb_ok_fits: "pcb_ok s \<Longrightarrow> unat (current s) + 416 \<le> 2 ^ 32"
  by (simp add: pcb_ok_def off_table_def apart_ranges_def)

text \<open>An open descriptor: the file and the position.\<close>

definition fd_open :: "'a fs_state_scheme \<Rightarrow> u32 \<Rightarrow> nat \<Rightarrow> nat \<Rightarrow> bool" where
  "fd_open s fd i pos \<longleftrightarrow> unat fd < MAX_FDS \<and> fd_in_use (mem s) (current s) fd \<noteq> 0 \<and>
     fd_file_idx (mem s) (current s) fd = of_nat i \<and> fd_offset (mem s) (current s) fd = of_nat pos \<and>
     i < RAMFS_MAX_FILES \<and> rf_used (file_tab s ! i) \<and> pos \<le> 32768"

lemma sint_idx: "i < RAMFS_MAX_FILES \<Longrightarrow> \<not> sint (of_nat i :: u32) < 0"
  using sint_small [of "of_nat i"] unat_file_index [of i] by (simp add: ramfs_consts)

lemma fd_file_open: "pcb_ok s \<Longrightarrow> fd_open s fd i pos \<Longrightarrow> fd_file fd s = Some (current s, of_nat i)"
  by (auto simp: fd_file_def pcb_ok_def fd_open_def scheduler_current_def sint_idx word_le_nat_alt MAX_FDS_def)

lemma fd_fields_cong:
  assumes "unat p + 416 \<le> 2 ^ 32" and "unat fd < MAX_FDS"
    and "\<And>x. unat p + 32 + 12 * unat fd \<le> unat x \<Longrightarrow> unat x < unat p + 44 + 12 * unat fd \<Longrightarrow> m' x = m x"
  shows "fd_in_use m' p fd = fd_in_use m p fd" "fd_file_idx m' p fd = fd_file_idx m p fd" "fd_offset m' p fd = fd_offset m p fd"
proof -
  note u = unat_fd_addr [OF assms(1,2)]
  have f: "unat fd < 32" using assms(2) by (simp add: MAX_FDS_def)
  show "fd_in_use m' p fd = fd_in_use m p fd" unfolding fd_in_use_def using assms(3) u by simp
  show "fd_file_idx m' p fd = fd_file_idx m p fd" unfolding fd_file_idx_def
    by (rule load32_cong) (use assms u f in auto)
  show "fd_offset m' p fd = fd_offset m p fd" unfolding fd_offset_def
    by (rule load32_cong) (use assms u f in auto)
qed

lemma set_fd_offset_get:
  assumes "unat p + 416 \<le> 2 ^ 32" and "unat fd < MAX_FDS"
  shows "fd_offset (set_fd_offset p fd v m) p fd = v" "fd_in_use (set_fd_offset p fd v m) p fd = fd_in_use m p fd"
    "fd_file_idx (set_fd_offset p fd v m) p fd = fd_file_idx m p fd"
    and "unat x < unat p \<or> unat p + 416 \<le> unat x \<Longrightarrow> set_fd_offset p fd v m x = m x"
proof -
  note u = unat_fd_addr [OF assms(1,2)]
  have f: "unat fd < 32" using assms(2) by (simp add: MAX_FDS_def)
  show "fd_offset (set_fd_offset p fd v m) p fd = v" by (simp add: fd_offset_def set_fd_offset_def)
  show "fd_in_use (set_fd_offset p fd v m) p fd = fd_in_use m p fd"
    unfolding fd_in_use_def set_fd_offset_def by (rule store32_other) (use u f assms(1) in auto)
  show "fd_file_idx (set_fd_offset p fd v m) p fd = fd_file_idx m p fd"
    unfolding fd_file_idx_def set_fd_offset_def by (rule load32_store32_other) (use u f assms(1) in auto)
  show "unat x < unat p \<or> unat p + 416 \<le> unat x \<Longrightarrow> set_fd_offset p fd v m x = m x"
    unfolding set_fd_offset_def by (rule store32_other) (use u f assms(1) in auto)
qed

lemma set_fd_offset_in_use:
  assumes "unat p + 416 \<le> 2 ^ 32" and "unat fd < MAX_FDS" and "unat g < MAX_FDS"
  shows "fd_in_use (set_fd_offset p fd v m) p g = fd_in_use m p g"
proof -
  have "unat fd < 32" "unat g < 32" using assms(2,3) by (simp_all add: MAX_FDS_def)
  then show ?thesis unfolding fd_in_use_def set_fd_offset_def
    using unat_fd_addr [OF assms(1,2)] unat_fd_addr [OF assms(1,3)] assms(1) by (intro store32_other) presburger+
qed

text \<open>What does not touch the table or the PCB: a range for a caller's buffer.\<close>

definition user_range :: "'a fs_state_scheme \<Rightarrow> u32 \<Rightarrow> nat \<Rightarrow> bool" where
  "user_range s p n \<longleftrightarrow> off_table s p n \<and> apart_ranges (current s) 416 p n"

lemma user_rangeD: "user_range s p n \<Longrightarrow> off_table s p n"
  by (simp add: user_range_def)

lemma user_range_mono: "user_range s p n \<Longrightarrow> k \<le> n \<Longrightarrow> user_range s p k"
  by (auto simp: user_range_def off_table_mono apart_ranges_def)

lemma pcb_update_table:
  assumes "fs_ok s" and "pcb_ok s" and "\<And>x. unat x < unat (current s) \<or> unat (current s) + 416 \<le> unat x \<Longrightarrow> m x = mem s x"
  shows "file_tab (s\<lparr>mem := m\<rparr>) = file_tab s" and "fs_ok (s\<lparr>mem := m\<rparr>)"
    and "user_range s p n \<Longrightarrow> load_bytes m p n = load_bytes (mem s) p n"
proof -
  show t: "file_tab (s\<lparr>mem := m\<rparr>) = file_tab s"
    using assms by (intro file_tab_frame) (auto simp: fs_ok_def pcb_ok_def off_table_def apart_ranges_def)
  show "fs_ok (s\<lparr>mem := m\<rparr>)" using assms(1) t by (simp add: fs_ok_def)
  show "user_range s p n \<Longrightarrow> load_bytes m p n = load_bytes (mem s) p n"
    using assms(3) by (intro load_bytes_cong) (auto simp: user_range_def apart_ranges_def)
qed

text \<open>A call changes memory only, and of that nothing a caller's buffer may be in.\<close>

definition call_step :: "'a fs_state_scheme \<Rightarrow> 'a fs_state_scheme \<Rightarrow> bool" where
  "call_step s s' \<longleftrightarrow> s' = s\<lparr>mem := mem s'\<rparr> \<and> (\<forall>p n. user_range s p n \<longrightarrow> load_bytes (mem s') p n = load_bytes (mem s) p n)"

lemma call_step_eq: "call_step s s' \<Longrightarrow> s' = s\<lparr>mem := mem s'\<rparr>"
  unfolding call_step_def by (rule conjunct1)

lemma call_step_fields:
  assumes "call_step s s'"
  shows "files_addr s' = files_addr s" "mounted_fs s' = mounted_fs s" "current s' = current s" "user_range s' p n = user_range s p n"
    "off_table s' p n = off_table s p n" "pcb_ok s' = pcb_ok s"
proof -
  show "files_addr s' = files_addr s" "mounted_fs s' = mounted_fs s" "current s' = current s"
    by (subst call_step_eq [OF assms], simp)+
  then show "user_range s' p n = user_range s p n" "off_table s' p n = off_table s p n" "pcb_ok s' = pcb_ok s"
    by (simp_all add: user_range_def off_table_def pcb_ok_def)
qed

lemma call_step_bytes: "call_step s s' \<Longrightarrow> user_range s p n \<Longrightarrow> load_bytes (mem s') p n = load_bytes (mem s) p n"
  by (simp add: call_step_def)

lemma call_step_trans: "call_step a b \<Longrightarrow> call_step b c \<Longrightarrow> call_step a c"
proof -
  assume ab: "call_step a b" and bc: "call_step b c"
  have "c = b\<lparr>mem := mem c\<rparr>" by (rule call_step_eq [OF bc])
  also have "\<dots> = a\<lparr>mem := mem c\<rparr>" by (subst call_step_eq [OF ab]) simp
  finally show ?thesis using ab bc call_step_fields(4) [OF ab] by (auto simp: call_step_def)
qed

lemma table_step_call: "table_step s s' \<Longrightarrow> call_step s s'"
  unfolding call_step_def using table_step_eq table_step_out user_rangeD by blast

lemma pcb_update_call:
  assumes "fs_ok s" and "pcb_ok s" and "\<And>x. unat x < unat (current s) \<or> unat (current s) + 416 \<le> unat x \<Longrightarrow> m x = mem s x"
  shows "call_step s (s\<lparr>mem := m\<rparr>)"
  unfolding call_step_def using pcb_update_table(3) [OF assms] by simp

lemma fd_open_step:
  assumes "table_step s s'" and "pcb_ok s" and "fd_open s fd i pos" and "rf_used (file_tab s' ! i)"
  shows "fd_open s' fd i pos"
proof -
  have c: "current s' = current s" by (subst table_step_eq [OF assms(1)]) simp
  have f: "unat fd < 32" using assms(3) by (simp add: fd_open_def MAX_FDS_def)
  have "mem s' x = mem s x" if "unat (current s) \<le> unat x" "unat x < unat (current s) + 416" for x
    using assms(1,2) that by (auto simp: table_step_def pcb_ok_def off_table_def apart_ranges_def)
  then have "fd_in_use (mem s') (current s) fd = fd_in_use (mem s) (current s) fd"
    "fd_file_idx (mem s') (current s) fd = fd_file_idx (mem s) (current s) fd"
    "fd_offset (mem s') (current s) fd = fd_offset (mem s) (current s) fd"
    using pcb_ok_fits [OF assms(2)] f by (intro fd_fields_cong; auto simp: MAX_FDS_def)+
  then show ?thesis using assms(3,4) c by (simp add: fd_open_def)
qed

text \<open>Moving the position of an open descriptor.\<close>

lemma fd_advance:
  fixes s :: "'a fs_state_scheme"
  assumes "fs_ok s" and "pcb_ok s" and "fd_open s fd i pos" and "pos + n \<le> 32768"
  defines "s' \<equiv> s\<lparr>mem := set_fd_offset (current s) fd (fd_offset (mem s) (current s) fd + of_nat n) (mem s)\<rparr>"
  shows "fd_open s' fd i (pos + n)" "file_tab s' = file_tab s" "fs_ok s'" "call_step s s'"
    "unat g < MAX_FDS \<Longrightarrow> fd_in_use (mem s') (current s) g = fd_in_use (mem s) (current s) g"
proof -
  have p: "unat (current s) + 416 \<le> 2 ^ 32" by (rule pcb_ok_fits [OF assms(2)])
  have f: "unat fd < MAX_FDS" using assms(3) by (simp add: fd_open_def)
  show "unat g < MAX_FDS \<Longrightarrow> fd_in_use (mem s') (current s) g = fd_in_use (mem s) (current s) g"
    unfolding s'_def by (simp add: set_fd_offset_in_use [OF p f])
  note g = set_fd_offset_get [OF p f]
  let ?m = "set_fd_offset (current s) fd (fd_offset (mem s) (current s) fd + of_nat n) (mem s)"
  have out: "?m x = mem s x" if "unat x < unat (current s) \<or> unat (current s) + 416 \<le> unat x" for x using g(4) [OF that] .
  show "file_tab s' = file_tab s" "fs_ok s'" "call_step s s'"
    unfolding s'_def using pcb_update_table [OF assms(1,2) out] pcb_update_call [OF assms(1,2) out] by simp_all
  then show "fd_open s' fd i (pos + n)"
    using assms(3,4) g(1-3) by (simp add: fd_open_def s'_def del: nth_file_tab)
qed

lemma sint_count: "n \<le> 32768 \<Longrightarrow> 0 < sint (of_nat n :: u32) \<longleftrightarrow> 0 < n"
  using sint_small [of "of_nat n"] by (simp add: unat_of_nat32)

lemma sys_write_file:
  fixes s :: "'a fs_state_scheme" and buf len fd :: u32
  assumes ok: "fs_ok s" "mounted_fs s = Some Ramfs_ops" "pcb_ok s" and fd: "fd_open s fd i pos" "fd \<noteq> 1" "fd \<noteq> 2"
    and len: "pos + unat len < 2 ^ 32"
  defines "bs \<equiv> load_bytes (mem s) buf (min (unat len) (32768 - pos))"
  assumes buf: "user_range s buf (length bs)"
  obtains s' where "sys_write fd buf len s = (of_nat (length bs), s')" "fs_ok s'" "call_step s s'"
    "fd_open s' fd i (pos + length bs)" "file_tab s' = (file_tab s)[i := file_write pos bs (file_tab s ! i)]"
proof -
  have i: "i < RAMFS_MAX_FILES" and u: "rf_used (file_tab s ! i)" and pos: "pos \<le> 32768"
    and off: "fd_offset (mem s) (current s) fd = of_nat pos" using fd(1) by (simp_all add: fd_open_def del: nth_file_tab)
  have upos: "unat (of_nat pos :: u32) = pos" using pos by (intro unat_of_nat32) simp
  have fit: "pos + length bs \<le> 32768" using pos by (simp add: bs_def)
  have rng: "unat (of_nat pos :: u32) \<le> 32768" "unat (of_nat pos :: u32) + unat len < 2 ^ 32" using pos len upos by simp_all
  note w = ramfs_write_spec [OF ok(1) i u rng, of buf, unfolded upos, folded bs_def]
  obtain s1 where s1: "ramfs_write (of_nat i) buf (of_nat pos) len s = (of_nat (length bs), s1)"
    "file_tab s1 = (file_tab s)[i := file_write pos bs (file_tab s ! i)]" "table_step s s1"
    using w user_rangeD [OF buf] by blast
  have fi: "file_tab s1 ! i = file_write pos bs (file_tab s ! i)" unfolding s1(2) by (rule nth_list_update_eq) (use i in simp)
  have "tab_ok (file_tab s1)" unfolding s1(2) using ok(1) i u fit by (intro file_write_ok) (simp_all add: fs_ok_def)
  then have ok1: "fs_ok s1" using ok(1) s1(3) by (simp add: fs_ok_def table_step_fields)
  have c1: "call_step s s1" by (rule table_step_call [OF s1(3)])
  note cf = call_step_fields [OF c1]
  have open1: "fd_open s1 fd i pos" by (rule fd_open_step [OF s1(3) ok(3) fd(1)]) (unfold fi, use u in \<open>simp add: file_write_def\<close>)
  have pcb1: "pcb_ok s1" using ok(3) cf(6) by simp
  note adv = fd_advance [OF ok1 pcb1 open1 fit]
  let ?s2 = "s1\<lparr>mem := set_fd_offset (current s1) fd (fd_offset (mem s1) (current s1) fd + of_nat (length bs)) (mem s1)\<rparr>"
  have run: "sys_write fd buf len s = (of_nat (length bs), if 0 < length bs then ?s2 else s1)"
    using fd(2,3) fd_file_open [OF ok(3) fd(1)] s1(1) off cf(3) sint_count [of "length bs"] fit ok(2)
    by (simp add: sys_write_def vfs_ramfs)
  show ?thesis
  proof (cases "0 < length bs")
    case True
    then show ?thesis using that [of ?s2] run adv call_step_trans [OF c1] s1(2) by simp
  next
    case False
    then show ?thesis using that [of s1] run ok1 c1 open1 s1(2) by simp
  qed
qed

lemma store_user:
  fixes s :: "'a fs_state_scheme"
  assumes ok: "fs_ok s" "pcb_ok s" and buf: "user_range s buf (length bs)" and fd: "fd_open s fd i pos"
  defines "s' \<equiv> s\<lparr>mem := store_bytes (mem s) buf bs\<rparr>"
  shows "file_tab s' = file_tab s" "fs_ok s'" "pcb_ok s'" "fd_open s' fd i pos" "current s' = current s"
    "unat g < MAX_FDS \<Longrightarrow> fd_in_use (mem s') (current s) g = fd_in_use (mem s) (current s) g"
proof -
  show t: "file_tab s' = file_tab s" unfolding s'_def by (rule store_off_table [OF user_rangeD [OF buf] ok(1)])
  then show "fs_ok s'" using ok(1) by (simp add: fs_ok_def s'_def)
  show "pcb_ok s'" "current s' = current s" using ok(2) by (simp_all add: pcb_ok_def off_table_def s'_def)
  have f: "unat fd < MAX_FDS" using fd by (simp add: fd_open_def)
  have "store_bytes (mem s) buf bs x = mem s x" if "unat (current s) \<le> unat x" "unat x < unat (current s) + 416" for x
    using buf that by (intro store_bytes_other) (auto simp: user_range_def apart_ranges_def)
  then have same: "fd_in_use (mem s') (current s) g = fd_in_use (mem s) (current s) g"
    "fd_file_idx (mem s') (current s) g = fd_file_idx (mem s) (current s) g"
    "fd_offset (mem s') (current s) g = fd_offset (mem s) (current s) g" if "unat g < MAX_FDS" for g
    using pcb_ok_fits [OF ok(2)] that unfolding s'_def by (intro fd_fields_cong; simp add: MAX_FDS_def)+
  then show "unat g < MAX_FDS \<Longrightarrow> fd_in_use (mem s') (current s) g = fd_in_use (mem s) (current s) g" by blast
  show "fd_open s' fd i pos" using fd t same [OF f] by (simp add: fd_open_def s'_def del: nth_file_tab)
qed

lemma sys_read_file:
  fixes s :: "'a fs_state_scheme" and buf len fd :: u32
  assumes ok: "fs_ok s" "mounted_fs s = Some Ramfs_ops" "pcb_ok s" and fd: "fd_open s fd i pos" "fd \<noteq> 0"
  defines "bs \<equiv> take (unat len) (drop pos (file_content (file_tab s ! i)))"
  assumes buf: "user_range s buf (length bs)"
  obtains s' where "sys_read fd buf len irqs s = Some (of_nat (length bs), irqs, s')" "fs_ok s'"
    "fd_open s' fd i (pos + length bs)" "file_tab s' = file_tab s" "load_bytes (mem s') buf (length bs) = bs"
    "s' = s\<lparr>mem := mem s'\<rparr>"
    "\<And>p n. user_range s p n \<Longrightarrow> apart_ranges buf (length bs) p n \<Longrightarrow> load_bytes (mem s') p n = load_bytes (mem s) p n"
    "\<And>g. unat g < MAX_FDS \<Longrightarrow> fd_in_use (mem s') (current s) g = fd_in_use (mem s) (current s) g"
proof -
  have i: "i < RAMFS_MAX_FILES" and u: "rf_used (file_tab s ! i)" and pos: "pos \<le> 32768"
    and off: "fd_offset (mem s) (current s) fd = of_nat pos" using fd(1) by (simp_all add: fd_open_def del: nth_file_tab)
  have upos: "unat (of_nat pos :: u32) = pos" using pos by (intro unat_of_nat32) simp
  have size: "rf_size (file_tab s ! i) \<le> 32768" using fs_ok_entry(2) [OF ok(1) i] u i by (simp add: RAMFS_MAX_FILE_SIZE_def)
  then have fit: "pos + length bs \<le> 32768" using pos by (auto simp: bs_def file_content_def)
  note r = ramfs_read_spec [OF ok(1) i u, where off = "of_nat pos" and len = len and buf = buf, unfolded upos, folded bs_def]
  let ?s1 = "s\<lparr>mem := store_bytes (mem s) buf bs\<rparr>"
  have r1: "ramfs_read (of_nat i) buf (of_nat pos) len s = (of_nat (length bs), ?s1)" by (rule r [OF user_rangeD [OF buf]])
  note st = store_user [OF ok(1,3) buf fd(1)]
  note adv = fd_advance [OF st(2,3,4) fit]
  let ?s2 = "?s1\<lparr>mem := set_fd_offset (current ?s1) fd (fd_offset (mem ?s1) (current ?s1) fd + of_nat (length bs)) (mem ?s1)\<rparr>"
  have l: "load_bytes (mem ?s1) buf (length bs) = bs" using buf by (simp add: load_store_bytes user_range_def apart_ranges_def)
  have o: "load_bytes (mem ?s1) p n = load_bytes (mem s) p n" if "user_range s p n" "apart_ranges buf (length bs) p n" for p n
    using load_store_apart [OF that(2)] by simp
  have ur: "user_range ?s1 p n = user_range s p n" for p n by (simp add: user_range_def off_table_def)
  have run: "sys_read fd buf len irqs s = Some (of_nat (length bs), irqs, if 0 < length bs then ?s2 else ?s1)"
    using fd(2) fd_file_open [OF ok(3) fd(1)] r1 off sint_count [of "length bs"] fit ok(2)
    by (simp add: sys_read_def vfs_ramfs)
  show ?thesis
  proof (cases "0 < length bs")
    case True
    have b: "load_bytes (mem ?s2) p n = load_bytes (mem ?s1) p n" if "user_range s p n" for p n
      using call_step_bytes [OF adv(4)] ur that by blast
    show ?thesis using that [of ?s2] run True adv st(1,6) l o b buf by simp
  next
    case False
    then show ?thesis using that [of ?s1] run st l o by simp
  qed
qed

section \<open>A descriptor as a stream of bytes\<close>

text \<open>
  What a program relies on when it writes a file piece by piece: a position, contents, and writes
  that overwrite at the position and move it.
\<close>

locale byte_stream =
  fixes ok :: "'s \<Rightarrow> bool" and chunk_ok :: "'s \<Rightarrow> 'c \<Rightarrow> bool" and bytes :: "'s \<Rightarrow> 'c \<Rightarrow> u8 list"
    and put :: "'c \<Rightarrow> 's \<Rightarrow> 's" and content :: "'s \<Rightarrow> u8 list" and pos :: "'s \<Rightarrow> nat" and cap :: nat
  assumes put_step: "ok s \<Longrightarrow> chunk_ok s c \<Longrightarrow> pos s + length (bytes s c) \<le> cap \<Longrightarrow>
      ok (put c s) \<and> pos (put c s) = pos s + length (bytes s c) \<and>
      content (put c s) = take (pos s) (content s) @ bytes s c @ drop (pos s + length (bytes s c)) (content s)"
    and put_keeps: "ok s \<Longrightarrow> chunk_ok s c \<Longrightarrow> pos s + length (bytes s c) \<le> cap \<Longrightarrow> chunk_ok s d \<Longrightarrow>
      chunk_ok (put c s) d \<and> bytes (put c s) d = bytes s d"
    and pos_le: "ok s \<Longrightarrow> pos s \<le> length (content s)"
begin

lemma puts_concat:
  assumes "ok s" and "\<And>c. c \<in> set cs \<Longrightarrow> chunk_ok s c" and "pos s + length (concat (map (bytes s) cs)) \<le> cap"
  shows "ok (fold put cs s) \<and> pos (fold put cs s) = pos s + length (concat (map (bytes s) cs)) \<and>
    content (fold put cs s) =
      take (pos s) (content s) @ concat (map (bytes s) cs) @ drop (pos s + length (concat (map (bytes s) cs))) (content s)"
  using assms
proof (induction cs arbitrary: s)
  case Nil
  then show ?case by simp
next
  case (Cons c cs)
  have c: "chunk_ok s c" "pos s + length (bytes s c) \<le> cap" using Cons.prems by simp_all
  note st = put_step [OF Cons.prems(1) c]
  have eq: "map (bytes (put c s)) cs = map (bytes s) cs"
    using put_keeps [OF Cons.prems(1) c] Cons.prems(2) by simp
  have fits: "pos (put c s) + length (concat (map (bytes (put c s)) cs)) \<le> cap"
    unfolding eq using st Cons.prems(3) by simp
  have "chunk_ok (put c s) d" if "d \<in> set cs" for d using put_keeps [OF Cons.prems(1) c] Cons.prems(2) that by simp
  note Cons.IH [OF conjunct1 [OF st] this fits]
  then show ?case unfolding eq using st pos_le [OF Cons.prems(1)] by (simp add: add.assoc add.commute add.left_commute)
qed

end

definition fd_pos :: "u32 \<Rightarrow> 'a fs_state_scheme \<Rightarrow> nat" where
  "fd_pos fd s = unat (fd_offset (mem s) (current s) fd)"

definition stream_ok :: "u32 \<Rightarrow> nat \<Rightarrow> 'a fs_state_scheme \<Rightarrow> bool" where
  "stream_ok fd i s \<longleftrightarrow> fs_ok s \<and> mounted_fs s = Some Ramfs_ops \<and> pcb_ok s \<and> fd \<noteq> 1 \<and> fd \<noteq> 2 \<and>
     fd_open s fd i (fd_pos fd s) \<and> fd_pos fd s \<le> rf_size (file_tab s ! i)"

definition chunk_ok :: "'a fs_state_scheme \<Rightarrow> u32 \<times> u32 \<Rightarrow> bool" where
  "chunk_ok s c \<longleftrightarrow> user_range s (fst c) (unat (snd c))"

definition chunk_bytes :: "'a fs_state_scheme \<Rightarrow> u32 \<times> u32 \<Rightarrow> u8 list" where
  "chunk_bytes s c = load_bytes (mem s) (fst c) (unat (snd c))"

lemma fd_open_pos: "fd_open s fd i pos \<Longrightarrow> fd_pos fd s = pos"
  by (simp add: fd_open_def fd_pos_def unat_of_nat32)

lemma file_write_overwrites:
  assumes "off \<le> rf_size f" and "rf_size f \<le> length (rf_data f)" and "off + length bs \<le> length (rf_data f)"
  shows "file_content (file_write off bs f) = take off (file_content f) @ bs @ drop (off + length bs) (file_content f)"
proof (cases "off + length bs \<le> rf_size f")
  case True
  then have "min off (rf_size f) = off" "max (rf_size f) (off + length bs) = rf_size f" "min (length (rf_data f)) off = off"
    "length bs \<le> rf_size f - off" using assms by simp_all
  then show ?thesis by (simp add: file_content_def file_write_def drop_take)
next
  case False
  then show ?thesis using assms by (simp add: file_content_def file_write_def max_def min_def)
qed

lemma stream_write:
  assumes "stream_ok fd i s" and "chunk_ok s c" and "fd_pos fd s + length (chunk_bytes s c) \<le> 32768"
  obtains s' where "sys_write fd (fst c) (snd c) s = (snd c, s')" "stream_ok fd i s'" "call_step s s'"
    "fd_pos fd s' = fd_pos fd s + length (chunk_bytes s c)"
    "file_content (file_tab s' ! i) = take (fd_pos fd s) (file_content (file_tab s ! i)) @ chunk_bytes s c @
       drop (fd_pos fd s + length (chunk_bytes s c)) (file_content (file_tab s ! i))"
    "file_tab s' = (file_tab s)[i := file_write (fd_pos fd s) (chunk_bytes s c) (file_tab s ! i)]"
proof -
  let ?pos = "fd_pos fd s" and ?bs = "chunk_bytes s c"
  have st: "fs_ok s" "mounted_fs s = Some Ramfs_ops" "pcb_ok s" "fd \<noteq> 1" "fd \<noteq> 2" "fd_open s fd i ?pos"
    "?pos \<le> rf_size (file_tab s ! i)" using assms(1) by (simp_all add: stream_ok_def del: nth_file_tab)
  have len: "length ?bs = unat (snd c)" by (simp add: chunk_bytes_def)
  have "min (unat (snd c)) (32768 - ?pos) = unat (snd c)" using assms(3) len by simp
  then have b: "load_bytes (mem s) (fst c) (min (unat (snd c)) (32768 - ?pos)) = ?bs" by (simp add: chunk_bytes_def)
  have small: "?pos + unat (snd c) < 2 ^ 32" and ur: "user_range s (fst c) (length ?bs)"
    using assms(2,3) len by (simp_all add: chunk_ok_def)
  obtain s' where s': "sys_write fd (fst c) (snd c) s = (of_nat (length ?bs), s')" "fs_ok s'" "call_step s s'"
    "fd_open s' fd i (?pos + length ?bs)" "file_tab s' = (file_tab s)[i := file_write ?pos ?bs (file_tab s ! i)]"
    by (rule sys_write_file [OF st(1-3,6,4,5) small, where buf = "fst c", unfolded b, OF ur])
  have i: "i < RAMFS_MAX_FILES" "rf_used (file_tab s ! i)" using st(6) by (simp_all add: fd_open_def del: nth_file_tab)
  have f: "file_tab s' ! i = file_write ?pos ?bs (file_tab s ! i)" unfolding s'(5) by (rule nth_list_update_eq) (use i in simp)
  have size: "rf_size (file_tab s ! i) \<le> length (rf_data (file_tab s ! i))"
    using fs_ok_entry(2) [OF st(1) i(1)] i by (simp add: RAMFS_MAX_FILE_SIZE_def)
  have "stream_ok fd i s'"
    unfolding stream_ok_def using s' st fd_open_pos [OF s'(4)] f by (simp add: call_step_fields [OF s'(3)] file_write_def del: nth_file_tab)
  moreover have "file_content (file_tab s' ! i) = take ?pos (file_content (file_tab s ! i)) @ ?bs @
       drop (?pos + length ?bs) (file_content (file_tab s ! i))"
    unfolding f using st(7) size assms(3) i(1) by (intro file_write_overwrites) simp_all
  ultimately show ?thesis using that [of s'] s' fd_open_pos [OF s'(4)] len by simp
qed

interpretation fds: byte_stream "stream_ok fd i" chunk_ok chunk_bytes "\<lambda>c s. snd (sys_write fd (fst c) (snd c) s)"
    "\<lambda>s. file_content (file_tab s ! i)" "fd_pos fd" 32768 for fd i
proof
  fix s :: "'a fs_state_scheme" and c d
  assume s: "stream_ok fd i s" and c: "chunk_ok s c" "fd_pos fd s + length (chunk_bytes s c) \<le> 32768"
  let ?s = "snd (sys_write fd (fst c) (snd c) s)"
  show "stream_ok fd i ?s \<and> fd_pos fd ?s = fd_pos fd s + length (chunk_bytes s c) \<and>
      file_content (file_tab ?s ! i) = take (fd_pos fd s) (file_content (file_tab s ! i)) @ chunk_bytes s c @
        drop (fd_pos fd s + length (chunk_bytes s c)) (file_content (file_tab s ! i))"
    by (rule stream_write [OF s c]) simp
  assume d: "chunk_ok s d"
  show "chunk_ok ?s d \<and> chunk_bytes ?s d = chunk_bytes s d"
    by (rule stream_write [OF s c]) (use d in \<open>auto simp: chunk_ok_def chunk_bytes_def call_step_fields call_step_bytes\<close>)
next
  fix s :: "'a fs_state_scheme"
  assume "stream_ok fd i s"
  then show "fd_pos fd s \<le> length (file_content (file_tab s ! i))"
    using fs_ok_entry(2) [of s i] by (auto simp: stream_ok_def file_content_def fd_open_def RAMFS_MAX_FILE_SIZE_def)
qed

section \<open>Listing the processes\<close>

definition ps_at :: "mem \<Rightarrow> u32 \<Rightarrow> nat \<Rightarrow> u32 \<times> u32" where
  "ps_at m e k = (load32 m (e + 8 * of_nat k), load32 m (e + 8 * of_nat k + 4))"

definition proc_info :: "mem \<Rightarrow> u32 \<Rightarrow> u32 \<times> u32" where
  "proc_info m p = (pget m p Pid, pget m p State)"

lemma links_nth: "links m ps e \<Longrightarrow> k < length ps \<Longrightarrow> pget m (ps ! k) Next = (if Suc k < length ps then ps ! Suc k else e)"
proof (induction m ps e arbitrary: k rule: links.induct)
  case (3 m p q ps e)
  then show ?case by (cases k) auto
qed simp_all

lemma unat_ps_entry:
  assumes "unat (e :: u32) + 8 * mx \<le> 2 ^ 32" and "k < mx"
  shows "unat (e + 8 * of_nat k) = unat e + 8 * k" and "unat (e + 8 * of_nat k + 4) = unat e + 8 * k + 4"
proof -
  have "unat (of_nat (8 * k) :: u32) = 8 * k" using assms by (intro unat_of_nat32) simp
  then show a: "unat (e + 8 * of_nat k) = unat e + 8 * k"
    using unat_add_lt [of e "of_nat (8 * k)"] assms by simp
  then show "unat (e + 8 * of_nat k + 4) = unat e + 8 * k + 4" using assms by (subst unat_add_num) simp_all
qed

lemma ps_at_cong:
  assumes "unat (e :: u32) + 8 * mx \<le> 2 ^ 32" and "k < mx"
    and "\<And>x. unat e + 8 * k \<le> unat x \<Longrightarrow> unat x < unat e + 8 * k + 8 \<Longrightarrow> m x = m' x"
  shows "ps_at m e k = ps_at m' e k"
proof -
  note u = unat_ps_entry [OF assms(1,2)]
  have "load32 m (e + 8 * of_nat k) = load32 m' (e + 8 * of_nat k)" "load32 m (e + 8 * of_nat k + 4) = load32 m' (e + 8 * of_nat k + 4)"
    by (rule load32_cong; use assms u in auto)+
  then show ?thesis by (simp add: ps_at_def)
qed

lemma ps_entry_spec:
  assumes "unat e + 8 * mx \<le> 2 ^ 32" and "k < mx" and p: "unat p + 416 \<le> 2 ^ 32" "unat p + 416 \<le> unat e \<or> unat e + 8 * mx \<le> unat p"
  shows "ps_at (ps_entry e (of_nat k) p m) e k = proc_info m p"
    and "unat x < unat e + 8 * k \<or> unat e + 8 * k + 8 \<le> unat x \<Longrightarrow> ps_entry e (of_nat k) p m x = m x"
proof -
  note u = unat_ps_entry [OF assms(1,2)]
  let ?a = "e + 8 * of_nat k"
  let ?m1 = "store32 m ?a (pget m p Pid)"
  have out: "?m1 x = m x" if "unat x < unat e + 8 * k \<or> unat e + 8 * k + 4 \<le> unat x" for x
    using u assms(1,2) that by (intro store32_other) auto
  have s: "pget ?m1 p State = pget m p State"
    using p u assms(2) by (intro pget_cong) (auto intro!: out)
  have m: "ps_entry e (of_nat k) p m = store32 ?m1 (?a + 4) (pget m p State)" by (simp add: ps_entry_def s)
  have "load32 (store32 ?m1 (?a + 4) (pget m p State)) ?a = load32 ?m1 ?a"
    using u assms(1,2) by (intro load32_store32_other) auto
  then show "ps_at (ps_entry e (of_nat k) p m) e k = proc_info m p" by (simp add: m ps_at_def proc_info_def)
  show "unat x < unat e + 8 * k \<or> unat e + 8 * k + 8 \<le> unat x \<Longrightarrow> ps_entry e (of_nat k) p m x = m x"
    unfolding m using u assms(1,2) out by (subst store32_other) auto
qed

text \<open>The room for the list does not overlap the PCBs.\<close>

definition ps_room :: "u32 \<Rightarrow> nat \<Rightarrow> u32 list \<Rightarrow> bool" where
  "ps_room e mx ps \<longleftrightarrow> unat e + 8 * mx \<le> 2 ^ 32 \<and> (\<forall>p \<in> set ps. unat p + 416 \<le> unat e \<or> unat e + 8 * mx \<le> unat p)"

lemma sint_less_unat: "unat (mx :: u32) < 2 ^ 31 \<Longrightarrow> j \<le> unat mx \<Longrightarrow> sint (of_nat j :: u32) < sint mx \<longleftrightarrow> j < unat mx"
proof -
  assume mx: "unat mx < 2 ^ 31" and j: "j \<le> unat mx"
  then have u: "unat (of_nat j :: u32) = j" by (intro unat_of_nat32) simp
  then have "sint (of_nat j :: u32) = int j" using sint_small [of "of_nat j"] mx j by simp
  then show ?thesis unfolding sint_small [OF mx] by (simp only: of_nat_less_iff)
qed

lemma ps_loop_step:
  fixes m :: mem and e mx c :: u32 and k :: nat
  assumes r: "ring m (c # os)" and room: "ps_room e (unat mx) (c # os)" and mx: "unat mx < 2 ^ 31"
    and k: "k < length (c # os)" "k < unat mx"
  defines "m1 \<equiv> ps_entry e (of_nat k) ((c # os) ! k) m"
  shows "ps_loop e mx c ((c # os) ! k) (of_nat k) m = (if Suc k < length (c # os) \<and> Suc k < unat mx
      then ps_loop e mx c ((c # os) ! Suc k) (of_nat (Suc k)) m1 else Some (of_nat (Suc k), m1))"
    and "ps_at m1 e k = proc_info m ((c # os) ! k)"
    and "unat x < unat e + 8 * k \<or> unat e + 8 * k + 8 \<le> unat x \<Longrightarrow> m1 x = m x"
    and "ring m1 (c # os)" and "j < length (c # os) \<Longrightarrow> proc_info m1 ((c # os) ! j) = proc_info m ((c # os) ! j)"
proof -
  let ?ps = "c # os" and ?p = "(c # os) ! k"
  have e: "unat e + 8 * unat mx \<le> 2 ^ 32" using room by (simp add: ps_room_def)
  have ok: "pcbs_ok ?ps" and l: "links m ?ps c" using r by (simp_all add: ring_def)
  have in_ps: "q \<in> set ?ps \<Longrightarrow> unat q + 416 \<le> 2 ^ 32 \<and> q \<noteq> 0 \<and> (unat q + 416 \<le> unat e \<or> unat e + 8 * unat mx \<le> unat q)" for q
    using ok room by (auto simp: pcbs_ok_def ps_room_def)
  have pin: "?p \<in> set ?ps" using k(1) by (rule nth_mem)
  have pp: "unat ?p + 416 \<le> 2 ^ 32" "unat ?p + 416 \<le> unat e \<or> unat e + 8 * unat mx \<le> unat ?p" using in_ps [OF pin] by simp_all
  note w = ps_entry_spec [OF e k(2) pp, where m = m, folded m1_def]
  show "ps_at m1 e k = proc_info m ?p" by (rule w)
  show out: "m1 x = m x" if "unat x < unat e + 8 * k \<or> unat e + 8 * k + 8 \<le> unat x" for x by (rule w(2) [OF that])
  have pg: "pget m1 q f = pget m q f" if "q \<in> set ?ps" for q f
    using in_ps [OF that] k(2) by (intro pget_cong) (auto intro!: out)
  then show "proc_info m1 (?ps ! j) = proc_info m (?ps ! j)" if "j < length ?ps"
    using nth_mem [OF that] by (simp add: proc_info_def)
  have "links m1 ?ps c" using l pg links_cong [of ?ps m1 m c] by blast
  then show "ring m1 ?ps" using ok by (simp add: ring_def)
  have nx: "pget m1 ?p Next = (if Suc k < length ?ps then ?ps ! Suc k else c)"
    using links_nth [OF l k(1)] pg [OF pin] by simp
  have next_in: "Suc k < length ?ps \<Longrightarrow> ?ps ! Suc k \<noteq> 0 \<and> ?ps ! Suc k \<noteq> c"
    using ok in_ps [OF nth_mem, of "Suc k"] by (auto simp: pcbs_ok_def)
  show "ps_loop e mx c ?p (of_nat k) m = (if Suc k < length ?ps \<and> Suc k < unat mx
      then ps_loop e mx c (?ps ! Suc k) (of_nat (Suc k)) m1 else Some (of_nat (Suc k), m1))"
    using sint_less_unat [OF mx, of k] sint_less_unat [OF mx, of "Suc k"] k(2) nx next_in
    by (subst ps_loop.simps) (auto simp: Let_def add.commute simp flip: m1_def)
qed

lemma ps_loop_spec:
  assumes "ring m (c # os)" and room: "ps_room e (unat mx) (c # os)" and mx: "unat mx < 2 ^ 31"
    and "k < length (c # os)" "k < unat mx"
  shows "\<exists>m'. ps_loop e mx c ((c # os) ! k) (of_nat k) m = Some (of_nat (min (unat mx) (length (c # os))), m') \<and>
    (\<forall>x. unat x < unat e + 8 * k \<or> unat e + 8 * unat mx \<le> unat x \<longrightarrow> m' x = m x) \<and>
    (\<forall>j. k \<le> j \<longrightarrow> j < min (unat mx) (length (c # os)) \<longrightarrow> ps_at m' e j = proc_info m ((c # os) ! j))"
  using assms(1,4,5)
proof (induction "unat mx - k" arbitrary: k m rule: less_induct)
  case less
  let ?ps = "c # os" and ?n = "min (unat mx) (length (c # os))" and ?m = "ps_entry e (of_nat k) ((c # os) ! k) m"
  note st = ps_loop_step [OF less.prems(1) room mx less.prems(2,3)]
  show ?case
  proof (cases "Suc k < length ?ps \<and> Suc k < unat mx")
    case False
    then have n: "?n = Suc k" using less.prems(2,3) by (auto simp: min_def)
    then have "ps_loop e mx c (?ps ! k) (of_nat k) m = Some (of_nat ?n, ?m)" using st(1) unfolding if_not_P [OF False] by simp
    moreover have "?m x = m x" if "unat x < unat e + 8 * k \<or> unat e + 8 * unat mx \<le> unat x" for x
      using that less.prems(3) by (intro st(3)) auto
    moreover have "ps_at ?m e j = proc_info m (?ps ! j)" if "k \<le> j" "j < ?n" for j
    proof -
      have "j = k" using that(1) that(2) [unfolded n] by simp
      then show ?thesis using st(2) by simp
    qed
    ultimately show ?thesis by blast
  next
    case True
    have dec: "unat mx - Suc k < unat mx - k" using less.prems(3) by simp
    obtain m' where m': "ps_loop e mx c (?ps ! Suc k) (of_nat (Suc k)) ?m = Some (of_nat ?n, m')"
      "\<And>x. unat x < unat e + 8 * Suc k \<or> unat e + 8 * unat mx \<le> unat x \<Longrightarrow> m' x = ?m x"
      "\<And>j. Suc k \<le> j \<Longrightarrow> j < ?n \<Longrightarrow> ps_at m' e j = proc_info ?m (?ps ! j)"
      using less.hyps [OF dec st(4) conjunct1 [OF True] conjunct2 [OF True]] by blast
    have "unat e + 8 * unat mx \<le> 2 ^ 32" using room by (simp add: ps_room_def)
    then have first: "ps_at m' e k = proc_info m (?ps ! k)"
      using ps_at_cong [OF _ less.prems(3), of e m' ?m] m'(2) st(2) by simp
    have "ps_at m' e j = proc_info m (?ps ! j)" if "k \<le> j" "j < ?n" for j
    proof (cases "j = k")
      case False
      then have j: "Suc k \<le> j" "j < length ?ps" using that by auto
      show ?thesis by (rule trans [OF m'(3) [OF j(1) that(2)] st(5) [OF j(2)]])
    qed (simp add: first)
    moreover have "m' x = m x" if "unat x < unat e + 8 * k \<or> unat e + 8 * unat mx \<le> unat x" for x
      using that less.prems(3) m'(2) [of x] st(3) [of x] by auto
    moreover have "ps_loop e mx c (?ps ! k) (of_nat k) m = Some (of_nat ?n, m')" using st(1) m'(1) unfolding if_P [OF True] by simp
    ultimately show ?thesis by blast
  qed
qed

section \<open>Opening and closing\<close>

lemma free_fd_find: "free_fd is p m = (case List.find (\<lambda>i. fd_in_use m p (of_nat i) = 0) is of None \<Rightarrow> -1 | Some i \<Rightarrow> of_nat i)"
  by (induction "is") auto

lemma unat_fd: "f < MAX_FDS \<Longrightarrow> unat (of_nat f :: u32) = f"
  by (rule unat_of_nat32) (simp add: MAX_FDS_def)

lemma set_fd_get:
  assumes "unat p + 416 \<le> 2 ^ 32" and "unat fd < MAX_FDS"
  shows "fd_offset (set_fd p fd i v u m) p fd = v" "fd_in_use (set_fd p fd i v u m) p fd = u"
    "fd_file_idx (set_fd p fd i v u m) p fd = i"
    and "unat x < unat (fd_addr p fd) \<or> unat (fd_addr p fd) + 12 \<le> unat x \<Longrightarrow> set_fd p fd i v u m x = m x"
proof -
  note a = unat_fd_addr [OF assms]
  have f: "unat fd < 32" using assms(2) by (simp add: MAX_FDS_def)
  let ?m2 = "store32 (store32 m (fd_addr p fd) i) (fd_addr p fd + 4) v"
  show "fd_in_use (set_fd p fd i v u m) p fd = u" by (simp add: fd_in_use_def set_fd_def)
  have "load32 (?m2(fd_addr p fd + 8 := u)) (fd_addr p fd + 4) = load32 ?m2 (fd_addr p fd + 4)"
    "load32 (?m2(fd_addr p fd + 8 := u)) (fd_addr p fd) = load32 ?m2 (fd_addr p fd)"
    by (rule load32_upd_other; use a f assms(1) in auto)+
  moreover have "load32 ?m2 (fd_addr p fd) = load32 (store32 m (fd_addr p fd) i) (fd_addr p fd)"
    by (rule load32_store32_other) (use a f assms(1) in auto)
  ultimately show "fd_offset (set_fd p fd i v u m) p fd = v" "fd_file_idx (set_fd p fd i v u m) p fd = i"
    by (simp_all add: fd_offset_def fd_file_idx_def set_fd_def)
  show "set_fd p fd i v u m x = m x" if "unat x < unat (fd_addr p fd) \<or> unat (fd_addr p fd) + 12 \<le> unat x"
  proof -
    have "store32 m (fd_addr p fd) i x = m x" by (rule store32_other) (use that a f assms(1) in auto)
    moreover have "?m2 x = store32 m (fd_addr p fd) i x" by (rule store32_other) (use that a f assms(1) in auto)
    moreover have "x \<noteq> fd_addr p fd + 8" using that a by auto
    ultimately show ?thesis by (simp add: set_fd_def)
  qed
qed

lemma sys_open_spec:
  fixes s :: "'a fs_state_scheme"
  assumes ok: "fs_ok s" "mounted_fs s = Some Ramfs_ops" "pcb_ok s" and nm: "str_at (mem s) p nm" "hd0 nm \<noteq> 0x2F"
  defines "slot \<equiv> List.find (\<lambda>i. fd_in_use (mem s) (current s) (of_nat i) = 0) [3..<MAX_FDS]"
  shows "slot = None \<or> tab_find nm (file_tab s) = None \<Longrightarrow> sys_open p s = Some (-1, s)"
    and "slot = Some f \<Longrightarrow> tab_find nm (file_tab s) = Some i \<Longrightarrow>
      \<exists>s'. sys_open p s = Some (of_nat f, s') \<and> 3 \<le> f \<and> f < 32 \<and> fs_ok s' \<and> file_tab s' = file_tab s \<and> call_step s s' \<and>
        fd_open s' (of_nat f) i 0 \<and> (\<forall>fd j pos. fd \<noteq> of_nat f \<longrightarrow> fd_open s' fd j pos = fd_open s fd j pos) \<and>
        (\<forall>g. unat g < MAX_FDS \<longrightarrow> fd_in_use (mem s') (current s) g = (if g = of_nat f then 1 else fd_in_use (mem s) (current s) g))"
proof -
  have c: "scheduler_current s = current s" "current s \<noteq> 0" using ok(3) by (simp_all add: scheduler_current_def pcb_ok_def)
  have o: "vfs_open p s = Some (idx_ret (tab_find nm (file_tab s)))" using open_plain [OF ok(1) nm] ok(2) by (simp add: vfs_ramfs)
  have sf: "sint (of_nat f :: u32) = int f" if "f < MAX_FDS" for f
    using sint_small [of "of_nat f"] unat_fd [OF that] that by (simp add: MAX_FDS_def)
  have s3: "f < MAX_FDS \<and> 3 \<le> f" if "slot = Some f" for f
  proof -
    have "f \<in> set [3..<MAX_FDS]" using that unfolding slot_def find_Some_iff by (metis nth_mem)
    then show ?thesis by simp
  qed
  have ri: "0 \<le> sint (idx_ret (tab_find nm (file_tab s))) \<longleftrightarrow> tab_find nm (file_tab s) \<noteq> None"
    using tab_found(1) by (intro idx_ret_sign) fastforce
  show "sys_open p s = Some (-1, s)" if "slot = None \<or> tab_find nm (file_tab s) = None"
    using that c o ri s3 sf by (cases slot) (auto simp: sys_open_def Let_def free_fd_find idx_ret_def simp flip: slot_def)
  assume slot: "slot = Some f" and found: "tab_find nm (file_tab s) = Some i"
  let ?s = "s\<lparr>mem := set_fd (current s) (of_nat f) (of_nat i) 0 1 (mem s)\<rparr>"
  have f: "unat (of_nat f :: u32) = f" "f < 32" "3 \<le> f" "unat (of_nat f :: u32) < MAX_FDS"
    using s3 [OF slot] unat_fd by (auto simp: MAX_FDS_def)
  have run: "sys_open p s = Some (of_nat f, ?s)"
    using c o slot found s3 [OF slot] sf [of f] ri by (simp add: sys_open_def Let_def free_fd_find idx_ret_def flip: slot_def)
  note p = pcb_ok_fits [OF ok(3)]
  note g = set_fd_get [OF p f(4)] and a = unat_fd_addr [OF p f(4)]
  have out: "set_fd (current s) (of_nat f) (of_nat i) 0 1 (mem s) x = mem s x"
    if "unat x < unat (current s) \<or> unat (current s) + 416 \<le> unat x" for x
    using that a f by (intro g(4)) auto
  note t = pcb_update_table [OF ok(1,3) out]
  have "fd_open ?s (of_nat f) i 0"
    using g(1-3) f(4) tab_find_Some [OF found] t(1) by (simp add: fd_open_def ramfs_consts del: nth_file_tab)
  moreover have other: "fd_in_use (mem ?s) (current s) fd = fd_in_use (mem s) (current s) fd"
    "fd_file_idx (mem ?s) (current s) fd = fd_file_idx (mem s) (current s) fd"
    "fd_offset (mem ?s) (current s) fd = fd_offset (mem s) (current s) fd" if "fd \<noteq> of_nat f" "unat fd < MAX_FDS" for fd
  proof -
    have "unat fd \<noteq> f" using that(1) f(1) by (metis word_unat_eq_iff)
    then have same: "set_fd (current s) (of_nat f) (of_nat i) 0 1 (mem s) x = mem s x"
      if "unat (current s) + 32 + 12 * unat fd \<le> unat x" "unat x < unat (current s) + 44 + 12 * unat fd" for x
      using that a f by (intro g(4)) auto
    show "fd_in_use (mem ?s) (current s) fd = fd_in_use (mem s) (current s) fd"
      "fd_file_idx (mem ?s) (current s) fd = fd_file_idx (mem s) (current s) fd"
      "fd_offset (mem ?s) (current s) fd = fd_offset (mem s) (current s) fd"
      using fd_fields_cong [OF p that(2) same] by simp_all
  qed
  moreover have "fd_open ?s fd j pos = fd_open s fd j pos" if "fd \<noteq> of_nat f" for fd j pos
    using other [OF that] t(1) by (cases "unat fd < MAX_FDS") (simp_all add: fd_open_def del: nth_file_tab)
  ultimately show "\<exists>s'. sys_open p s = Some (of_nat f, s') \<and> 3 \<le> f \<and> f < 32 \<and> fs_ok s' \<and> file_tab s' = file_tab s \<and> call_step s s' \<and>
        fd_open s' (of_nat f) i 0 \<and> (\<forall>fd j pos. fd \<noteq> of_nat f \<longrightarrow> fd_open s' fd j pos = fd_open s fd j pos) \<and>
        (\<forall>g. unat g < MAX_FDS \<longrightarrow> fd_in_use (mem s') (current s) g = (if g = of_nat f then 1 else fd_in_use (mem s) (current s) g))"
    using run f t(1,2) pcb_update_call [OF ok(1,3) out] g(2) by (intro exI [of _ ?s]) simp
qed

section \<open>Input and output\<close>

text \<open>Screen and keyboard change neither memory nor processes nor files.\<close>

definition io_step :: "'a kbd_state_scheme \<Rightarrow> 'a kbd_state_scheme \<Rightarrow> bool" where
  "io_step s s' \<longleftrightarrow> s' = s\<lparr>ports := ports s', vga_buf := vga_buf s', vga_col := vga_col s', vga_row := vga_row s',
     interrupts_on := interrupts_on s', tick_count := tick_count s', kbd_buffer := kbd_buffer s', kbd_head := kbd_head s',
     kbd_tail := kbd_tail s', shift_held := shift_held s'\<rparr>"

lemma io_step_fields:
  assumes "io_step s s'"
  shows "mem s' = mem s" "current s' = current s" "run_queue s' = run_queue s" "ticks_per_second s' = ticks_per_second s"
    "vga_color s' = vga_color s" "irq_handlers s' = irq_handlers s" "kbd_state.more s' = kbd_state.more s"
  by (subst assms [unfolded io_step_def], simp)+

lemma io_step_fs:
  fixes s :: "'a fs_state_scheme"
  assumes "io_step s s'"
  shows "files_addr s' = files_addr s" "mounted_fs s' = mounted_fs s" "file_tab s' = file_tab s" "fs_ok s' = fs_ok s"
    "off_table s' p n = off_table s p n" "user_range s' p n = user_range s p n" "pcb_ok s' = pcb_ok s"
    "fd_open s' fd i pos = fd_open s fd i pos" "handlers_set s' = handlers_set s"
proof -
  show f: "files_addr s' = files_addr s" "mounted_fs s' = mounted_fs s"
    by (subst assms [unfolded io_step_def], simp)+
  note m = io_step_fields [OF assms]
  show t: "file_tab s' = file_tab s" "fs_ok s' = fs_ok s"
    by (rule file_tab_cong fs_ok_cong; simp add: f m)+
  show "off_table s' p n = off_table s p n" "user_range s' p n = user_range s p n" "pcb_ok s' = pcb_ok s"
    "fd_open s' fd i pos = fd_open s fd i pos" "handlers_set s' = handlers_set s"
    by (simp_all add: off_table_def user_range_def pcb_ok_def fd_open_def handlers_set_def f m t(1) del: nth_file_tab)
qed

lemma io_step_refl [simp]: "io_step s s"
  by (simp add: io_step_def)

lemma io_step_trans: "io_step a b \<Longrightarrow> io_step b c \<Longrightarrow> io_step a c"
proof -
  assume ab: "io_step a b" and bc: "io_step b c"
  have "c = b\<lparr>ports := ports c, vga_buf := vga_buf c, vga_col := vga_col c, vga_row := vga_row c,
     interrupts_on := interrupts_on c, tick_count := tick_count c, kbd_buffer := kbd_buffer c, kbd_head := kbd_head c,
     kbd_tail := kbd_tail c, shift_held := shift_held c\<rparr>" using bc by (simp only: io_step_def)
  also have "\<dots> = a\<lparr>ports := ports c, vga_buf := vga_buf c, vga_col := vga_col c, vga_row := vga_row c,
     interrupts_on := interrupts_on c, tick_count := tick_count c, kbd_buffer := kbd_buffer c, kbd_head := kbd_head c,
     kbd_tail := kbd_tail c, shift_held := shift_held c\<rparr>" by (subst ab [unfolded io_step_def]) simp
  finally show ?thesis by (simp only: io_step_def)
qed

lemma io_step_mem: "io_step s s' \<Longrightarrow> io_step (s\<lparr>mem := m\<rparr>) (s'\<lparr>mem := m\<rparr>)"
proof -
  assume "io_step s s'"
  then have "s'\<lparr>mem := m\<rparr> = s\<lparr>ports := ports s', vga_buf := vga_buf s', vga_col := vga_col s', vga_row := vga_row s',
     interrupts_on := interrupts_on s', tick_count := tick_count s', kbd_buffer := kbd_buffer s', kbd_head := kbd_head s',
     kbd_tail := kbd_tail s', shift_held := shift_held s', mem := m\<rparr>" by (subst (asm) io_step_def) (rule arg_cong [where f = "\<lambda>s. s\<lparr>mem := m\<rparr>"])
  then show ?thesis by (simp add: io_step_def)
qed

lemma io_step_putchar: "io_step s (vga_putchar c s)"
  by (rule vga_putchar_frame [of c s]) (simp add: io_step_def)

lemma io_step_puts: "io_step s (fold vga_putchar cs s)"
  by (induction cs arbitrary: s) (auto intro: io_step_trans io_step_putchar)

lemma io_step_kprintf: "io_step s (kprintf f args s)"
  by (simp add: kprintf_def kprintf_loop_text io_step_puts)

lemma io_step_deliver: "handlers_set s \<Longrightarrow> io_step s (deliver i s)"
  by (cases i) (auto simp: deliver_eq io_step_def outb_def timer_irq_tick_def timer_tick_def keyboard_irq_handler_def
      kbd_push_def Let_def)

text \<open>Waiting for a character is turning interrupts on, taking some, and moving the read position.\<close>

lemma getchar_steps:
  fixes s :: "'a kbd_state_scheme"
  assumes "keyboard_getchar irqs s = Some (c, irqs', s')" and "handlers_set s" and "kbd_inv s"
    and trans: "\<And>a b c. R a b \<Longrightarrow> R b c \<Longrightarrow> R a c" and on: "\<And>a. R a (a\<lparr>interrupts_on := True\<rparr>)"
    and del: "\<And>a i. handlers_set a \<Longrightarrow> R a (deliver i a)" and take: "\<And>a n. R a (a\<lparr>kbd_tail := n\<rparr>)"
  shows "R s s'"
  using assms(1-3)
proof (induction irqs arbitrary: s)
  case Nil
  then show ?case using take by (subst (asm) keyboard_getchar.simps) (auto split: if_splits)
next
  case (Cons i irqs)
  let ?s = "s\<lparr>interrupts_on := True\<rparr>"
  have h: "handlers_set ?s" "kbd_inv ?s" using Cons.prems by simp_all
  note d = deliver_queue [OF h(2,1), of i]
  show ?case
  proof (cases "kbd_tail s = kbd_head s")
    case True
    then have "keyboard_getchar irqs (deliver i ?s) = Some (c, irqs', s')"
      using Cons.prems(1) by (subst (asm) keyboard_getchar.simps) simp
    then have "R (deliver i ?s) s'" using Cons.IH d by blast
    then show ?thesis using trans [OF on trans [OF del [OF h(1)]]] by blast
  next
    case False
    then show ?thesis using Cons.prems(1) take by (subst (asm) keyboard_getchar.simps) auto
  qed
qed

lemma io_step_getchar:
  "handlers_set s \<Longrightarrow> kbd_inv s \<Longrightarrow> keyboard_getchar irqs s = Some (c, irqs', s') \<Longrightarrow> io_step s s'"
  by (rule getchar_steps [of irqs s c irqs' s' io_step])
    (assumption | rule io_step_deliver | rule io_step_trans, assumption | simp add: io_step_def)+

lemma put_buf_text: "put_buf buf n s = fold vga_putchar (load_bytes (mem s) buf n) s"
proof (induction n)
  case (Suc n)
  have "put_buf buf (Suc n) s = vga_putchar (mem (put_buf buf n s) (buf + of_nat n)) (put_buf buf n s)"
    by (simp add: put_buf_def)
  moreover have "mem (put_buf buf n s) = mem s" unfolding Suc by (rule io_step_fields [OF io_step_puts])
  moreover have "load_bytes (mem s) buf (Suc n) = load_bytes (mem s) buf n @ [mem s (buf + of_nat n)]"
    using load_bytes_add [of "mem s" buf n 1] by simp
  ultimately show ?case using Suc by (simp del: load_bytes.simps)
qed (simp add: put_buf_def)

text \<open>Reading \<open>n\<close> characters takes the first \<open>n\<close> that are waiting or typed, in order.\<close>

definition input :: "hw_irq list \<Rightarrow> 'a kbd_state_scheme \<Rightarrow> u8 list" where
  "input irqs s = kbd_queue s @ typed (shift_held s) irqs"

lemma get_buf_input:
  fixes s :: "'a fs_state_scheme"
  assumes "kbd_inv s" and "handlers_set s" and "n \<le> length (input irqs s)" and "unat buf + n \<le> 2 ^ 32"
  shows "\<exists>irqs' s'. get_buf n buf irqs s = Some (irqs', s') \<and> kbd_inv s' \<and> handlers_set s' \<and>
    input irqs s = take n (input irqs s) @ input irqs' s' \<and>
    io_step (s\<lparr>mem := store_bytes (mem s) buf (take n (input irqs s))\<rparr>) s'"
  using assms
proof (induction n arbitrary: buf irqs s)
  case 0
  then show ?case by simp
next
  case (Suc n)
  obtain c irqs1 s1 where g: "keyboard_getchar irqs s = Some (c, irqs1, s1)"
    using getchar_conserves [OF Suc.prems(1,2), of irqs] Suc.prems(3) by (cases "keyboard_getchar irqs s") (auto simp: input_def simp del: length_kbd_queue)
  then have s1: "kbd_inv s1" "handlers_set s1" "input irqs s = c # input irqs1 s1"
    using getchar_conserves [OF Suc.prems(1,2), of irqs] by (simp_all add: input_def)
  note io = io_step_getchar [OF Suc.prems(2,1) g]
  let ?s = "s1\<lparr>mem := (mem s1)(buf := c)\<rparr>"
  have u: "kbd_inv ?s" "handlers_set ?s" "input irqs1 ?s = input irqs1 s1"
    using s1(1,2) by (simp_all add: kbd_inv_def handlers_set_def input_def kbd_queue_def kbd_count_def)
  have "unat (buf + 1) + n \<le> 2 ^ 32"
    using Suc.prems(4) unat_add_one [of buf] unat_bound32 [of "buf + 1"] by (cases n) auto
  moreover have "n \<le> length (input irqs1 ?s)" using Suc.prems(3) s1(3) u(3) by simp
  ultimately obtain irqs' s' where IH: "get_buf n (buf + 1) irqs1 ?s = Some (irqs', s')" "kbd_inv s'" "handlers_set s'"
    "input irqs1 s1 = take n (input irqs1 s1) @ input irqs' s'"
    "io_step (?s\<lparr>mem := store_bytes (mem ?s) (buf + 1) (take n (input irqs1 s1))\<rparr>) s'"
    using Suc.IH [OF u(1,2)] u(3) by metis
  have "io_step (s\<lparr>mem := store_bytes (mem s) buf (take (Suc n) (input irqs s))\<rparr>) s'"
    using io_step_trans [OF io_step_mem [OF io], of "store_bytes ((mem s1)(buf := c)) (buf + 1) (take n (input irqs1 s1))" s']
      IH(5) s1(3) io_step_fields(1) [OF io] by simp
  then show ?case using g IH(1-4) s1(3) by (intro exI [of _ irqs'] exI [of _ s']) simp
qed

section \<open>Every call returns\<close>

lemma sint_succ: "sint (c :: u32) < sint (d :: u32) \<Longrightarrow> sint (c + 1) = sint c + 1"
proof -
  assume lt: "sint c < sint d"
  have d: "sint d < 2147483648" using sint_less [of d] by simp
  have u: "uint (c + 1) = (uint c + 1) mod 4294967296" by (simp add: uint_word_ariths)
  have b: "0 \<le> uint c" "uint c < 4294967296" using uint_bounded [of c] by simp_all
  have s: "sint w = (if uint w < 2147483648 then uint w else uint w - 4294967296)" for w :: u32
    using sint32 [of w] by simp
  show ?thesis
  proof (cases "uint c = 4294967295")
    case True
    then show ?thesis using u by (simp add: s)
  next
    case False
    then have "uint (c + 1) = uint c + 1" using u b by simp
    then show ?thesis using lt d s [of c] s [of "c + 1"] by (auto split: if_splits)
  qed
qed

lemma ps_loop_returns: "sint count < sint mx \<Longrightarrow> ps_loop e mx cur p count m \<noteq> None"
proof (induction "nat (sint mx - sint count)" arbitrary: p count m rule: less_induct)
  case less
  have "sint (count + 1) < sint mx \<Longrightarrow> ps_loop e mx cur q (count + 1) m' \<noteq> None" for q m'
    using less.prems sint_succ [OF less.prems] by (intro less.hyps) auto
  then show ?case using less.prems by (subst ps_loop.simps) (auto simp: Let_def)
qed

lemma sys_ps_returns: "\<exists>r. sys_ps e mx s = Some r"
  using ps_loop_returns [of 0 mx e "current s" "current s" "mem s"] by (auto simp: sys_ps_def Let_def scheduler_current_def)

lemma sys_open_returns:
  assumes "fs_ok s"
  shows "\<exists>r. sys_open p s = Some r"
proof -
  have "vfs_open p s \<noteq> None"
    using find_file_any [OF assms] by (cases "mounted_fs s") (auto simp: vfs_open_def ramfs_open_def split: fs_ops.splits)
  then show ?thesis by (auto simp: sys_open_def Let_def)
qed

lemma sys_read_returns: "fd \<noteq> 0 \<Longrightarrow> \<exists>v s'. sys_read fd buf len irqs s = Some (v, irqs, s')"
  by (auto simp: sys_read_def split: option.splits prod.splits)

lemma sys_exit_leaves: "\<exists>t. sys_exit code s = Switched t \<or> sys_exit code s = Halted t"
  by (auto simp: sys_exit_def khalt_def Let_def split: sum.splits)

end
