(* ===== verification/Syscall_laws.thy ===== *)
theory Syscall_laws
  imports Syscall
begin

text \<open>
  What programs may rely on when they make system calls: a file written through a descriptor reads
  back, \<open>ps\<close> lists the scheduler's ring, \<open>exit\<close> ends the caller only, every call comes back, and none
  breaks the screen, the keyboard buffer or the interrupt handlers.
\<close>

section \<open>Files through descriptors\<close>

lemma sys_close_spec:
  fixes s :: "'a fs_state_scheme" and fd :: u32
  assumes ok: "fs_ok s" "mounted_fs s = Some Ramfs_ops" "pcb_ok s" and fd: "fd_open s fd i pos" "3 \<le> unat fd"
  obtains s' where "sys_close fd s = (0, s')" "fs_ok s'" "call_step s s'" "file_tab s' = file_tab s"
    "\<forall>g. unat g < MAX_FDS \<longrightarrow> fd_in_use (mem s') (current s) g = (if g = fd then 0 else fd_in_use (mem s) (current s) g)"
proof -
  have p: "unat (current s) + 416 \<le> 2 ^ 32" by (rule pcb_ok_fits [OF ok(3)])
  have f: "unat fd < MAX_FDS" and use: "fd_in_use (mem s) (current s) fd \<noteq> 0" using fd(1) by (simp_all add: fd_open_def)
  note a = unat_fd_addr [OF p f]
  have f32: "unat fd < 32" using f by (simp add: MAX_FDS_def)
  let ?m1 = "(mem s)(fd_addr (current s) fd + 8 := 0)"
  let ?m2 = "store32 ?m1 (fd_addr (current s) fd) (-1)"
  let ?m3 = "set_fd_offset (current s) fd 0 ?m2"
  have out2: "?m2 x = ?m1 x" if "unat x < unat (fd_addr (current s) fd) \<or> unat (fd_addr (current s) fd) + 4 \<le> unat x" for x
    using that a f32 p by (intro store32_other) auto
  have out3: "?m3 x = ?m2 x" if "unat x < unat (fd_addr (current s) fd + 4) \<or> unat (fd_addr (current s) fd + 4) + 4 \<le> unat x" for x
    unfolding set_fd_offset_def using that a f32 p by (intro store32_other) auto
  have out: "?m3 x = mem s x" if "unat x < unat (current s) \<or> unat (current s) + 416 \<le> unat x" for x
    using out3 [of x] out2 [of x] that a f32 by auto
  have used: "fd_in_use ?m3 (current s) g = (if g = fd then 0 else fd_in_use (mem s) (current s) g)" if g: "unat g < MAX_FDS" for g
  proof -
    have g32: "unat g < 32" using g by (simp add: MAX_FDS_def)
    have ne: "g \<noteq> fd \<Longrightarrow> unat g \<noteq> unat fd" by (simp add: word_unat_eq_iff)
    note b = unat_fd_addr [OF p g]
    have "?m3 (fd_addr (current s) g + 8) = ?m2 (fd_addr (current s) g + 8)" "?m2 (fd_addr (current s) g + 8) = ?m1 (fd_addr (current s) g + 8)"
      using a b by (intro out3 out2; presburger)+
    moreover have "fd_addr (current s) g + 8 = fd_addr (current s) fd + 8 \<longleftrightarrow> g = fd" using a(3) b(3) ne by (cases "g = fd") auto
    ultimately show ?thesis by (simp add: fd_in_use_def)
  qed
  have "\<not> fd < 3" "\<not> of_nat MAX_FDS \<le> fd" using fd(2) f by (auto simp: word_less_nat_alt word_le_nat_alt MAX_FDS_def)
  then have run: "sys_close fd s = (0, s\<lparr>mem := ?m3\<rparr>)"
    using use ok(2,3) by (simp add: sys_close_def Let_def scheduler_current_def pcb_ok_def vfs_close_def ramfs_close_def)
  show ?thesis
    using that [OF run] pcb_update_table [OF ok(1,3) out] pcb_update_call [OF ok(1,3) out] used by simp
qed

lemma str_at_call: "call_step s s' \<Longrightarrow> user_range s p (Suc (length nm)) \<Longrightarrow> str_at (mem s) p nm \<Longrightarrow> str_at (mem s') p nm"
  using call_step_bytes [of s s' p "Suc (length nm)"] by (simp add: str_at_load)

lemma call_step_refl: "call_step s s"
  by (simp add: call_step_def)

text \<open>Writing leaves the names in the table, and the files other than the one written to.\<close>

definition same_but :: "nat \<Rightarrow> ram_file list \<Rightarrow> ram_file list \<Rightarrow> bool" where
  "same_but i t t' \<longleftrightarrow> map (\<lambda>f. (rf_used f, rf_name f)) t' = map (\<lambda>f. (rf_used f, rf_name f)) t \<and>
     (\<forall>j < length t. j \<noteq> i \<longrightarrow> t' ! j = t ! j)"

lemma same_but_length: "same_but i t t' \<Longrightarrow> length t' = length t"
  unfolding same_but_def by (metis length_map)

lemma same_but_nth: "same_but i t t' \<Longrightarrow> j < length t \<Longrightarrow> rf_used (t' ! j) = rf_used (t ! j) \<and> rf_name (t' ! j) = rf_name (t ! j)"
proof -
  assume s: "same_but i t t'" and j: "j < length t"
  have "map (\<lambda>f. (rf_used f, rf_name f)) t' ! j = map (\<lambda>f. (rf_used f, rf_name f)) t ! j" using s by (simp only: same_but_def)
  then show ?thesis using j same_but_length [OF s] by simp
qed

lemma same_but_find:
  assumes "same_but i t t'"
  shows "tab_find nm t' = tab_find nm t"
  unfolding tab_find_def same_but_length [OF assms] by (intro find_cong) (use same_but_nth [OF assms] in auto)

lemma same_but_trans: "same_but i a b \<Longrightarrow> same_but i b c \<Longrightarrow> same_but i a c"
  using same_but_length [of i a b] by (simp add: same_but_def)

lemma same_but_write: "i < length t \<Longrightarrow> same_but i t (t[i := file_write pos bs (t ! i)])"
  by (auto simp: same_but_def map_update file_write_def list_update_same_conv)

lemma stream_writes:
  fixes s :: "'a fs_state_scheme"
  assumes "stream_ok fd i s" and "\<And>c. c \<in> set cs \<Longrightarrow> chunk_ok s c" and "fd_pos fd s + length (concat (map (chunk_bytes s) cs)) \<le> 32768"
  defines "s' \<equiv> fold (\<lambda>c s. snd (sys_write fd (fst c) (snd c) s)) cs s"
  shows "call_step s s' \<and> same_but i (file_tab s) (file_tab s')"
  using assms(1-3) unfolding s'_def
proof (induction cs arbitrary: s)
  case (Cons c cs)
  let ?run = "\<lambda>s. fold (\<lambda>c s. snd (sys_write fd (fst c) (snd c) s)) cs s"
  have c: "chunk_ok s c" "fd_pos fd s + length (chunk_bytes s c) \<le> 32768" using Cons.prems by simp_all
  obtain s1 where s1: "sys_write fd (fst c) (snd c) s = (snd c, s1)" "stream_ok fd i s1" "call_step s s1"
    "fd_pos fd s1 = fd_pos fd s + length (chunk_bytes s c)"
    "file_tab s1 = (file_tab s)[i := file_write (fd_pos fd s) (chunk_bytes s c) (file_tab s ! i)]"
    by (rule stream_write [OF Cons.prems(1) c])
  have k: "chunk_ok s1 d \<and> chunk_bytes s1 d = chunk_bytes s d" if "d \<in> set cs" for d
    using fds.put_keeps [OF Cons.prems(1) c, of d] Cons.prems(2) that s1(1) by simp
  then have eq: "map (chunk_bytes s1) cs = map (chunk_bytes s) cs" by simp
  have fit: "fd_pos fd s1 + length (concat (map (chunk_bytes s1) cs)) \<le> 32768" unfolding eq using Cons.prems(3) s1(4) by simp
  have "call_step s1 (?run s1) \<and> same_but i (file_tab s1) (file_tab (?run s1))"
    by (rule Cons.IH [OF s1(2) _ fit]) (use k in blast)
  moreover have "same_but i (file_tab s) (file_tab s1)" unfolding s1(5)
    using Cons.prems(1) by (intro same_but_write) (simp add: stream_ok_def fd_open_def)
  ultimately show ?case using call_step_trans [OF s1(3)] same_but_trans s1(1) by auto
qed (simp add: call_step_refl same_but_def)

lemma free_slot:
  assumes "\<exists>fd \<in> {3..<MAX_FDS}. fd_in_use m p (of_nat fd) = 0"
  obtains f where "List.find (\<lambda>i. fd_in_use m p (of_nat i) = 0) [3..<MAX_FDS] = Some f" "3 \<le> f" "f < 32"
proof -
  have ex: "List.find (\<lambda>i. fd_in_use m p (of_nat i) = 0) [3..<MAX_FDS] \<noteq> None" using assms by (auto simp: find_None_iff)
  then obtain f where f: "List.find (\<lambda>i. fd_in_use m p (of_nat i) = 0) [3..<MAX_FDS] = Some f" by blast
  then have "f \<in> set [3..<MAX_FDS]" unfolding find_Some_iff by (metis nth_mem)
  then have "3 \<le> f" "f < 32" unfolding set_upt MAX_FDS_def by simp_all
  then show ?thesis using that [OF f] by blast
qed

lemma stream_okD:
  "stream_ok fd i s \<Longrightarrow> fs_ok s" "stream_ok fd i s \<Longrightarrow> mounted_fs s = Some Ramfs_ops" "stream_ok fd i s \<Longrightarrow> pcb_ok s"
  "stream_ok fd i s \<Longrightarrow> fd_open s fd i (fd_pos fd s)"
  by (simp_all add: stream_ok_def del: nth_file_tab)

lemma sys_open_free:
  fixes s :: "'a fs_state_scheme"
  assumes ok: "fs_ok s" "mounted_fs s = Some Ramfs_ops" "pcb_ok s" and nm: "str_at (mem s) p nm" "hd0 nm \<noteq> 0x2F"
    and found: "tab_find nm (file_tab s) = Some i" and free: "\<exists>fd \<in> {3..<MAX_FDS}. fd_in_use (mem s) (current s) (of_nat fd) = 0"
  obtains fd s' where "sys_open p s = Some (fd, s')" "3 \<le> unat fd" "unat fd < 32" "fs_ok s'" "file_tab s' = file_tab s" "call_step s s'"
    "fd_open s' fd i 0" "fd_in_use (mem s) (current s) fd = 0"
    "\<forall>g. unat g < MAX_FDS \<longrightarrow> fd_in_use (mem s') (current s) g = (if g = fd then 1 else fd_in_use (mem s) (current s) g)"
proof -
  obtain f where f: "List.find (\<lambda>i. fd_in_use (mem s) (current s) (of_nat i) = 0) [3..<MAX_FDS] = Some f" "3 \<le> f" "f < 32"
    by (rule free_slot [OF free])
  have u: "unat (of_nat f :: u32) = f" using f(3) by (intro unat_of_nat32) simp
  have z: "fd_in_use (mem s) (current s) (of_nat f) = 0" using f(1) by (auto simp: find_Some_iff)
  show ?thesis using sys_open_spec(2) [OF ok nm f(1) found] that [of "of_nat f"] f(2,3) u z by auto
qed

lemma write_session:
  fixes s :: "'a fs_state_scheme"
  assumes ok: "fs_ok s" "mounted_fs s = Some Ramfs_ops" "pcb_ok s" and fd: "fd_open s fd i 0" "3 \<le> unat fd" "unat fd < 32"
    and cs: "\<forall>c \<in> set cs. chunk_ok s c" and fits: "length (concat (map (chunk_bytes s) cs)) \<le> 32768"
  defines "bs \<equiv> concat (map (chunk_bytes s) cs)"
  obtains s' where "sys_close fd (fold (\<lambda>c s. snd (sys_write fd (fst c) (snd c) s)) cs s) = (0, s')"
    "fs_ok s'" "call_step s s'" "same_but i (file_tab s) (file_tab s')" "fd_in_use (mem s') (current s') fd = 0"
    "file_content (file_tab s' ! i) = bs @ drop (length bs) (file_content (file_tab s ! i))"
proof -
  have st: "stream_ok fd i s"
    using ok fd fd_open_pos [OF fd(1)] by (auto simp: stream_ok_def simp del: nth_file_tab)
  have pos: "fd_pos fd s = 0" by (rule fd_open_pos [OF fd(1)])
  have k: "chunk_ok s c" if "c \<in> set cs" for c using cs that by blast
  have ft: "fd_pos fd s + length (concat (map (chunk_bytes s) cs)) \<le> 32768" unfolding pos using fits by simp
  let ?w = "fold (\<lambda>c s. snd (sys_write fd (fst c) (snd c) s)) cs s"
  note w = fds.puts_concat [OF st k ft, unfolded pos, folded bs_def] and w' = stream_writes [OF st k ft]
  obtain s2 where s2: "sys_close fd ?w = (0, s2)" "fs_ok s2" "call_step ?w s2" "file_tab s2 = file_tab ?w"
    "\<forall>g. unat g < MAX_FDS \<longrightarrow> fd_in_use (mem s2) (current ?w) g = (if g = fd then 0 else fd_in_use (mem ?w) (current ?w) g)" by (rule sys_close_spec [OF stream_okD [OF conjunct1 [OF w]] fd(2)])
  show ?thesis
    using that [OF s2(1,2) call_step_trans [OF conjunct1 [OF w'] s2(3)]] s2(4) s2(5) [rule_format, of fd] fd(3) w w' call_step_fields(3) [OF s2(3)]
    by (simp add: MAX_FDS_def del: nth_file_tab)
qed

text \<open>
  C30. A program's use of a file through the system calls: it opens an existing file by name, writes
  any number of pieces to the descriptor it got, closes it, opens the file again and reads. It gets
  the pieces one after the other, followed by what the file had beyond them, up to the length it
  asked for; the files other than this one are as they were.
\<close>

theorem file_session:
  fixes s :: "'a fs_state_scheme" and p buf len :: u32
  assumes ok: "fs_ok s" "mounted_fs s = Some Ramfs_ops" "pcb_ok s"
    and nm: "str_at (mem s) p nm" "hd0 nm \<noteq> 0x2F" "user_range s p (Suc (length nm))"
    and found: "tab_find nm (file_tab s) = Some i" and free: "\<exists>fd \<in> {3..<MAX_FDS}. fd_in_use (mem s) (current s) (of_nat fd) = 0"
    and cs: "\<forall>c \<in> set cs. chunk_ok s c" and fits: "length (concat (map (chunk_bytes s) cs)) \<le> 32768"
    and buf: "user_range s buf (unat len)"
  defines "bs \<equiv> concat (map (chunk_bytes s) cs)"
  defines "res \<equiv> take (unat len) (bs @ drop (length bs) (file_content (file_tab s ! i)))"
  shows "\<exists>fd s1 s2 fd' s3 s4. sys_open p s = Some (fd, s1) \<and>
      sys_close fd (fold (\<lambda>c s. snd (sys_write fd (fst c) (snd c) s)) cs s1) = (0, s2) \<and>
      sys_open p s2 = Some (fd', s3) \<and> sys_read fd' buf len irqs s3 = Some (of_nat (length res), irqs, s4) \<and>
      load_bytes (mem s4) buf (length res) = res \<and> fs_ok s4 \<and>
      (\<forall>j < RAMFS_MAX_FILES. j \<noteq> i \<longrightarrow> file_tab s4 ! j = file_tab s ! j)"
proof -
  obtain fd s1 where s1: "sys_open p s = Some (fd, s1)" "3 \<le> unat fd" "unat fd < 32" "fs_ok s1" "file_tab s1 = file_tab s"
    "call_step s s1" "fd_open s1 fd i 0" by (rule sys_open_free [OF ok nm(1,2) found free])
  note c1 = call_step_fields [OF s1(6)]
  have k: "chunk_ok s1 c \<and> chunk_bytes s1 c = chunk_bytes s c" if "c \<in> set cs" for c
    using cs that s1(6) c1 by (auto simp: chunk_ok_def chunk_bytes_def call_step_bytes)
  have eq: "map (chunk_bytes s1) cs = map (chunk_bytes s) cs" using k by simp
  have ok1: "mounted_fs s1 = Some Ramfs_ops" "pcb_ok s1" "\<forall>c \<in> set cs. chunk_ok s1 c" using c1 ok k by auto
  obtain s2 where s2: "sys_close fd (fold (\<lambda>c s. snd (sys_write fd (fst c) (snd c) s)) cs s1) = (0, s2)"
    "fs_ok s2" "call_step s1 s2" "same_but i (file_tab s1) (file_tab s2)" "fd_in_use (mem s2) (current s2) fd = 0"
    "file_content (file_tab s2 ! i) = bs @ drop (length bs) (file_content (file_tab s1 ! i))"
    by (rule write_session [OF s1(4) ok1(1,2) s1(7,2,3) ok1(3), unfolded eq, folded bs_def]) (use fits in \<open>simp add: bs_def\<close>)
  have c2: "call_step s s2" by (rule call_step_trans [OF s1(6) s2(3)])
  have ok2: "mounted_fs s2 = Some Ramfs_ops" "pcb_ok s2" "str_at (mem s2) p nm" "tab_find nm (file_tab s2) = Some i"
    using call_step_fields [OF c2] ok str_at_call [OF c2 nm(3,1)] same_but_find [OF s2(4)] found s1(5) by simp_all
  have free2: "\<exists>fd \<in> {3..<MAX_FDS}. fd_in_use (mem s2) (current s2) (of_nat fd) = 0"
    using s2(5) s1(2,3) by (intro bexI [of _ "unat fd"]) (simp_all add: MAX_FDS_def)
  obtain fd' s3 where s3: "sys_open p s2 = Some (fd', s3)" "3 \<le> unat fd'" "unat fd' < 32" "fs_ok s3" "file_tab s3 = file_tab s2"
    "call_step s2 s3" "fd_open s3 fd' i 0" by (rule sys_open_free [OF s2(2) ok2(1-3) nm(2) ok2(4) free2])
  note c3 = call_step_fields [OF call_step_trans [OF c2 s3(6)]]
  have r: "take (unat len) (drop 0 (file_content (file_tab s3 ! i))) = res"
    using s2(6) s3(5) s1(5) by (simp add: res_def del: nth_file_tab)
  have "user_range s3 buf (length res)" using user_range_mono [OF buf, of "length res"] c3(4) by (simp add: res_def)
  then obtain s4 where s4: "sys_read fd' buf len irqs s3 = Some (of_nat (length res), irqs, s4)" "fs_ok s4"
    "file_tab s4 = file_tab s3" "load_bytes (mem s4) buf (length res) = res"
    using sys_read_file [OF s3(4) _ _ s3(7), where buf = buf and len = len, unfolded r] c3(2,6) ok s3(2)
    by (metis unat_0 not_numeral_le_zero)
  have "file_tab s4 ! j = file_tab s ! j" if "j < RAMFS_MAX_FILES" "j \<noteq> i" for j
    using s2(4) that s4(3) s3(5) s1(5) by (simp add: same_but_def del: nth_file_tab)
  then show ?thesis using s1(1) s2(1) s3(1) s4(1,2,4) by (intro exI conjI allI impI)
qed

lemma fs_demo_mem: "unat x < 0x300000 \<Longrightarrow> mem fs_demo x = store_bytes (store_bytes (\<lambda>_. 0) 0x800 (str ''a.txt'' @ [0])) 0x1000 (str ''hello'') x"
  and fs_demo_current: "current fs_demo = 0x80000"
proof -
  let ?s = "kbd_state.extend
     (kbd_demo\<lparr>mem := store_bytes (store_bytes (\<lambda>_. 0) 0x800 (str ''a.txt'' @ [0])) 0x1000 (str ''hello'')\<rparr>)
     (fs_state.fields 0x300000 None) :: fs_state"
  have a: "files_addr ?s = 0x300000" by (simp add: kbd_state.defs fs_state.defs)
  have fit: "files_fit (files_addr ?s)" unfolding a by (simp add: files_fit_def ramfs_consts)
  have m: "mem ?s = store_bytes (store_bytes (\<lambda>_. 0) 0x800 (str ''a.txt'' @ [0])) 0x1000 (str ''hello'')"
    by (simp add: kbd_state.defs fs_state.defs)
  show "mem fs_demo x = store_bytes (store_bytes (\<lambda>_. 0) 0x800 (str ''a.txt'' @ [0])) 0x1000 (str ''hello'') x" if "unat x < 0x300000"
  proof -
    have "off_table ?s x 1" unfolding off_table_def a using that by (simp add: apart_ranges_def ramfs_consts)
    then show ?thesis using ramfs_init_spec(6) [OF fit, of x 1] m by (simp add: fs_demo_def)
  qed
  show "current fs_demo = 0x80000"
    by (simp add: fs_demo_def ramfs_init_def vfs_mount_def kbd_demo_def sched_demo_facts(2) io_step_fields [OF io_step_kprintf] kbd_state.defs fs_state.defs sched_state.defs)
qed

lemma fs_file_demo_step: "table_step fs_demo fs_file_demo" "tab_find (str ''a.txt'') (file_tab fs_file_demo) = Some 0"
proof -
  have l: "length (str ''a.txt'') = 5" by (simp add: str_def)
  obtain s' where s': "vfs_create 0x800 fs_demo = Some (idx_ret (fst (tab_create (str ''a.txt'') (file_tab fs_demo))), s')"
    "file_tab s' = snd (tab_create (str ''a.txt'') (file_tab fs_demo))" "table_step fs_demo s'"
    using vfs_create_table [OF fs_demo_facts(3,1,6)] fs_demo_off [of "0x800" "Suc 5"] l by auto
  have e: "fs_file_demo = s'" using s'(1) by (simp add: fs_file_demo_def)
  then show "table_step fs_demo fs_file_demo" using s'(3) by simp
  have "file_tab s' ! 0 = (file_tab fs_demo ! 0)\<lparr>rf_used := True, rf_name := take 63 (str ''a.txt''), rf_size := 0\<rparr>"
    unfolding s'(2) by (simp add: tab_create_def fs_demo_free ramfs_consts del: nth_file_tab)
  moreover have "length (file_tab s') = Suc 63" by (simp add: ramfs_consts)
  ultimately show "tab_find (str ''a.txt'') (file_tab fs_file_demo) = Some 0"
    unfolding e tab_find_def using l by (simp add: upt_conv_Cons del: nth_file_tab)
qed

lemma fs_file_demo_proc:
  "current fs_file_demo = 0x80000" "pcb_ok fs_file_demo" "unat p + n \<le> 0x80000 \<Longrightarrow> user_range fs_file_demo p n"
  "unat x < 0x300000 \<Longrightarrow> mem fs_file_demo x = mem fs_demo x" "str_at (mem fs_file_demo) 0x800 (str ''a.txt'')"
proof -
  show c: "current fs_file_demo = 0x80000"
    using fs_demo_current by (subst table_step_eq [OF fs_file_demo_step(1)]) simp
  then show "pcb_ok fs_file_demo" using fs_file_demo_off [of "0x80000" 416] by (simp add: pcb_ok_def)
  show "unat p + n \<le> 0x80000 \<Longrightarrow> user_range fs_file_demo p n"
    using fs_file_demo_off [of p n] by (simp add: user_range_def c apart_ranges_def)
  show m: "unat x < 0x300000 \<Longrightarrow> mem fs_file_demo x = mem fs_demo x" for x
    using table_step_out [OF fs_file_demo_step(1), of x 1] fs_demo_off [of x 1] by simp
  have "Suc (length (str ''a.txt'')) = 6" by (simp add: str_def)
  then show "str_at (mem fs_file_demo) 0x800 (str ''a.txt'')"
    using fs_demo_facts(6) table_step_out [OF fs_file_demo_step(1), of "0x800" 6] fs_demo_off [of "0x800" 6] by (simp add: str_at_load)
qed

lemma fs_file_demo_fd: "fd_in_use (mem fs_file_demo) (current fs_file_demo) 3 = 0"
proof -
  have "mem fs_file_demo 0x8004C = mem fs_demo 0x8004C" by (rule fs_file_demo_proc) simp
  moreover have "mem fs_demo 0x8004C = store_bytes (store_bytes (\<lambda>_. 0) 0x800 (str ''a.txt'' @ [0])) 0x1000 (str ''hello'') 0x8004C"
    by (rule fs_demo_mem) simp
  moreover have "store_bytes (store_bytes (\<lambda>_. 0) 0x800 (str ''a.txt'' @ [0])) 0x1000 (str ''hello'') 0x8004C = 0" by code_simp
  ultimately have "mem fs_file_demo 0x8004C = 0" by (simp only:)
  then show ?thesis by (simp add: fd_in_use_def fd_addr_def fs_file_demo_proc)
qed

theorem file_session_witness:
  "\<exists>fd s1 s2 fd' s3 s4. sys_open 0x800 fs_file_demo = Some (fd, s1) \<and>
     sys_close fd (fold (\<lambda>c s. snd (sys_write fd (fst c) (snd c) s)) [(0x1000, 5), (0x1000, 3)] s1) = (0, s2) \<and>
     sys_open 0x800 s2 = Some (fd', s3) \<and> sys_read fd' 0x2000 64 [] s3 = Some (8, [], s4) \<and>
     load_bytes (mem s4) 0x2000 8 = str ''hellohel''"
proof -
  let ?s = fs_file_demo and ?cs = "[(0x1000, 5), (0x1000, 3)] :: (u32 \<times> u32) list"
  have l: "Suc (length (str ''a.txt'')) = 6" "hd0 (str ''a.txt'') \<noteq> 0x2F" by (simp_all add: str_def)
  have h: "load_bytes (mem ?s) 0x1000 5 = str ''hello''" by (rule fs_file_demo_facts)
  have "load_bytes (mem ?s) 0x1000 3 = take 3 (load_bytes (mem ?s) 0x1000 5)" using load_bytes_add [of "mem ?s" "0x1000" 3 2] by simp
  then have h3: "load_bytes (mem ?s) 0x1000 3 = str ''hel''" unfolding h by (simp add: str_def)
  have b: "concat (map (chunk_bytes ?s) ?cs) = str ''hellohel''" unfolding chunk_bytes_def using h h3 by (simp add: str_def)
  have c: "file_content (file_tab ?s ! 0) = []" using fs_file_demo_facts(4) by (simp add: file_content_def del: nth_file_tab)
  have r: "take (unat (64 :: u32)) (str ''hellohel'' @ drop 8 []) = str ''hellohel''" by (simp add: str_def)
  have n: "length (str ''hellohel'') = 8" by (simp add: str_def)
  have ok: "\<forall>c \<in> set ?cs. chunk_ok ?s c" by (simp add: chunk_ok_def fs_file_demo_proc)
  have fr: "\<exists>fd \<in> {3..<MAX_FDS}. fd_in_use (mem ?s) (current ?s) (of_nat fd) = 0"
    using fs_file_demo_fd by (intro bexI [of _ 3]) (simp_all add: MAX_FDS_def)
  have u: "user_range ?s 0x800 (Suc (length (str ''a.txt'')))" "user_range ?s 0x2000 (unat (64 :: u32))"
    unfolding l(1) by (rule fs_file_demo_proc, simp)+
  have fits: "length (concat (map (chunk_bytes ?s) ?cs)) \<le> 32768" unfolding b n by simp
  note file_session [OF fs_file_demo_facts(1,2) fs_file_demo_proc(2,5) l(2) u(1) fs_file_demo_step(2) fr ok fits u(2),
      of "[]", unfolded b c n r of_nat_numeral]
  then show ?thesis by blast
qed

text \<open>
  C34. \<open>ps\<close> lists the processes: the call writes pid and state of the processes of the ring, the
  current one first and the others in the order they are scheduled in, until all are listed or
  \<open>max\<close> are, returns their number, and writes nothing else. With no room it returns -1.
\<close>

theorem sys_ps_lists_queue:
  fixes s :: "'a fs_state_scheme"
  assumes q: "queue s (us @ c # vs)" and c: "current s = c" and room: "ps_room e (unat mx) (us @ c # vs)" and e: "e \<noteq> 0"
  defines "n \<equiv> min (unat mx) (Suc (length vs + length us))"
  shows "if sint mx \<le> 0 then sys_ps e mx s = Some (-1, s) else
    \<exists>m. sys_ps e mx s = Some (of_nat n, s\<lparr>mem := m\<rparr>) \<and> (\<forall>j < n. ps_at m e j = proc_info (mem s) ((c # vs @ us) ! j)) \<and>
      (\<forall>x. unat x < unat e \<or> unat e + 8 * unat mx \<le> unat x \<longrightarrow> m x = mem s x)"
proof (cases "sint mx \<le> 0")
  case False
  have u: "int (unat mx) = uint mx" "uint mx < 4294967296" "0 \<le> uint mx" using uint_bounded [of mx] by simp_all
  have "sint mx = (if uint mx < 2147483648 then uint mx else uint mx - 4294967296)" using sint32 [of mx] by simp
  then have "uint mx < 2147483648 \<and> 0 < uint mx" using False u(2,3) by presburger
  then have "unat mx < 2147483648 \<and> 0 < unat mx" using u(1) by linarith
  then have mx: "unat mx < 2 ^ 31" "0 < unat mx" by simp_all
  have r: "ring (mem s) (c # vs @ us)" using ring_rotate [of "mem s" us "c # vs"] q by (simp add: queue_def)
  have room': "ps_room e (unat mx) (c # vs @ us)" using room by (auto simp: ps_room_def)
  have nz: "scheduler_current s = c" "c \<noteq> 0" using c r by (simp_all add: scheduler_current_def ring_def pcbs_ok_def)
  obtain m where "ps_loop e mx c c 0 (mem s) = Some (of_nat n, m)"
    "\<forall>x. unat x < unat e \<or> unat e + 8 * unat mx \<le> unat x \<longrightarrow> m x = mem s x"
    "\<forall>j < n. ps_at m e j = proc_info (mem s) ((c # vs @ us) ! j)"
    using ps_loop_spec [OF r room' mx(1), of 0] mx(2) by (auto simp: n_def)
  then show ?thesis using False e nz by (auto simp: sys_ps_def Let_def)
qed (simp add: sys_ps_def)


section \<open>What no call can break\<close>

text \<open>
  The parts of the kernel state that are not in memory a caller can name: the screen cursor, the
  keyboard buffer, the interrupt handlers, the clock rate and the mounted filesystem.
\<close>

definition dev_ok :: "'a kbd_state_scheme \<Rightarrow> bool" where
  "dev_ok s \<longleftrightarrow> vga_inv s \<and> kbd_inv s \<and> handlers_set s"

definition dev_keep :: "'a fs_state_scheme \<Rightarrow> 'a fs_state_scheme \<Rightarrow> bool" where
  "dev_keep s s' \<longleftrightarrow> (dev_ok s \<longrightarrow> dev_ok s') \<and> files_addr s' = files_addr s \<and> mounted_fs s' = mounted_fs s \<and>
     ticks_per_second s' = ticks_per_second s"

lemma dev_keep_refl [simp]: "dev_keep s s"
  by (simp add: dev_keep_def)

lemma dev_keep_trans: "dev_keep a b \<Longrightarrow> dev_keep b c \<Longrightarrow> dev_keep a c"
  by (simp add: dev_keep_def)

lemma dev_ok_mem [simp]: "dev_ok (s\<lparr>mem := m\<rparr>) = dev_ok s"
  by (simp add: dev_ok_def vga_inv_def kbd_inv_def handlers_set_def)

lemma dev_keep_mem [simp]: "dev_keep (s\<lparr>mem := m\<rparr>) t = dev_keep s t" "dev_keep s (t\<lparr>mem := m\<rparr>) = dev_keep s t"
  by (simp_all add: dev_keep_def)

lemma dev_keep_io:
  assumes "io_step s s'" and "vga_inv s \<longrightarrow> vga_inv s'" and "dev_ok s \<longrightarrow> kbd_inv s'"
  shows "dev_keep s s'"
  using io_step_fs(1,2,9) [OF assms(1)] io_step_fields(4) [OF assms(1)] assms(2,3) by (simp add: dev_keep_def dev_ok_def)

lemma dev_keep_putchar: "dev_keep s (vga_putchar c s)"
proof -
  have "kbd_inv (vga_putchar c s) = kbd_inv s" by (rule vga_putchar_frame [of c s]) (simp add: kbd_inv_def)
  then show ?thesis using vga_inv_putchar by (intro dev_keep_io io_step_putchar) (auto simp: dev_ok_def)
qed

lemma dev_keep_put_buf: "dev_keep s (put_buf buf n s)"
  unfolding put_buf_def by (induction n) (auto intro: dev_keep_trans dev_keep_putchar)

text \<open>What the screen shows.\<close>

definition screen_of :: "'a vga_state_scheme \<Rightarrow> u16 list \<times> u8 \<times> u8 \<times> u8" where
  "screen_of s = (vga_buf s, vga_col s, vga_row s, vga_color s)"

lemma screen_deliver: "handlers_set s \<Longrightarrow> screen_of (deliver i s) = screen_of s"
  by (cases i) (auto simp: deliver_eq screen_of_def outb_def timer_irq_tick_def timer_tick_def keyboard_irq_handler_def
      kbd_push_def Let_def)

lemma screen_getchar:
  "handlers_set s \<Longrightarrow> kbd_inv s \<Longrightarrow> keyboard_getchar irqs s = Some (c, irqs', s') \<Longrightarrow> screen_of s' = screen_of s"
  by (rule getchar_steps [of irqs s c irqs' s' "\<lambda>a b. screen_of b = screen_of a"]) (auto simp: screen_deliver, simp_all add: screen_of_def)

lemma vga_inv_screen: "screen_of s = screen_of t \<Longrightarrow> vga_inv s = vga_inv t"
  by (simp add: screen_of_def vga_inv_def)

lemma dev_keep_getchar:
  fixes s :: "'a fs_state_scheme"
  assumes "keyboard_getchar irqs s = Some (c, irqs', s')" and "dev_ok s"
  shows "dev_keep s s'"
proof -
  have h: "handlers_set s" "kbd_inv s" using assms(2) by (simp_all add: dev_ok_def)
  show ?thesis
    using io_step_getchar [OF h assms(1)] vga_inv_screen [OF screen_getchar [OF h assms(1)]] getchar_conserves [OF h(2,1), of irqs] assms
    by (intro dev_keep_io) (auto simp: dev_ok_def)
qed

lemma dev_keep_get_buf: "get_buf n buf irqs s = Some (irqs', s') \<Longrightarrow> dev_ok s \<Longrightarrow> dev_keep s s'"
proof (induction n arbitrary: buf irqs s)
  case (Suc n)
  obtain c irqs1 s1 where g: "keyboard_getchar irqs s = Some (c, irqs1, s1)"
    "get_buf n (buf + 1) irqs1 (s1\<lparr>mem := (mem s1)(buf := c)\<rparr>) = Some (irqs', s')"
    using Suc.prems(1) by (auto split: option.splits)
  note k = dev_keep_getchar [OF g(1) Suc.prems(2)]
  then have "dev_ok s1" using Suc.prems(2) by (simp add: dev_keep_def)
  then have "dev_keep (s1\<lparr>mem := (mem s1)(buf := c)\<rparr>) s'" by (intro Suc.IH [OF g(2)]) simp
  then show ?case using k dev_keep_trans by simp blast
qed simp

lemma dev_keep_readdir: "dev_keep s (snd (readdir_from is e mx n s))"
  by (induction "is" e mx n s rule: readdir_from.induct) (auto simp: Let_def intro: dev_keep_trans)

lemma snd_run: "dev_keep s (snd r) \<Longrightarrow> r = (v, t) \<Longrightarrow> dev_keep s t"
  by simp

lemma dev_keep_vfs:
  "dev_keep s (snd (vfs_read f b off len s))" "dev_keep s (snd (vfs_write f b off len s))" "dev_keep s (snd (vfs_close f s))"
  "dev_keep s (snd (vfs_readdir e mx s))"
  by (auto simp: vfs_read_def vfs_write_def vfs_close_def vfs_readdir_def ramfs_read_def ramfs_write_def ramfs_close_def
      ramfs_readdir_def Let_def dev_keep_readdir split: option.split fs_ops.split)

lemmas dev_keep_vfsD = dev_keep_vfs [THEN snd_run]

lemma dev_keep_switch [simp]: "dev_keep s (context_switch c q t) = dev_keep s t"
  by (auto simp: context_switch_def Let_def write_cr3_def dev_keep_def dev_ok_def vga_inv_def kbd_inv_def handlers_set_def
      split: prod.split)

lemma dev_keep_proc [simp]:
  "dev_keep s (t\<lparr>tick_count := n\<rparr>) = dev_keep s t" "dev_keep s (t\<lparr>current := c\<rparr>) = dev_keep s t" "dev_keep s (t\<lparr>tss := x\<rparr>) = dev_keep s t"
  by (simp_all add: dev_keep_def dev_ok_def vga_inv_def kbd_inv_def handlers_set_def)

lemma dev_keep_tick: "scheduler_tick s = Inl t \<or> scheduler_tick s = Inr t \<Longrightarrow> dev_keep s t"
  by (auto simp: scheduler_tick_def Let_def timer_tick_def tss_set_kernel_stack_def split: if_splits)

primrec out_state :: "('r, 's) outcome \<Rightarrow> 's" where
  "out_state (Returned r s) = s"
| "out_state (Switched s) = s"
| "out_state (Halted s) = s"

lemma dev_keep_exit: "dev_keep s (out_state (sys_exit code s))"
proof -
  let ?s = "if scheduler_current s \<noteq> 0
    then s\<lparr>mem := pset (scheduler_current s) Exit_code code (pset (scheduler_current s) State PROC_ZOMBIE (mem s))\<rparr> else s"
  have "dev_keep ?s t" if "scheduler_tick ?s = Inl t \<or> scheduler_tick ?s = Inr t" for t by (rule dev_keep_tick [OF that])
  then show ?thesis by (auto simp: sys_exit_def khalt_def Let_def split: sum.split if_splits)
qed

lemma dev_keep_calls:
  "dev_keep s (snd (sys_write fd buf len s))" "dev_keep s (snd (sys_close fd s))" "dev_keep s (snd (sys_readdir e mx s))"
  "dev_keep s (snd (sys_meminfo e s))" "sys_open p s = Some (v, s') \<Longrightarrow> dev_keep s s'" "sys_ps e mx s = Some (v, s') \<Longrightarrow> dev_keep s s'"
  "sys_read fd buf len irqs s = Some (v, irqs', s') \<Longrightarrow> dev_ok s \<Longrightarrow> dev_keep s s'"
proof -
  show "dev_keep s (snd (sys_write fd buf len s))" "dev_keep s (snd (sys_close fd s))"
    by (auto simp: sys_write_def sys_close_def Let_def dev_keep_put_buf dev_keep_vfs dest: dev_keep_vfsD split: option.splits prod.splits)
  show "dev_keep s (snd (sys_readdir e mx s))" "dev_keep s (snd (sys_meminfo e s))"
    by (simp_all add: sys_readdir_def sys_meminfo_def dev_keep_vfs Let_def)
  show "sys_open p s = Some (v, s') \<Longrightarrow> dev_keep s s'" "sys_ps e mx s = Some (v, s') \<Longrightarrow> dev_keep s s'"
    by (auto simp: sys_open_def sys_ps_def Let_def split: if_splits option.splits)
  show "sys_read fd buf len irqs s = Some (v, irqs', s') \<Longrightarrow> dev_ok s \<Longrightarrow> dev_keep s s'"
    by (auto simp: sys_read_def Let_def dest: dev_keep_vfsD dev_keep_get_buf split: if_splits option.splits prod.splits)
qed


text \<open>The two processes of the scheduler's example, with a keyboard, a cleared screen and no filesystem.\<close>

definition proc_demo :: fs_state where
  "proc_demo = (kbd_state.extend kbd_demo (fs_state.fields 0x300000 None))\<lparr>vga_buf := replicate 2000 0, vga_col := 0, vga_row := 0\<rparr>"

definition int80_frame :: "u32 \<Rightarrow> u32 \<Rightarrow> u32 \<Rightarrow> u32 \<Rightarrow> registers" where
  "int80_frame a b c d = \<lparr>r_edi = 0, r_esi = 0, r_ebp = 0, r_esp_dummy = 0, r_ebx = b, r_edx = d, r_ecx = c, r_eax = a,
     r_int_no = 0x80, r_err_code = 0, r_eip = 0x600010, r_cs = 8, r_eflags = 0x202, r_useresp = 0, r_ss = 0\<rparr>"

lemma proc_demo_facts:
  "queue proc_demo ([] @ 0x80000 # [0x81000])" "current proc_demo = 0x80000" "ready (mem proc_demo) 0x81000"
  "stack_clear ([] @ 0x80000 # [0x81000]) proc_demo" "dev_ok proc_demo"
proof -
  have m: "mem proc_demo = mem sched_demo" "run_queue proc_demo = run_queue sched_demo" "current proc_demo = current sched_demo"
    "cpu proc_demo = cpu sched_demo"
    by (simp_all add: proc_demo_def kbd_demo_def kbd_state.defs fs_state.defs sched_state.defs)
  show "queue proc_demo ([] @ 0x80000 # [0x81000])" "current proc_demo = 0x80000" "ready (mem proc_demo) 0x81000"
    using sched_demo_facts m by (simp_all add: queue_def)
  show "stack_clear ([] @ 0x80000 # [0x81000]) proc_demo" using sched_demo_facts(4) m by (simp add: stack_clear_def apart_def)
  have "irq_handlers proc_demo = [Some Timer_irq_tick, Some Keyboard_handler]"
    by (simp add: proc_demo_def kbd_demo_def kbd_state.defs fs_state.defs sched_state.defs)
  moreover have "kbd_inv proc_demo" using kbd_demo_facts(1) by (simp add: proc_demo_def kbd_inv_def kbd_state.defs fs_state.defs)
  moreover have "vga_inv proc_demo" by (simp add: proc_demo_def vga_inv_def)
  ultimately show "dev_ok proc_demo" by (simp add: dev_ok_def handlers_set_def)
qed

theorem sys_ps_lists_queue_witness:
  "\<exists>m. sys_ps 0x90000 16 proc_demo = Some (2, proc_demo\<lparr>mem := m\<rparr>) \<and> ps_at m 0x90000 0 = proc_info (mem proc_demo) 0x80000 \<and>
     ps_at m 0x90000 1 = proc_info (mem proc_demo) 0x81000"
proof -
  have s: "\<not> sint (16 :: u32) \<le> 0" by code_simp
  have r: "ps_room 0x90000 (unat (16 :: u32)) ([] @ 0x80000 # [0x81000])" by (simp add: ps_room_def)
  have n: "min (unat (16 :: u32)) (Suc (length [0x81000 :: u32] + length ([] :: u32 list))) = 2" by simp
  note sys_ps_lists_queue [OF proc_demo_facts(1,2) r, unfolded n if_not_P [OF s]]
  then obtain m where "sys_ps 0x90000 16 proc_demo = Some (of_nat 2, proc_demo\<lparr>mem := m\<rparr>)"
    "\<forall>j < 2. ps_at m 0x90000 j = proc_info (mem proc_demo) (((0x80000 :: u32) # [0x81000] @ []) ! j)" by auto
  then show ?thesis by (intro exI [of _ m]) simp
qed



lemma putchar_kbd: "kbd_inv (vga_putchar c s) = kbd_inv s" "input irqs (vga_putchar c s) = input irqs s"
  by (rule vga_putchar_frame [of c s]; simp add: kbd_inv_def input_def kbd_queue_def kbd_count_def)+

lemma kprintf_kbd [simp]: "kbd_inv (kprintf f args s) = kbd_inv s" "input irqs (kprintf f args s) = input irqs s"
proof -
  have "kbd_inv (fold vga_putchar cs s) = kbd_inv s \<and> input irqs (fold vga_putchar cs s) = input irqs s" for cs
    by (induction cs arbitrary: s) (simp_all add: putchar_kbd)
  then show "kbd_inv (kprintf f args s) = kbd_inv s" "input irqs (kprintf f args s) = input irqs s"
    by (simp_all add: kprintf_def kprintf_loop_text)
qed

lemma input_upd [simp]: "input irqs (s\<lparr>mem := m\<rparr>) = input irqs s" "input irqs (t\<lparr>mounted_fs := f\<rparr>) = input irqs t"
  "kbd_inv (t\<lparr>mounted_fs := f\<rparr>) = kbd_inv t" "handlers_set (s\<lparr>mem := m\<rparr>) = handlers_set s" "kbd_inv (s\<lparr>mem := m\<rparr>) = kbd_inv s" "handlers_set (t\<lparr>mounted_fs := f\<rparr>) = handlers_set t"
  by (simp_all add: input_def kbd_queue_def kbd_count_def kbd_inv_def handlers_set_def)

lemma fs_file_demo_io: "kbd_inv fs_file_demo" "handlers_set fs_file_demo" "ticks_per_second fs_file_demo = 100" "input irqs fs_file_demo = typed 0 irqs"
proof -
  let ?s = "kbd_state.extend
     (kbd_demo\<lparr>mem := store_bytes (store_bytes (\<lambda>_. 0) 0x800 (str ''a.txt'' @ [0])) 0x1000 (str ''hello'')\<rparr>)
     (fs_state.fields 0x300000 None) :: fs_state"
  have d: "ticks_per_second sched_demo = 100"
    by (simp add: sched_demo_def Let_def scheduler_add_def proc_boot_def heap_init_def proc_state.defs sched_state.defs)
  have "kbd_inv ?s" "handlers_set ?s" "ticks_per_second ?s = 100" "input irqs ?s = typed 0 irqs"
    using kbd_demo_facts d
    by (simp_all add: kbd_inv_def handlers_set_def input_def kbd_queue_def kbd_count_def kbd_demo_def kbd_state.defs fs_state.defs sched_state.defs)
  then have f: "kbd_inv fs_demo" "handlers_set fs_demo" "ticks_per_second fs_demo = 100" "input irqs fs_demo = typed 0 irqs"
    by (simp_all add: fs_demo_def ramfs_init_def vfs_mount_def io_step_fields [OF io_step_kprintf] io_step_fs [OF io_step_kprintf])
  have e: "fs_file_demo = fs_demo\<lparr>mem := mem fs_file_demo\<rparr>" by (rule table_step_eq [OF fs_file_demo_step(1)])
  show "kbd_inv fs_file_demo" "handlers_set fs_file_demo" "ticks_per_second fs_file_demo = 100" "input irqs fs_file_demo = typed 0 irqs"
    using f by (subst e, simp add: kbd_inv_def handlers_set_def input_def kbd_queue_def kbd_count_def)+
qed



end
