(* ===== verification/Ustring.thy ===== *)
theory Ustring
  imports Ramfs_table
begin

text \<open>
  The string functions of programs: userspace/lib/string.c. Strings are read and written in
  memory. The functions that run to the end of a string, and the conversion of numbers in a base
  the caller chooses, are partial: \<open>None\<close> is a loop that does not end or a division by zero. The
  array \<open>tmp\<close> of \<open>utoa\<close> is a list.
\<close>

section \<open>The source, function by function\<close>

partial_function (option) strlen_from :: "mem \<Rightarrow> u32 \<Rightarrow> u32 \<Rightarrow> u32 option" where
  "strlen_from m s len = (if m (s + len) \<noteq> 0 then strlen_from m s (len + 1) else Some len)"

definition strlen :: "mem \<Rightarrow> u32 \<Rightarrow> u32 option" where
  "strlen m s = strlen_from m s 0"

partial_function (option) strcmp :: "mem \<Rightarrow> u32 \<Rightarrow> u32 \<Rightarrow> u32 option" where
  "strcmp m a b =
     (if m a \<noteq> 0 \<and> m b \<noteq> 0 \<and> m a = m b then strcmp m (a + 1) (b + 1) else Some (ucast (m a) - ucast (m b)))"

text \<open>At most \<open>n\<close> more characters are compared.\<close>

primrec strncmp_from :: "nat \<Rightarrow> mem \<Rightarrow> u32 \<Rightarrow> u32 \<Rightarrow> u32" where
  "strncmp_from 0 m a b = 0"
| "strncmp_from (Suc n) m a b =
     (if m a \<noteq> m b then ucast (m a) - ucast (m b) else if m a = 0 then 0 else strncmp_from n m (a + 1) (b + 1))"

definition strncmp :: "mem \<Rightarrow> u32 \<Rightarrow> u32 \<Rightarrow> u32 \<Rightarrow> u32" where
  "strncmp m a b n = strncmp_from (unat n) m a b"

partial_function (option) strcpy_from :: "u32 \<Rightarrow> u32 \<Rightarrow> mem \<Rightarrow> mem option" where
  "strcpy_from d src m = (let c = m src; m' = m(d := c) in if c \<noteq> 0 then strcpy_from (d + 1) (src + 1) m' else Some m')"

definition strcpy :: "u32 \<Rightarrow> u32 \<Rightarrow> mem \<Rightarrow> (u32 \<times> mem) option" where
  "strcpy dst src m = map_option (Pair dst) (strcpy_from dst src m)"

definition set_byte :: "u32 \<Rightarrow> u8 \<Rightarrow> nat \<Rightarrow> mem \<Rightarrow> mem" where
  "set_byte p c i m = m(p + of_nat i := c)"

text \<open>\<open>n\<close> bytes are left: the loop that copies, and the loop that fills the rest with zeros.\<close>

primrec strncpy_loop :: "nat \<Rightarrow> u32 \<Rightarrow> u32 \<Rightarrow> mem \<Rightarrow> mem" where
  "strncpy_loop 0 dst src m = m"
| "strncpy_loop (Suc n) dst src m =
     (if m src \<noteq> 0 then strncpy_loop n (dst + 1) (src + 1) (m(dst := m src)) else fold (set_byte dst 0) [0..<Suc n] m)"

definition strncpy :: "u32 \<Rightarrow> u32 \<Rightarrow> u32 \<Rightarrow> mem \<Rightarrow> u32 \<times> mem" where
  "strncpy dst src n m = (dst, strncpy_loop (unat n) dst src m)"

definition memcpy :: "u32 \<Rightarrow> u32 \<Rightarrow> u32 \<Rightarrow> mem \<Rightarrow> u32 \<times> mem" where
  "memcpy dst src n m = (dst, fold (copy_byte dst src) [0..<unat n] m)"

definition memset :: "u32 \<Rightarrow> u32 \<Rightarrow> u32 \<Rightarrow> mem \<Rightarrow> u32 \<times> mem" where
  "memset s c n m = (s, fold (set_byte s (ucast c)) [0..<unat n] m)"

text \<open>The digits in \<open>tmp\<close>, the one stored last first.\<close>

definition utoa_digit :: "u32 \<Rightarrow> u8" where
  "utoa_digit d = (if sint d < 10 then ucast (0x30 + d) else ucast (0x61 + d - 10))"

partial_function (option) utoa_digits :: "u32 \<Rightarrow> u32 \<Rightarrow> u8 list \<Rightarrow> u8 list option" where
  "utoa_digits value base tmp =
     (if 0 < value then
        if base = 0 then None
        else utoa_digits (value div base) base (utoa_digit (value mod base) # tmp)
      else Some tmp)"

definition utoa :: "u32 \<Rightarrow> u32 \<Rightarrow> u32 \<Rightarrow> mem \<Rightarrow> mem option" where
  "utoa value buf base m =
     (if value = 0 then Some (m(buf := 0x30, buf + 1 := 0))
      else case utoa_digits value base [] of
        None \<Rightarrow> None
      | Some tmp \<Rightarrow> Some ((store_bytes m buf tmp)(buf + of_nat (length tmp) := 0)))"

definition itoa :: "u32 \<Rightarrow> u32 \<Rightarrow> u32 \<Rightarrow> mem \<Rightarrow> mem option" where
  "itoa value buf base m =
     (if sint value < 0 \<and> base = 10 then utoa (- (value + 1) + 1) (buf + 1) base (m(buf := 0x2D))
      else utoa value buf base m)"

section \<open>Strings\<close>

lemma strlen_from_at: "str_at m (p + k) cs \<Longrightarrow> strlen_from m p k = Some (k + of_nat (length cs))"
proof (induction cs arbitrary: k)
  case (Cons c cs)
  then show ?case by (subst strlen_from.simps) (simp add: add.assoc)
qed (subst strlen_from.simps, simp)

lemma strlen_at: "str_at m p cs \<Longrightarrow> strlen m p = Some (of_nat (length cs))"
  using strlen_from_at [of m p 0 cs] by (simp add: strlen_def)

lemma byte_diff:
  "(ucast (x :: u8) - ucast (y :: u8) :: u32) = 0 \<longleftrightarrow> x = y" "sint (ucast x - ucast y :: u32) < 0 \<longleftrightarrow> x < y"
proof -
  have "(ucast x :: u32) = ucast y \<longleftrightarrow> x = y" by (metis unat_ucast_8_32 word_unat_eq_iff)
  then show "(ucast x - ucast y :: u32) = 0 \<longleftrightarrow> x = y" by simp
  let ?a = "uint (ucast x :: u32)" and ?b = "uint (ucast y :: u32)"
  obtain X Y where X: "X = unat x" "Y = unat y" by simp
  have ab: "?a = int X" "?b = int Y" unfolding X by (simp_all only: unat_ucast_8_32 [symmetric] of_nat_unat)
  have bd: "X < 256" "Y < 256" unfolding X by (rule unat_bound8)+
  have d: "uint (ucast x - ucast y :: u32) = (?a - ?b) mod 4294967296" by (simp add: uint_word_ariths)
  have s: "sint w = (if uint w < 2147483648 then uint w else uint w - 4294967296)" for w :: u32 using sint32 [of w] by simp
  show "sint (ucast x - ucast y :: u32) < 0 \<longleftrightarrow> x < y"
  proof (cases "X < Y")
    case True
    then have "(?a - ?b) mod 4294967296 = ?a - ?b + 4294967296" 
      unfolding ab using bd by (subst mod_add_self2 [symmetric], intro mod_pos_pos_trivial) linarith+
    then have "sint (ucast x - ucast y :: u32) < 0" unfolding s d ab using True bd by simp
    then show ?thesis using True by (simp add: word_less_nat_alt X)
  next
    case False
    then have "(?a - ?b) mod 4294967296 = ?a - ?b" unfolding ab using bd by (intro mod_pos_pos_trivial) linarith+
    then have "\<not> sint (ucast x - ucast y :: u32) < 0" unfolding s d ab using False bd by simp
    then show ?thesis using False by (simp add: word_less_nat_alt X)
  qed
qed

lemma strcmp_at:
  assumes "str_at m a xs" and "str_at m b ys"
  shows "\<exists>r. strcmp m a b = Some r \<and> (r = 0 \<longleftrightarrow> xs = ys) \<and> (sint r < 0 \<longleftrightarrow> (xs, ys) \<in> lexord {(x, y). x < y})"
  using assms
proof (induction xs arbitrary: a b ys)
  case Nil
  then show ?case
    using byte_diff [of 0 "m b"] by (cases ys) (auto simp: strcmp.simps word_greater_zero_iff)
next
  case (Cons x xs)
  show ?case
  proof (cases "\<exists>ys'. ys = x # ys'")
    case True
    then obtain ys' where ys: "ys = x # ys'" by blast
    have "strcmp m a b = strcmp m (a + 1) (b + 1)" using Cons.prems ys by (subst strcmp.simps) simp
    then show ?thesis using Cons.IH [of "a + 1" "b + 1" ys'] Cons.prems ys by simp
  next
    case False
    have "m b \<noteq> x" "m b = (case ys of [] \<Rightarrow> 0 | y # _ \<Rightarrow> y)" using Cons.prems False by (cases ys; auto)+
    moreover from this have "strcmp m a b = Some (ucast x - ucast (m b))" using Cons.prems by (subst strcmp.simps) auto
    ultimately show ?thesis using byte_diff [of x "m b"] False by (cases ys) auto
  qed
qed

lemma strncmp_at:
  assumes "str_at m a xs" and "str_at m b ys"
  shows "strncmp_from n m a b = 0 \<longleftrightarrow> take n xs = take n ys"
  using assms
proof (induction n arbitrary: a b xs ys)
  case (Suc n)
  have "(ucast (m a) - ucast (m b) :: u32) = 0 \<longleftrightarrow> m a = m b" by (rule byte_diff)
  then show ?case using Suc.prems Suc.IH [of "a + 1" "tl xs" "b + 1" "tl ys"] by (cases xs; cases ys) auto
qed simp

lemma set_bytes_store: "fold (set_byte p c) [0..<n] m = store_bytes m p (replicate n c)"
proof (induction n)
  case (Suc n)
  then show ?case using store_bytes_append [of m p "replicate n c" "[c]"] by (simp add: set_byte_def [of p c n] replicate_append_same)
qed simp

lemma memset_eq: "memset p c n m = (p, store_bytes m p (replicate (unat n) (ucast c)))"
  by (simp add: memset_def set_bytes_store)

lemma memcpy_eq: "apart_ranges dst (unat n) src (unat n) \<Longrightarrow> memcpy dst src n m = (dst, store_bytes m dst (load_bytes m src (unat n)))"
  using mem_copy_apart [of dst n src m] by (simp add: memcpy_def mem_copy_def)

lemma apart_step: "apart_ranges a (Suc n) b (Suc k) \<Longrightarrow> 0 < n \<Longrightarrow> 0 < k \<Longrightarrow> apart_ranges (a + 1) n (b + 1) k"
  using unat_add_one [of a] unat_add_one [of b] by (auto simp: apart_ranges_def)

lemma str_at_upd: "str_at m p cs \<Longrightarrow> apart_ranges a 1 p (Suc (length cs)) \<Longrightarrow> str_at (m(a := c)) p cs"
  using str_at_store [of m p cs a "[c]"] by simp

lemma strcpy_at:
  assumes "str_at m src cs" and "apart_ranges dst (Suc (length cs)) src (Suc (length cs))"
  shows "strcpy_from dst src m = Some (store_bytes m dst (cs @ [0]))"
  using assms
proof (induction cs arbitrary: m dst src)
  case Nil
  then show ?case by (subst strcpy_from.simps) simp
next
  case (Cons c cs)
  have ap: "apart_ranges (dst + 1) (Suc (length cs)) (src + 1) (Suc (length cs))" using apart_step [OF Cons.prems(2)] by simp
  have "apart_ranges dst 1 (src + 1) (Suc (length cs))"
    using Cons.prems(2) unat_add_one [of src] by (auto simp: apart_ranges_def)
  then have s: "str_at (m(dst := c)) (src + 1) cs" using str_at_upd Cons.prems(1) by simp
  show ?case using Cons.IH [OF s ap] Cons.prems(1) by (subst strcpy_from.simps) (simp add: Let_def fun_upd_def)
qed

lemma strncpy_at:
  assumes "str_at m src cs" and "apart_ranges dst n src (Suc (length cs))"
  shows "strncpy_loop n dst src m = store_bytes m dst (take n (cs @ replicate n 0))"
  using assms
proof (induction n arbitrary: m dst src cs)
  case (Suc n)
  show ?case
  proof (cases cs)
    case Nil
    then show ?thesis using Suc.prems(1) set_bytes_store [of dst 0 "Suc n" m] by simp
  next
    case (Cons c cs')
    have "apart_ranges dst 1 (src + 1) (Suc (length cs'))"
      using Suc.prems(2) Cons unat_add_one [of src] by (auto simp: apart_ranges_def)
    then have s: "str_at (m(dst := c)) (src + 1) cs'" using str_at_upd Suc.prems(1) Cons by simp
    have "strncpy_loop n (dst + 1) (src + 1) (m(dst := c)) = store_bytes (m(dst := c)) (dst + 1) (take n (cs' @ replicate n 0))"
    proof (cases "n = 0")
      case False
      then have "apart_ranges (dst + 1) n (src + 1) (Suc (length cs'))" using apart_step [of dst n src "Suc (length cs')"] Suc.prems(2) Cons by simp
      then show ?thesis by (rule Suc.IH [OF s])
    qed simp
    then show ?thesis using Suc.prems(1) Cons by (simp add: replicate_append_same [symmetric])
  qed
qed simp

section \<open>Numbers\<close>

lemma utoa_digit_val:
  assumes "unat d < 36"
  shows "digit_val (utoa_digit d) = unat d" and "utoa_digit d \<noteq> 0"
proof -
  have "list_all (\<lambda>i. digit_val (utoa_digit (of_nat i)) = i \<and> utoa_digit (of_nat i) \<noteq> 0) [0..<36]" by code_simp
  then have "digit_val (utoa_digit (of_nat (unat d))) = unat d \<and> utoa_digit (of_nat (unat d)) \<noteq> 0" 
    using assms unfolding list_all_iff set_upt by (metis atLeastLessThan_iff le0)
  then show "digit_val (utoa_digit d) = unat d" "utoa_digit d \<noteq> 0" by simp_all
qed

text \<open>The loop ends for bases from 2 on, and the digits fit the 32 bytes of \<open>tmp\<close>.\<close>

lemma utoa_digits_spec:
  assumes "2 \<le> unat b" and "unat b \<le> 36" and "unat v < 2 ^ k"
  shows "\<exists>ds. utoa_digits v b tmp = Some (ds @ tmp) \<and> text_value (unat b) ds = unat v \<and> length ds \<le> k \<and> 0 \<notin> set ds"
  using assms(3)
proof (induction k arbitrary: v tmp)
  case 0
  then have "v = 0" by (simp add: unat_eq_0)
  then show ?case by (subst utoa_digits.simps) (simp add: text_value_def)
next
  case (Suc k)
  show ?case
  proof (cases "v = 0")
    case True
    then show ?thesis by (subst utoa_digits.simps) (simp add: text_value_def)
  next
    case False
    let ?d = "utoa_digit (v mod b)"
    have b0: "b \<noteq> 0" using assms(1) by auto
    have dv: "unat (v div b) = unat v div unat b" "unat (v mod b) = unat v mod unat b" by (simp_all add: unat_div unat_mod)
    have "unat v div unat b \<le> unat v div 2" using assms(1) by (intro div_le_mono2) simp_all
    then have "unat (v div b) < 2 ^ k" using Suc.prems dv by simp
    then obtain ds where ds: "utoa_digits (v div b) b (?d # tmp) = Some (ds @ ?d # tmp)" "text_value (unat b) ds = unat (v div b)"
      "length ds \<le> k" "0 \<notin> set ds" using Suc.IH [of "v div b" "?d # tmp"] by blast
    have "unat v mod unat b < unat b" using assms(1) by (intro mod_less_divisor) simp
    then have m: "unat (v mod b) < 36" using dv(2) assms(2) by simp
    have "utoa_digits v b tmp = Some ((ds @ [?d]) @ tmp)" using ds(1) False b0 by (subst utoa_digits.simps) (simp add: word_greater_zero_iff)
    moreover have "text_value (unat b) (ds @ [?d]) = unat v"
      using ds(2) utoa_digit_val(1) [OF m] dv by (simp add: text_value_snoc)
    ultimately show ?thesis using ds(3,4) utoa_digit_val(2) [OF m] by (intro exI [of _ "ds @ [?d]"]) simp
  qed
qed

lemma utoa_spec:
  assumes "2 \<le> unat b" and "unat b \<le> 36"
  obtains cs where "utoa v buf b m = Some (store_bytes m buf (cs @ [0]))" "text_value (unat b) cs = unat v" "0 \<notin> set cs"
    "0 < length cs" "length cs \<le> 32"
proof (cases "v = 0")
  case True
  have "utoa v buf b m = Some (store_bytes m buf ([0x30] @ [0]))" using True by (simp add: utoa_def)
  then show ?thesis using that [of "[0x30]"] True by (simp add: text_value_def digit_val_def)
next
  case False
  have "unat v < 2 ^ 32" using unat_bound32 [of v] by simp
  then obtain ds where ds: "utoa_digits v b [] = Some ds" "text_value (unat b) ds = unat v" "length ds \<le> 32" "0 \<notin> set ds"
    using utoa_digits_spec [OF assms, of v 32 "[]"] by auto
  moreover have "ds \<noteq> []" using ds(2) False by (auto simp: text_value_def unat_eq_0)
  moreover have "utoa v buf b m = Some (store_bytes m buf (ds @ [0]))" using False ds(1) by (simp add: utoa_def store_bytes_append)
  ultimately show ?thesis using that [of ds] by simp
qed

lemma str_at_stored: "0 \<notin> set cs \<Longrightarrow> unat p + Suc (length cs) \<le> 2 ^ 32 \<Longrightarrow> str_at (store_bytes m p (cs @ [0])) p cs"
  using load_store_bytes [of p "cs @ [0]" m] by (simp add: str_at_load)

text \<open>
  C35. Numbers as text: for every value and every base from 2 to 36, \<open>utoa\<close> ends, writes at most 33
  bytes at the buffer and nothing else, and leaves there a string whose digits are the value; \<open>itoa\<close>
  in base 10 writes a minus sign for the negative values, the smallest one included, and the
  digits of the absolute value.
\<close>

theorem utoa_itoa_correct:
  fixes v buf b :: u32
  assumes b: "2 \<le> unat b" "unat b \<le> 36" and buf: "unat buf + 34 \<le> 2 ^ 32"
  shows "(\<exists>cs. utoa v buf b m = Some (store_bytes m buf (cs @ [0])) \<and> str_at (store_bytes m buf (cs @ [0])) buf cs \<and>
      length cs \<le> 32 \<and> text_value (unat b) cs = unat v) \<and>
    (\<exists>cs neg. itoa v buf 10 m = Some (store_bytes m buf ((if neg then [0x2D] else []) @ cs @ [0])) \<and>
      str_at (store_bytes m buf ((if neg then [0x2D] else []) @ cs @ [0])) buf ((if neg then [0x2D] else []) @ cs) \<and>
      length cs \<le> 32 \<and> sint v = (if neg then - int (text_value 10 cs) else int (text_value 10 cs)))"
proof -
  obtain cs where u: "utoa v buf b m = Some (store_bytes m buf (cs @ [0]))" "text_value (unat b) cs = unat v" "0 \<notin> set cs"
    "0 < length cs" "length cs \<le> 32" by (rule utoa_spec [OF b])
  have u_at: "str_at (store_bytes m buf (cs @ [0])) buf cs" using u(3,5) buf by (intro str_at_stored) simp_all
  let ?w = "if sint v < 0 then - (v + 1) + 1 else v" and ?neg = "sint v < 0"
  let ?p = "if sint v < 0 then buf + 1 else buf" and ?m = "if sint v < 0 then m(buf := 0x2D) else m"
  have ten: "2 \<le> unat (10 :: u32)" "unat (10 :: u32) \<le> 36" by simp_all
  obtain ds where d: "utoa ?w ?p 10 ?m = Some (store_bytes ?m ?p (ds @ [0]))" "text_value (unat (10 :: u32)) ds = unat ?w" "0 \<notin> set ds"
    "0 < length ds" "length ds \<le> 32" by (rule utoa_spec [OF ten])
  have it: "itoa v buf 10 m = Some (store_bytes m buf ((if ?neg then [0x2D] else []) @ ds @ [0]))"
    using d(1) by (simp add: itoa_def split: if_splits)
  have "str_at (store_bytes m buf (((if ?neg then [0x2D] else []) @ ds) @ [0])) buf ((if ?neg then [0x2D] else []) @ ds)"
    using d(3,5) buf by (intro str_at_stored) auto
  moreover have "sint v = (if ?neg then - int (text_value 10 ds) else int (text_value 10 ds))"
    using d(2) sint_neg_unat [of v] sint_nonneg_unat [of v] by (auto split: if_splits)
  ultimately show ?thesis using u u_at it d(5) by (intro conjI exI [of _ cs] exI [of _ ds] exI [of _ ?neg]) simp_all
qed

theorem utoa_itoa_correct_witness:
  "(\<exists>cs. utoa 4294967295 0x1000 2 (\<lambda>_. 0) = Some (store_bytes (\<lambda>_. 0) 0x1000 (cs @ [0])) \<and>
      length cs \<le> 32 \<and> text_value 2 cs = 4294967295) \<and>
   (\<exists>cs. itoa 0x80000000 0x1000 10 (\<lambda>_. 0) = Some (store_bytes (\<lambda>_. 0) 0x1000 (0x2D # cs @ [0])) \<and> text_value 10 cs = 2147483648)"
proof -
  have b: "2 \<le> unat (2 :: u32)" "unat (2 :: u32) \<le> 36" "unat (0x1000 :: u32) + 34 \<le> 2 ^ 32" by simp_all
  have s: "sint (0x80000000 :: u32) = - 2147483648" by code_simp
  note u = utoa_itoa_correct [OF b, of "4294967295" "\<lambda>_. 0"] and i = utoa_itoa_correct [OF b, of "0x80000000" "\<lambda>_. 0", unfolded s]
  obtain cs neg where c: "itoa 0x80000000 0x1000 10 (\<lambda>_. 0) = Some (store_bytes (\<lambda>_. 0) 0x1000 ((if neg then [0x2D] else []) @ cs @ [0]))"
    "- 2147483648 = (if neg then - int (text_value 10 cs) else int (text_value 10 cs))" using i by blast
  have neg: neg by (rule ccontr) (use c(2) in simp)
  have "int (text_value 10 cs) = int 2147483648" using c(2) neg by simp
  then have "text_value 10 cs = 2147483648" by (simp only: of_nat_eq_iff)
  then show ?thesis using u c(1) neg by auto
qed

text \<open>
  C36. The string functions on strings: \<open>strlen\<close> returns the number of characters, \<open>strcmp\<close> is zero
  exactly on equal strings and negative exactly when the first comes before the second,
  characters compared as unsigned bytes, \<open>strncmp\<close> is zero exactly when the first \<open>n\<close> characters agree,
  and into room that does not overlap the source \<open>strcpy\<close> copies the string with its end and \<open>strncpy\<close>
  exactly \<open>n\<close> bytes, the string cut or filled with zeros.
\<close>

theorem string_functions_correct:
  fixes a b dst n :: u32
  assumes a: "str_at m a xs" and b: "str_at m b ys"
  shows "strlen m a = Some (of_nat (length xs)) \<and>
    (\<exists>r. strcmp m a b = Some r \<and> (r = 0 \<longleftrightarrow> xs = ys) \<and> (sint r < 0 \<longleftrightarrow> (xs, ys) \<in> lexord {(x, y). x < y})) \<and>
    (strncmp m a b n = 0 \<longleftrightarrow> take (unat n) xs = take (unat n) ys) \<and>
    (apart_ranges dst (Suc (length xs)) a (Suc (length xs)) \<longrightarrow> strcpy dst a m = Some (dst, store_bytes m dst (xs @ [0]))) \<and>
    (apart_ranges dst (unat n) a (Suc (length xs)) \<longrightarrow>
       strncpy dst a n m = (dst, store_bytes m dst (take (unat n) (xs @ replicate (unat n) 0))))"
  using strlen_at [OF a] strcmp_at [OF a b] strncmp_at [OF a b] strcpy_at [OF a] strncpy_at [OF a]
  by (simp add: strncmp_def strcpy_def strncpy_def)

theorem string_functions_correct_witness:
  "let m = store_bytes (store_bytes (\<lambda>_. 0) 0x1000 (str ''cat a'')) 0x2000 (str ''cat b'') in
   strlen m 0x1000 = Some 5 \<and> (\<exists>r. strcmp m 0x1000 0x2000 = Some r \<and> sint r < 0) \<and> strncmp m 0x1000 0x2000 4 = 0 \<and>
   strcpy 0x3000 0x1000 m = Some (0x3000, store_bytes m 0x3000 (str ''cat a'' @ [0]))"
proof -
  let ?m = "store_bytes (store_bytes (\<lambda>_. 0) 0x1000 (str ''cat a'')) 0x2000 (str ''cat b'')"
  have l: "length (str ''cat a'') = 5" "length (str ''cat b'') = 5" by (simp_all add: str_def)
  have "0 \<notin> set (str ''cat a'') \<and> load_bytes ?m 0x1000 (Suc 5) = str ''cat a'' @ [0]"
    "0 \<notin> set (str ''cat b'') \<and> load_bytes ?m 0x2000 (Suc 5) = str ''cat b'' @ [0]" by code_simp+
  then have at: "str_at ?m 0x1000 (str ''cat a'')" "str_at ?m 0x2000 (str ''cat b'')" unfolding str_at_load l by blast+
  have "(str ''cat a'', str ''cat b'') \<in> lexord {(x, y). x < y}" "take 4 (str ''cat a'') = take 4 (str ''cat b'')"
    by (simp_all add: str_def)
  moreover have "apart_ranges 0x3000 (Suc (length (str ''cat a''))) 0x1000 (Suc (length (str ''cat a'')))"
    unfolding l by (simp add: apart_ranges_def)
  ultimately show ?thesis using string_functions_correct [OF at, of 4 "0x3000"] l by (auto simp: Let_def)
qed

end
