(* ===== verification/Shell.thy ===== *)
theory Shell
  imports Syscall_laws Ustring
begin

text \<open>
  The shell: userspace/lib/syscall_wrappers.h and userspace/shell/shell.c. A piece of the program
  is a function of the hardware interrupts to come and the kernel state, and \<open>None\<close> is waiting for
  ever. The shell shares the memory of the kernel. Where the compiler and the linker put its
  string literals and its local arrays is \<open>shell_mem\<close>; local variables that have no address taken
  are arguments. The interrupts are those that arrive while a call sleeps.
\<close>

type_synonym ('r, 'a) prog =
  "hw_irq list \<Rightarrow> 'a fs_state_scheme \<Rightarrow> ('r \<times> hw_irq list, 'a fs_state_scheme) outcome option"

record shell_mem =
  sh_regs :: registers
  lit :: "string \<Rightarrow> u32"
  sh_cmd :: u32
  sh_c :: u32
  sh_num :: u32
  sh_dir :: u32
  sh_cat :: u32
  sh_line :: u32
  sh_info :: u32
  sh_ps :: u32

section \<open>Statements\<close>

definition ret :: "'r \<Rightarrow> ('r, 'a) prog" where
  "ret r irqs s = Some (Returned (r, irqs) s)"

definition andthen :: "('r, 'a) prog \<Rightarrow> ('r \<Rightarrow> ('q, 'a) prog) \<Rightarrow> ('q, 'a) prog" where
  "andthen p q irqs s =
     (case p irqs s of
        None \<Rightarrow> None
      | Some (Returned (r, irqs') s') \<Rightarrow> q r irqs' s'
      | Some (Switched s') \<Rightarrow> Some (Switched s')
      | Some (Halted s') \<Rightarrow> Some (Halted s'))"

definition seq :: "('r, 'a) prog \<Rightarrow> ('q, 'a) prog \<Rightarrow> ('q, 'a) prog" where
  "seq p q = andthen p (\<lambda>_. q)"

definition skip :: "(unit, 'a) prog" where
  "skip = ret ()"

definition seqs :: "(unit, 'a) prog list \<Rightarrow> (unit, 'a) prog" where
  "seqs ps = foldr seq ps skip"

text \<open>Reading and writing memory, and the string functions.\<close>

definition get :: "(mem \<Rightarrow> 'r) \<Rightarrow> ('r, 'a) prog" where
  "get f irqs s = Some (Returned (f (mem s), irqs) s)"

definition put :: "(mem \<Rightarrow> mem) \<Rightarrow> (unit, 'a) prog" where
  "put f irqs s = Some (Returned ((), irqs) (s\<lparr>mem := f (mem s)\<rparr>))"

definition call_get :: "(mem \<Rightarrow> 'r option) \<Rightarrow> ('r, 'a) prog" where
  "call_get f irqs s = (case f (mem s) of None \<Rightarrow> None | Some r \<Rightarrow> Some (Returned (r, irqs) s))"

definition call_put :: "(mem \<Rightarrow> mem option) \<Rightarrow> (unit, 'a) prog" where
  "call_put f irqs s = (case f (mem s) of None \<Rightarrow> None | Some m \<Rightarrow> Some (Returned ((), irqs) (s\<lparr>mem := m\<rparr>)))"

lemma mono_andthen [partial_function_mono]:
  fixes q :: "('c \<Rightarrow> 'd option) \<Rightarrow> 'r \<Rightarrow> ('q, 'a) prog"
  assumes "\<And>r irqs s. mono_option (\<lambda>f. q f r irqs s)"
  shows "mono_option (\<lambda>f. andthen p (q f) irqs s)"
proof (rule monotoneI)
  fix f g :: "'c \<Rightarrow> 'd option"
  assume fg: "fun_ord option_ord f g"
  have "option_ord (q f r irqs' s') (q g r irqs' s')" for r irqs' s' using fg by (rule monotoneD [OF assms])
  then show "option_ord (andthen p (q f) irqs s) (andthen p (q g) irqs s)"
    by (auto simp: andthen_def flat_ord_def split: option.split outcome.split)
qed

section \<open>syscall_wrappers.h\<close>

text \<open>
  The trap: the gate of vector 0x80 turns interrupts off, the stub builds the register frame for
  \<open>isr_handler\<close>, and its return restores the flags and leaves the result in EAX.
\<close>

definition int80 :: "registers \<Rightarrow> (u32, 'a) prog" where
  "int80 regs irqs s =
     (case isr_handler irqs 0 (regs\<lparr>r_int_no := 0x80, r_err_code := 0\<rparr>) (s\<lparr>interrupts_on := False\<rparr>) of
        None \<Rightarrow> None
      | Some (Returned (regs', irqs') s') \<Rightarrow> Some (Returned (r_eax regs', irqs') (s'\<lparr>interrupts_on := interrupts_on s\<rparr>))
      | Some (Switched s') \<Rightarrow> Some (Switched s')
      | Some (Halted s') \<Rightarrow> Some (Halted s'))"

definition u_exit :: "shell_mem \<Rightarrow> u32 \<Rightarrow> (u32, 'a) prog" where
  "u_exit sm code = int80 ((sh_regs sm)\<lparr>r_eax := SYS_EXIT, r_ebx := code\<rparr>)"

definition u_write :: "shell_mem \<Rightarrow> u32 \<Rightarrow> u32 \<Rightarrow> u32 \<Rightarrow> (u32, 'a) prog" where
  "u_write sm fd buf len = int80 ((sh_regs sm)\<lparr>r_eax := SYS_WRITE, r_ebx := fd, r_ecx := buf, r_edx := len\<rparr>)"

definition u_read :: "shell_mem \<Rightarrow> u32 \<Rightarrow> u32 \<Rightarrow> u32 \<Rightarrow> (u32, 'a) prog" where
  "u_read sm fd buf len = int80 ((sh_regs sm)\<lparr>r_eax := SYS_READ, r_ebx := fd, r_ecx := buf, r_edx := len\<rparr>)"

definition u_open :: "shell_mem \<Rightarrow> u32 \<Rightarrow> (u32, 'a) prog" where
  "u_open sm path = int80 ((sh_regs sm)\<lparr>r_eax := SYS_OPEN, r_ebx := path\<rparr>)"

definition u_close :: "shell_mem \<Rightarrow> u32 \<Rightarrow> (u32, 'a) prog" where
  "u_close sm fd = int80 ((sh_regs sm)\<lparr>r_eax := SYS_CLOSE, r_ebx := fd\<rparr>)"

definition u_getpid :: "shell_mem \<Rightarrow> (u32, 'a) prog" where
  "u_getpid sm = int80 ((sh_regs sm)\<lparr>r_eax := SYS_GETPID\<rparr>)"

definition u_readdir :: "shell_mem \<Rightarrow> u32 \<Rightarrow> u32 \<Rightarrow> (u32, 'a) prog" where
  "u_readdir sm entries mx = int80 ((sh_regs sm)\<lparr>r_eax := SYS_READDIR, r_ebx := entries, r_ecx := mx\<rparr>)"

definition u_uptime :: "shell_mem \<Rightarrow> (u32, 'a) prog" where
  "u_uptime sm = int80 ((sh_regs sm)\<lparr>r_eax := SYS_UPTIME\<rparr>)"

definition u_meminfo :: "shell_mem \<Rightarrow> u32 \<Rightarrow> (u32, 'a) prog" where
  "u_meminfo sm info = int80 ((sh_regs sm)\<lparr>r_eax := SYS_MEMINFO, r_ebx := info\<rparr>)"

definition u_ps :: "shell_mem \<Rightarrow> u32 \<Rightarrow> u32 \<Rightarrow> (u32, 'a) prog" where
  "u_ps sm entries mx = int80 ((sh_regs sm)\<lparr>r_eax := SYS_PS, r_ebx := entries, r_ecx := mx\<rparr>)"

section \<open>shell.c\<close>

text \<open>Characters a string literal cannot hold.\<close>

definition bsl :: string where "bsl = [CHR 0x5C]"
definition quo :: string where "quo = [CHR 0x27]"
definition dash :: string where "dash = [CHR 0xE2, CHR 0x80, CHR 0x94]"

definition CMD_BUF_SIZE :: u32 where "CMD_BUF_SIZE = 256"

definition print :: "shell_mem \<Rightarrow> u32 \<Rightarrow> (unit, 'a) prog" where
  "print sm p = andthen (call_get (\<lambda>m. strlen m p)) (\<lambda>len. seq (u_write sm 1 p len) skip)"

definition print_lit :: "shell_mem \<Rightarrow> string \<Rightarrow> (unit, 'a) prog" where
  "print_lit sm t = print sm (lit sm t)"

definition print_num :: "shell_mem \<Rightarrow> u32 \<Rightarrow> (unit, 'a) prog" where
  "print_num sm n = seq (call_put (utoa n (sh_num sm) 10)) (print sm (sh_num sm))"

definition print_prompt :: "shell_mem \<Rightarrow> (unit, 'a) prog" where
  "print_prompt sm = print_lit sm ''anubhav-os:/ $ ''"

partial_function (option) readline_loop ::
  "shell_mem \<Rightarrow> u32 \<Rightarrow> u32 \<Rightarrow> u32 \<Rightarrow> hw_irq list \<Rightarrow> 'a fs_state_scheme \<Rightarrow>
     (u32 \<times> hw_irq list, 'a fs_state_scheme) outcome option" where
  "readline_loop sm buf mx pos irqs s =
     (if sint pos < sint (mx - 1) then
        andthen (u_read sm 0 (sh_c sm) 1) (\<lambda>n irqs s.
          if sint n \<le> 0 then readline_loop sm buf mx pos irqs s
          else andthen (get (\<lambda>m. m (sh_c sm))) (\<lambda>c irqs s.
            if c = 0x0A \<or> c = 0x0D then
              seq (put (\<lambda>m. m(buf + pos := 0))) (seq (print_lit sm ''\<newline>'') (ret pos)) irqs s
            else if c = 0x08 \<or> c = 127 then
              (if 0 < sint pos
               then andthen (u_write sm 1 (lit sm [CHR 0x08, CHR 0x20, CHR 0x08]) 3) (\<lambda>_. readline_loop sm buf mx (pos - 1)) irqs s
               else readline_loop sm buf mx pos irqs s)
            else
              andthen (put (\<lambda>m. m(buf + pos := c))) (\<lambda>_.
                andthen (u_write sm 1 (sh_c sm) 1) (\<lambda>_. readline_loop sm buf mx (pos + 1))) irqs s) irqs s) irqs s
      else seq (put (\<lambda>m. m(buf + pos := 0))) (ret pos) irqs s)"

definition readline :: "shell_mem \<Rightarrow> u32 \<Rightarrow> u32 \<Rightarrow> (u32, 'a) prog" where
  "readline sm buf mx = readline_loop sm buf mx 0"

definition cmd_help :: "shell_mem \<Rightarrow> (unit, 'a) prog" where
  "cmd_help sm = seqs (map (print_lit sm)
     [''AnubhavOS Shell Commands:\<newline>'',
      ''  help     '' @ dash @ '' show this help\<newline>'',
      ''  ls       '' @ dash @ '' list files in ramfs\<newline>'',
      ''  cat FILE '' @ dash @ '' display file contents\<newline>'',
      ''  echo ... '' @ dash @ '' print arguments\<newline>'',
      ''  clear    '' @ dash @ '' clear the screen\<newline>'',
      ''  uptime   '' @ dash @ '' seconds since boot\<newline>'',
      ''  meminfo  '' @ dash @ '' physical memory usage\<newline>'',
      ''  ps       '' @ dash @ '' list running processes\<newline>''])"

text \<open>\<open>user_dirent_t\<close> is 68 bytes, the size at 64.\<close>

definition ls_entry :: "shell_mem \<Rightarrow> nat \<Rightarrow> (unit, 'a) prog" where
  "ls_entry sm i =
     seqs [print_lit sm ''  '', print sm (sh_dir sm + 68 * of_nat i), print_lit sm ''  ('',
       andthen (get (\<lambda>m. load32 m (sh_dir sm + 68 * of_nat i + 64))) (print_num sm), print_lit sm '' bytes)\<newline>'']"

definition cmd_ls :: "shell_mem \<Rightarrow> (unit, 'a) prog" where
  "cmd_ls sm =
     andthen (u_readdir sm (sh_dir sm) 32) (\<lambda>count.
       if sint count < 0 then print_lit sm ''ls: readdir failed\<newline>''
       else seq (seqs (map (ls_entry sm) [0..<nat (sint count)]))
         (if count = 0 then print_lit sm ''  (no files)\<newline>'' else skip))"

partial_function (option) cat_loop ::
  "shell_mem \<Rightarrow> u32 \<Rightarrow> hw_irq list \<Rightarrow> 'a fs_state_scheme \<Rightarrow> (unit \<times> hw_irq list, 'a fs_state_scheme) outcome option" where
  "cat_loop sm fd irqs s =
     andthen (u_read sm fd (sh_cat sm) 512) (\<lambda>n irqs s.
       if 0 < sint n then andthen (u_write sm 1 (sh_cat sm) n) (\<lambda>_. cat_loop sm fd) irqs s else skip irqs s) irqs s"

definition cmd_cat :: "shell_mem \<Rightarrow> u32 \<Rightarrow> (unit, 'a) prog" where
  "cmd_cat sm filename =
     andthen (get (\<lambda>m. filename = 0 \<or> m filename = 0)) (\<lambda>empty.
       if empty then print_lit sm ''cat: usage: cat <filename>\<newline>''
       else andthen (u_open sm filename) (\<lambda>fd.
         if sint fd < 0
         then seqs [print_lit sm ''cat: file not found: '', print sm filename, print_lit sm ''\<newline>'']
         else seq (cat_loop sm fd) (seq (u_close sm fd) skip)))"

definition cmd_echo :: "shell_mem \<Rightarrow> u32 \<Rightarrow> (unit, 'a) prog" where
  "cmd_echo sm args =
     andthen (get (\<lambda>m. args \<noteq> 0 \<and> m args \<noteq> 0)) (\<lambda>some. seq (if some then print sm args else skip) (print_lit sm ''\<newline>''))"

definition cmd_clear :: "shell_mem \<Rightarrow> (unit, 'a) prog" where
  "cmd_clear sm =
     seq (put (\<lambda>m. (snd (memset (sh_line sm) 0x20 80 m))(sh_line sm + 80 := 0)))
       (seq (seqs (replicate 25 (seq (u_write sm 1 (sh_line sm) 80) skip))) (print_lit sm [CHR 0x0D]))"

definition cmd_uptime :: "shell_mem \<Rightarrow> (unit, 'a) prog" where
  "cmd_uptime sm =
     andthen (u_uptime sm) (\<lambda>secs. seqs [print_lit sm ''Uptime: '', print_num sm secs, print_lit sm '' seconds\<newline>''])"

definition meminfo_line :: "shell_mem \<Rightarrow> string \<Rightarrow> u32 \<Rightarrow> (unit, 'a) prog" where
  "meminfo_line sm label off =
     seqs [print_lit sm label, andthen (get (\<lambda>m. load32 m (sh_info sm + off) * 4)) (print_num sm), print_lit sm '' KB\<newline>'']"

definition cmd_meminfo :: "shell_mem \<Rightarrow> (unit, 'a) prog" where
  "cmd_meminfo sm =
     andthen (u_meminfo sm (sh_info sm)) (\<lambda>r.
       if sint r < 0 then print_lit sm ''meminfo: failed\<newline>''
       else seqs [print_lit sm ''Physical Memory:\<newline>'', meminfo_line sm ''  Total: '' 0, meminfo_line sm ''  Free:  '' 4,
         meminfo_line sm ''  Used:  '' 8])"

definition state_name :: "u32 \<Rightarrow> string" where
  "state_name state =
     (if state = 0 then ''READY'' else if state = 1 then ''RUNNING'' else if state = 2 then ''BLOCKED''
      else if state = 3 then ''ZOMBIE'' else ''?'')"

definition ps_line :: "shell_mem \<Rightarrow> nat \<Rightarrow> (unit, 'a) prog" where
  "ps_line sm i =
     seqs [print_lit sm ''  '', andthen (get (\<lambda>m. load32 m (sh_ps sm + 8 * of_nat i))) (print_num sm), print_lit sm ''   '',
       andthen (get (\<lambda>m. load32 m (sh_ps sm + 8 * of_nat i + 4))) (\<lambda>st. print_lit sm (state_name st)), print_lit sm ''\<newline>'']"

definition cmd_ps :: "shell_mem \<Rightarrow> (unit, 'a) prog" where
  "cmd_ps sm =
     andthen (u_ps sm (sh_ps sm) 32) (\<lambda>count.
       if sint count < 0 then print_lit sm ''ps: failed\<newline>''
       else seq (print_lit sm ''PID  STATE\<newline>'') (seqs (map (ps_line sm) [0..<nat (sint count)])))"

text \<open>The conditions of \<open>_start\<close>.\<close>

definition is_cmd :: "shell_mem \<Rightarrow> string \<Rightarrow> (bool, 'a) prog" where
  "is_cmd sm t = andthen (call_get (\<lambda>m. strcmp m (sh_cmd sm) (lit sm t))) (\<lambda>r. ret (r = 0))"

definition has_prefix :: "shell_mem \<Rightarrow> string \<Rightarrow> u32 \<Rightarrow> (bool, 'a) prog" where
  "has_prefix sm t n = get (\<lambda>m. strncmp m (sh_cmd sm) (lit sm t) n = 0)"

definition if_else :: "(bool, 'a) prog \<Rightarrow> ('r, 'a) prog \<Rightarrow> ('r, 'a) prog \<Rightarrow> ('r, 'a) prog" where
  "if_else c p q = andthen c (\<lambda>b. if b then p else q)"

definition shell_command :: "shell_mem \<Rightarrow> (unit, 'a) prog" where
  "shell_command sm =
     if_else (is_cmd sm ''help'') (cmd_help sm)
     (if_else (is_cmd sm ''ls'') (cmd_ls sm)
     (if_else (has_prefix sm ''cat '' 4) (cmd_cat sm (sh_cmd sm + 4))
     (if_else (has_prefix sm ''echo '' 5) (cmd_echo sm (sh_cmd sm + 5))
     (if_else (is_cmd sm ''echo'') (cmd_echo sm (lit sm []))
     (if_else (is_cmd sm ''clear'') (cmd_clear sm)
     (if_else (is_cmd sm ''uptime'') (cmd_uptime sm)
     (if_else (is_cmd sm ''meminfo'') (cmd_meminfo sm)
     (if_else (is_cmd sm ''ps'') (cmd_ps sm)
     (if_else (is_cmd sm ''exit'') (seq (print_lit sm ''Goodbye!\<newline>'') (seq (u_exit sm 0) skip))
       (seqs [print_lit sm ''Unknown command: '', print sm (sh_cmd sm),
         print_lit sm (''\<newline>Type '' @ quo @ ''help'' @ quo @ '' for a list of commands.\<newline>'')]))))))))))"

definition shell_iter :: "shell_mem \<Rightarrow> (unit, 'a) prog" where
  "shell_iter sm =
     seq (print_prompt sm) (andthen (readline sm (sh_cmd sm) CMD_BUF_SIZE) (\<lambda>len. if len = 0 then skip else shell_command sm))"

text \<open>The loop of \<open>_start\<close> has no end; this is what it has done after \<open>n\<close> turns.\<close>

primrec shell_loop :: "shell_mem \<Rightarrow> nat \<Rightarrow> (unit, 'a) prog" where
  "shell_loop sm 0 = skip"
| "shell_loop sm (Suc n) = seq (shell_iter sm) (shell_loop sm n)"

definition shell_banner :: "string list" where
  "shell_banner =
     [''\<newline>'',
      ''  ___                _                ___  ___\<newline>'',
      '' / _ '' @ bsl @ ''              | |               |  '' @ bsl @ ''/  |\<newline>'',
      ''/ /_'' @ bsl @ '' '' @ bsl @ ''_ __  _   _| |__   __ ___   _| .  . |\<newline>'',
      ''|  _  | '' @ quo @ ''_ '' @ bsl @ ''| | | | '' @ quo @ ''_ '' @ bsl @ '' / _` '' @ bsl @ '' '' @ bsl @ '' / / |'' @ bsl @ ''/| |\<newline>'',
      ''| | | | | | | |_| | |_) | (_| |'' @ bsl @ '' V /| |  | |\<newline>'',
      bsl @ ''_| |_/_| |_|'' @ bsl @ ''__,_|_.__/ '' @ bsl @ ''__,_| '' @ bsl @ ''_/ '' @ bsl @ ''_|  |_/\<newline>'',
      ''\<newline>'',
      ''Welcome to AnubhavOS! Type '' @ quo @ ''help'' @ quo @ '' for commands.\<newline>\<newline>'']"

definition shell_start :: "shell_mem \<Rightarrow> nat \<Rightarrow> (unit, 'a) prog" where
  "shell_start sm n = seq (seqs (map (print_lit sm) shell_banner)) (shell_loop sm n)"

end
