(* ===== verification/Exec.thy ===== *)
theory Exec
  imports Shell
begin

text \<open>
  kernel/proc/exec.c: loading a flat binary from the file system to its fixed address, and the
  kernel thread that runs it.
\<close>

section \<open>The source, function by function\<close>

definition USER_LOAD_ADDR :: u32 where "USER_LOAD_ADDR = 0x600000"

definition mem_copy_exec :: "u32 \<Rightarrow> u32 \<Rightarrow> u32 \<Rightarrow> mem \<Rightarrow> mem" where
  "mem_copy_exec dst src n m = fold (\<lambda>i m. m(dst + of_nat i := m (src + of_nat i))) [0..<unat n] m"

text \<open>The trampoline; \<open>entry\<close> is the program at \<open>USER_LOAD_ADDR\<close>.\<close>

definition shell_trampoline :: "(unit, 'a) prog \<Rightarrow> (unit, 'a) prog" where
  "shell_trampoline entry = andthen entry (\<lambda>_ irqs s. Some (khalt (kprintf ''[EXEC] Shell returned, halting\<newline>'' [] s)))"

text \<open>The descriptor table of a new process: no files, and the three standard descriptors in use.\<close>

definition std_fd :: "u32 \<Rightarrow> u32 \<Rightarrow> mem \<Rightarrow> mem" where
  "std_fd p fd m = store32 (m(fd_addr p fd + 8 := 1)) (fd_addr p fd) (-1)"

definition fd_table_init :: "u32 \<Rightarrow> mem \<Rightarrow> mem" where
  "fd_table_init p m = std_fd p 2 (std_fd p 1 (std_fd p 0 (fold (\<lambda>i. set_fd p (of_nat i) (-1) 0 0) [0..<MAX_FDS] m)))"

text \<open>A message with the file name; without a terminator the name has no end and \<open>kprintf\<close> does not return.\<close>

definition print_name :: "string \<Rightarrow> u32 \<Rightarrow> varg list \<Rightarrow> 'a fs_state_scheme \<Rightarrow> 'a fs_state_scheme option" where
  "print_name fmt p args s = map_option (\<lambda>nm. kprintf fmt (AStr (Some nm) # args) s) (c_string (mem s) p)"

text \<open>
  \<open>exec\<close>, from the creation of the process on and as a whole; \<open>tramp\<close> is the address of
  \<open>shell_trampoline\<close>. The result is the PCB, 0 for NULL.
\<close>

definition exec_spawn :: "u32 \<Rightarrow> u32 \<Rightarrow> u32 \<Rightarrow> 'a fs_state_scheme \<Rightarrow> (u32 \<times> 'a fs_state_scheme) option" where
  "exec_spawn tramp filename fsize s =
     (case process_create tramp s of
        None \<Rightarrow> None
      | Some (p, s1) \<Rightarrow>
          if p = 0 then Some (0, kprintf ''[EXEC] Failed to create process\<newline>'' [] s1)
          else let s2 = scheduler_add p (upd_mem (fd_table_init p) s1)
               in map_option (Pair p) (print_name (''[EXEC] Loaded '' @ quo @ ''%s'' @ quo @ '' (%d bytes) as PID %u at 0x%x\<newline>'') filename
                    [AWord fsize, AWord (pget (mem s2) p Pid), AWord USER_LOAD_ADDR] s2))"

definition exec :: "u32 \<Rightarrow> u32 \<Rightarrow> 'a fs_state_scheme \<Rightarrow> (u32 \<times> 'a fs_state_scheme) option" where
  "exec tramp filename s =
     (case vfs_open filename s of
        None \<Rightarrow> None
      | Some file_idx \<Rightarrow>
          if sint file_idx < 0 then map_option (Pair 0) (print_name ''[EXEC] File not found: %s\<newline>'' filename [] s)
          else (case kmalloc (32 * 1024) s of
             None \<Rightarrow> None
           | Some (tmpbuf, s1) \<Rightarrow>
               if tmpbuf = 0 then Some (0, kprintf ''[EXEC] Out of memory for temp buffer\<newline>'' [] s1)
               else (case vfs_read file_idx tmpbuf 0 (32 * 1024) s1 of (fsize, s2) \<Rightarrow>
                 if sint fsize \<le> 0
                 then map_option (\<lambda>s3. (0, kfree tmpbuf s3)) (print_name ''[EXEC] Empty or unreadable file: %s\<newline>'' filename [] s2)
                 else let s3 = upd_mem (mem_copy_exec USER_LOAD_ADDR tmpbuf fsize) s2;
                          s4 = kfree tmpbuf s3
                      in exec_spawn tramp filename fsize s4)))"

section \<open>The parts\<close>

lemma mem_copy_exec_apart:
  "apart_ranges dst (unat n) src (unat n) \<Longrightarrow> mem_copy_exec dst src n m = store_bytes m dst (load_bytes m src (unat n))"
  using mem_copy_apart [of dst n src m] by (simp add: mem_copy_exec_def mem_copy_def copy_byte_def [abs_def])

lemma std_fd_out:
  assumes "unat p + 416 \<le> 2 ^ 32" and "unat fd < MAX_FDS" and "unat x < unat p + 32 + 12 * unat fd \<or> unat p + 44 + 12 * unat fd \<le> unat x"
  shows "std_fd p fd m x = m x"
proof -
  note u = unat_fd_addr [OF assms(1,2)]
  have f: "unat fd < 32" using assms(2) by (simp add: MAX_FDS_def)
  have "x \<noteq> fd_addr p fd + 8" using assms(3) u(3) by auto
  then show ?thesis unfolding std_fd_def using assms u f by (subst store32_other) auto
qed

lemma std_fd_get:
  assumes "unat p + 416 \<le> 2 ^ 32" and "unat fd < MAX_FDS"
  shows "fd_in_use (std_fd p fd m) p fd = 1" "fd_file_idx (std_fd p fd m) p fd = -1" "fd_offset (std_fd p fd m) p fd = fd_offset m p fd"
proof -
  note u = unat_fd_addr [OF assms]
  have f: "unat fd < 32" using assms(2) by (simp add: MAX_FDS_def)
  have "load32 (m(fd_addr p fd + 8 := 1)) (fd_addr p fd + 4) = load32 m (fd_addr p fd + 4)" using u f assms(1) by (intro load32_cong) auto
  then show "fd_in_use (std_fd p fd m) p fd = 1" "fd_file_idx (std_fd p fd m) p fd = -1" "fd_offset (std_fd p fd m) p fd = fd_offset m p fd"
    using u f assms(1) by (simp_all add: fd_in_use_def fd_file_idx_def fd_offset_def std_fd_def load32_store32_other store32_other)
qed

text \<open>A step on one entry of the table leaves the others.\<close>

lemma fd_other:
  assumes "unat p + 416 \<le> 2 ^ 32" and "unat fd < MAX_FDS" and "unat g < MAX_FDS" and "g \<noteq> fd"
    and "\<And>x. unat x < unat p + 32 + 12 * unat fd \<or> unat p + 44 + 12 * unat fd \<le> unat x \<Longrightarrow> m' x = m x"
  shows "fd_in_use m' p g = fd_in_use m p g" "fd_file_idx m' p g = fd_file_idx m p g" "fd_offset m' p g = fd_offset m p g"
proof -
  have "unat g \<noteq> unat fd" using assms(4) by (simp add: word_unat_eq_iff)
  then have "unat x < unat p + 32 + 12 * unat fd \<or> unat p + 44 + 12 * unat fd \<le> unat x"
    if "unat p + 32 + 12 * unat g \<le> unat x" "unat x < unat p + 44 + 12 * unat g" for x :: u32 using that by linarith
  then show "fd_in_use m' p g = fd_in_use m p g" "fd_file_idx m' p g = fd_file_idx m p g" "fd_offset m' p g = fd_offset m p g"
    using assms(5) by (intro fd_fields_cong [OF assms(1,3)]; blast)+
qed

lemma std_fd_fields:
  assumes p: "unat p + 416 \<le> 2 ^ 32" and fd: "unat fd < MAX_FDS" and g: "unat g < MAX_FDS"
  shows "fd_in_use (std_fd p fd m) p g = (if g = fd then 1 else fd_in_use m p g)"
    "fd_file_idx (std_fd p fd m) p g = (if g = fd then -1 else fd_file_idx m p g)" "fd_offset (std_fd p fd m) p g = fd_offset m p g"
  using std_fd_get [OF p fd, of m] fd_other [OF p fd g, of "std_fd p fd m" m] std_fd_out [OF p fd, of _ m] by (cases "g = fd"; simp)+

lemma fd_clear_all:
  assumes p: "unat p + 416 \<le> 2 ^ 32" and "n \<le> MAX_FDS"
  shows "\<exists>m'. fold (\<lambda>i. set_fd p (of_nat i) (-1) 0 0) [0..<n] m = m' \<and>
    (\<forall>x. unat x < unat p + 32 \<or> unat p + 32 + 12 * n \<le> unat x \<longrightarrow> m' x = m x) \<and>
    (\<forall>g. unat g < n \<longrightarrow> fd_in_use m' p g = 0 \<and> fd_file_idx m' p g = -1 \<and> fd_offset m' p g = 0)"
  using assms(2)
proof (induction n)
  case (Suc n)
  have u: "unat (of_nat n :: u32) = n" using Suc.prems by (intro unat_of_nat32) (simp add: MAX_FDS_def)
  have n: "unat (of_nat n :: u32) < MAX_FDS" using Suc.prems u by simp
  obtain m1 where m1: "fold (\<lambda>i. set_fd p (of_nat i) (-1) 0 0) [0..<n] m = m1"
    "\<forall>x. unat x < unat p + 32 \<or> unat p + 32 + 12 * n \<le> unat x \<longrightarrow> m1 x = m x"
    "\<forall>g. unat g < n \<longrightarrow> fd_in_use m1 p g = 0 \<and> fd_file_idx m1 p g = -1 \<and> fd_offset m1 p g = 0" using Suc by auto
  let ?m = "set_fd p (of_nat n) (-1) 0 0 m1"
  have out: "?m x = m1 x" if "unat x < unat p + 32 + 12 * n \<or> unat p + 44 + 12 * n \<le> unat x" for x
    using that unat_fd_addr(1) [OF p n] u by (intro set_fd_get(4) [OF p n]) auto
  note get = set_fd_get(1-3) [OF p n, of "-1" 0 0 m1]
  have "fd_in_use ?m p g = 0 \<and> fd_file_idx ?m p g = -1 \<and> fd_offset ?m p g = 0" if g: "unat g < Suc n" for g
  proof (cases "g = of_nat n")
    case False
    then have "unat g < n" using g u by (metis less_SucE word_unat_eq_iff)
    moreover have "unat g < MAX_FDS" using g Suc.prems by simp
    ultimately show ?thesis using m1(3) fd_other [OF p n _ False, of ?m m1, unfolded u, OF _ out] by simp
  qed (use get in simp)
  moreover have "?m x = m x" if "unat x < unat p + 32 \<or> unat p + 32 + 12 * Suc n \<le> unat x" for x
    using that out [of x] m1(2) by auto
  ultimately show ?case using m1(1) by simp
qed simp

lemma fd_table_init_spec:
  assumes p: "unat p + 416 \<le> 2 ^ 32"
  shows "unat x < unat p + 32 \<or> unat p + 416 \<le> unat x \<Longrightarrow> fd_table_init p m x = m x"
    "unat g < MAX_FDS \<Longrightarrow> fd_in_use (fd_table_init p m) p g = (if unat g < 3 then 1 else 0) \<and>
       fd_file_idx (fd_table_init p m) p g = -1 \<and> fd_offset (fd_table_init p m) p g = 0"
proof -
  obtain m1 where m1: "fold (\<lambda>i. set_fd p (of_nat i) (-1) 0 0) [0..<MAX_FDS] m = m1"
    "\<forall>x. unat x < unat p + 32 \<or> unat p + 32 + 12 * MAX_FDS \<le> unat x \<longrightarrow> m1 x = m x"
    "\<forall>g. unat g < MAX_FDS \<longrightarrow> fd_in_use m1 p g = 0 \<and> fd_file_idx m1 p g = -1 \<and> fd_offset m1 p g = 0"
    using fd_clear_all [OF p order.refl, of m] by blast
  have l: "unat (0 :: u32) < MAX_FDS" "unat (1 :: u32) < MAX_FDS" "unat (2 :: u32) < MAX_FDS" by (simp_all add: MAX_FDS_def)
  note out = std_fd_out [OF p l(1)] std_fd_out [OF p l(2)] std_fd_out [OF p l(3)]
  show "fd_table_init p m x = m x" if "unat x < unat p + 32 \<or> unat p + 416 \<le> unat x"
    unfolding fd_table_init_def m1(1)
    using that m1(2) out(1) [of x m1] out(2) [of x "std_fd p 0 m1"] out(3) [of x "std_fd p 1 (std_fd p 0 m1)"] by (auto simp: MAX_FDS_def)
  show "fd_in_use (fd_table_init p m) p g = (if unat g < 3 then 1 else 0) \<and>
       fd_file_idx (fd_table_init p m) p g = -1 \<and> fd_offset (fd_table_init p m) p g = 0" if g: "unat g < MAX_FDS"
  proof -
    have z: "fd_in_use m1 p g = 0" "fd_file_idx m1 p g = -1" "fd_offset m1 p g = 0" using m1(3) g by simp_all
    have lt: "unat g < 3 \<longleftrightarrow> g = 0 \<or> g = 1 \<or> g = 2" by (auto simp: word_unat_eq_iff)
    show ?thesis unfolding fd_table_init_def m1(1)
      by (simp add: std_fd_fields [OF p l(1) g] std_fd_fields [OF p l(2) g] std_fd_fields [OF p l(3) g] z lt)
  qed
qed

section \<open>What exec keeps\<close>

text \<open>
  The heap lies off the file table and below the load address, the name below the heap, and
  the PCBs of the run queue are blocks of the heap.
\<close>

definition exec_ready :: "u32 \<Rightarrow> cstr \<Rightarrow> u32 list \<Rightarrow> 'a fs_state_scheme \<Rightarrow> bool" where
  "exec_ready fn nm ps s \<longleftrightarrow> fs_ok s \<and> mounted_fs s = Some Ramfs_ops \<and> heap_inv s \<and>
     off_table s (heap_start_addr s) (heap_top s - heap_base s) \<and> heap_top s \<le> unat USER_LOAD_ADDR \<and> off_table s USER_LOAD_ADDR 32768 \<and>
     str_at (mem s) fn nm \<and> hd0 nm \<noteq> 0x2F \<and> unat fn + Suc (length nm) \<le> heap_base s \<and>
     queue s ps \<and> (\<forall>q \<in> set ps. \<exists>n \<ge> 416. (unat q, n) \<in> heap_live s)"

text \<open>Memory below the heap, above it except where the program goes, and in the blocks handed out is as in \<open>s\<close>.\<close>

definition exec_keeps :: "'a heap_state_scheme \<Rightarrow> mem \<Rightarrow> bool" where
  "exec_keeps s m \<longleftrightarrow> (\<forall>x. unat x < heap_base s \<or> heap_top s \<le> unat x \<and> (unat x < 0x600000 \<or> 0x608000 \<le> unat x) \<or>
     (\<exists>(q, n) \<in> heap_live s. q \<le> unat x \<and> unat x < q + n) \<longrightarrow> m x = mem s x)"

lemma kept_frame: "mem_frame (heap_base s) (heap_top s) (heap_live s) m m' \<Longrightarrow> exec_keeps s m \<Longrightarrow> exec_keeps s m'"
  unfolding exec_keeps_def mem_frame_def by (metis (no_types, lifting))

lemma kept_same: "exec_keeps s (mem s)"
  by (simp add: exec_keeps_def)

lemma heap_live_gap: "heap_inv s \<Longrightarrow> (q, n) \<in> heap_live s \<Longrightarrow> heap_base s \<le> q \<and> q + n \<le> heap_top s"
  using heap_live_range [of s q n] by simp

lemma kept_block:
  assumes "exec_keeps s m" and "416 \<le> n" and "(unat p, n) \<in> heap_live s" and "unat p \<le> unat x" "unat x < unat p + 416"
  shows "m x = mem s x"
  using assms unfolding exec_keeps_def by (metis (mono_tags, lifting) case_prodI less_le_trans nat_add_left_cancel_le)

lemma kept_pget:
  assumes "exec_keeps s m" and "(unat p, n) \<in> heap_live s" and "416 \<le> n" and "heap_inv s"
  shows "pget m p f = pget (mem s) p f"
proof -
  have "unat p + 416 \<le> 2 ^ 32" using heap_block_fits [OF assms(4,2,3)] by simp
  moreover have "m x = mem s x" if "unat p \<le> unat x" "unat x < unat p + 416" for x
    using assms(1,2,3) that unfolding exec_keeps_def by (metis (mono_tags, lifting) case_prodI le_trans less_le_trans nat_add_left_cancel_le)
  ultimately show ?thesis by (intro pget_cong) auto
qed

lemma kept_state:
  fixes s :: "'a fs_state_scheme"
  assumes r: "exec_ready fn nm ps s" and st: "heap_step s s'" and k: "exec_keeps s (mem s')"
  shows "file_tab s' = file_tab s" "fs_ok s'" "queue s' ps" "str_at (mem s') fn nm" "mounted_fs s' = Some Ramfs_ops" "current s' = current s"
    "off_table s' a j = off_table s a j"
proof -
  obtain po b c w m u where e: "s' = s\<lparr>ports := po, vga_buf := b, vga_col := c, vga_row := w, mem := m, heap_used := u\<rparr>"
    using st unfolding heap_step_def by blast
  have f: "files_addr s' = files_addr s" "run_queue s' = run_queue s" "mounted_fs s' = mounted_fs s" "current s' = current s" using e by simp_all
  have q: "fs_ok s" "off_table s (heap_start_addr s) (heap_top s - heap_base s)" "off_table s USER_LOAD_ADDR 32768" "heap_inv s" "mounted_fs s = Some Ramfs_ops"
    using r by (simp_all add: exec_ready_def)
  have hb: "heap_base s \<le> heap_top s" using q(4) chain_le [OF heap_rel_chain] unfolding heap_inv_def by blast
  have "mem s' x = mem s x" if "unat (files_addr s) \<le> unat x" "unat x < unat (files_addr s) + RAMFS_MAX_FILES * 32840" for x
  proof -
    have "unat x < heap_base s \<or> heap_top s \<le> unat x" "unat x < 0x600000 \<or> 0x608000 \<le> unat x"
      using q(2,3) hb that by (auto simp: off_table_def apart_ranges_def USER_LOAD_ADDR_def)
    then show ?thesis using k unfolding exec_keeps_def by blast
  qed
  then have "file_tab (s\<lparr>mem := mem s'\<rparr>) = file_tab s" using q(1) by (intro file_tab_frame) (simp_all add: fs_ok_def)
  then show t: "file_tab s' = file_tab s" using file_tab_cong [of s' "s\<lparr>mem := mem s'\<rparr>"] f by simp
  then show "fs_ok s'" using q(1) f by (simp add: fs_ok_def)
  show "mounted_fs s' = Some Ramfs_ops" "current s' = current s" "off_table s' a j = off_table s a j" using f q(5) by (simp_all add: off_table_def)
  have "load_bytes (mem s') fn (Suc (length nm)) = load_bytes (mem s) fn (Suc (length nm))"
    using r k heap_top_bound [of s] hb by (intro load_bytes_cong) (auto simp: exec_ready_def exec_keeps_def)
  then show "str_at (mem s') fn nm" using r by (simp add: exec_ready_def str_at_load del: load_bytes.simps)
  have pg: "pget (mem s') p Next = pget (mem s) p Next" if "p \<in> set ps" for p
    using that r kept_pget [OF k _ _ q(4)] unfolding exec_ready_def by blast
  have "links (mem s') ps e = links (mem s) ps e" for e by (rule links_cong) (rule pg)
  then show "queue s' ps" using r f by (auto simp: exec_ready_def queue_def ring_def split: if_splits)
qed

section \<open>Loading\<close>

lemma kmalloc_null:
  fixes s :: "'a heap_state_scheme"
  assumes rel: "heap_rel s bs" and sz: "0 < sz" "sz \<le> 0xFFFFFFFC" and k: "kmalloc sz s = Some (p, s')"
  shows "p = 0 \<longleftrightarrow> (\<forall>(n, u) \<in> set bs. u \<or> n < unat (ALIGN4 sz))"
proof -
  have sz0: "sz \<noteq> 0" using sz(1) by auto
  note none = alloc_blocks_none [of "unat (ALIGN4 sz)" "heap_base s" bs]
  show ?thesis
  proof (cases "alloc_blocks (unat (ALIGN4 sz)) (heap_base s) bs")
    case None
    then show ?thesis using kmalloc_refines [OF rel sz0] k none by simp
  next
    case (Some r)
    obtain q bs' where r: "r = (q, bs')" by (cases r)
    obtain n where l: "live (heap_base s) bs' = insert (q, n) (live (heap_base s) bs)" using alloc_blocks_live Some r by blast
    have s': "p = of_nat q" "heap_rel s' bs'" "heap_start_addr s' = heap_start_addr s" using kmalloc_refines [OF rel sz0] k Some r by auto
    then have "(q, n) \<in> heap_live s'" "heap_inv s'" using l heap_live_eq [OF s'(2)] by (auto simp: heap_inv_def)
    then have "heap_base s' + 16 \<le> q" "q + n \<le> heap_top s'" using heap_live_range by blast+
    then have "unat p = q" "0 < q" using s'(1) heap_top_bound [of s'] by (auto intro!: unat_of_nat32)
    then have "p \<noteq> 0" by auto
    then show ?thesis using Some none by simp
  qed
qed

lemma free_blocks_room: "(p, n) \<in> live a bs \<Longrightarrow> \<exists>i \<ge> n. (i, False) \<in> set (free_blocks p a bs)"
proof (induction bs arbitrary: a)
  case (Cons b bs)
  obtain k u where b: "b = (k, u)" by (cases b)
  have here: "\<exists>i \<ge> k. (i, False) \<in> set (merge_next k bs)" by (induction k bs rule: merge_next.induct) (simp_all, metis add.assoc le_add1, blast)
  show ?case
  proof (cases "p = a + 16")
    case True
    have "(p, n) \<notin> live (a + 16 + k) bs" using True live_bounds [of p n "a + 16 + k" bs] by auto
    then have "n = k" using Cons.prems b True by (auto split: if_splits)
    then show ?thesis using here b True by simp
  next
    case False
    then have "(p, n) \<in> live (a + 16 + k) bs" using Cons.prems b by (auto split: if_splits)
    then show ?thesis using Cons.IH b False by auto
  qed
qed simp

lemma kept_store:
  assumes k: "exec_keeps s m" and out: "\<And>x. unat x < a \<or> a + n \<le> unat x \<Longrightarrow> m' x = m x"
    and a: "0x600000 \<le> a \<and> a + n \<le> 0x608000 \<or> (heap_base s \<le> a \<and> a + n \<le> heap_top s \<and> (\<forall>(q, i) \<in> heap_live s. a + n \<le> q \<or> q + i \<le> a))"
    and h: "heap_top s \<le> 0x600000" "heap_inv s"
  shows "exec_keeps s m'"
  unfolding exec_keeps_def
proof (intro allI impI)
  fix x :: u32
  assume x: "unat x < heap_base s \<or> heap_top s \<le> unat x \<and> (unat x < 0x600000 \<or> 0x608000 \<le> unat x) \<or> (\<exists>(q, n) \<in> heap_live s. q \<le> unat x \<and> unat x < q + n)"
  have "heap_base s \<le> heap_top s" using h(2) chain_le [OF heap_rel_chain] unfolding heap_inv_def by blast
  moreover have "heap_base s \<le> q \<and> q + i \<le> heap_top s" if "(q, i) \<in> heap_live s" for q i using heap_live_gap [OF h(2) that] .
  ultimately have "unat x < a \<or> a + n \<le> unat x" using x a h(1) by fastforce
  then have "m' x = m x" by (rule out)
  moreover have "m x = mem s x" using k x unfolding exec_keeps_def by blast
  ultimately show "m' x = mem s x" by simp
qed

lemma heap_outside:
  fixes s :: "'a heap_state_scheme"
  assumes "heap_inv s" and "\<And>x. unat x < heap_top s \<Longrightarrow> m x = mem s x"
  shows "heap_inv (s\<lparr>mem := m\<rparr>)" "heap_live (s\<lparr>mem := m\<rparr>) = heap_live s"
proof -
  obtain bs where rel: "heap_rel s bs" using assms(1) by (auto simp: heap_inv_def)
  have "chain m (heap_base s) bs (heap_top s)" by (rule chain_cong [OF _ heap_top_bound heap_rel_chain [OF rel]]) (rule assms(2))
  then have r: "heap_rel (s\<lparr>mem := m\<rparr>) bs" using rel by (simp add: heap_rel_def)
  then show "heap_inv (s\<lparr>mem := m\<rparr>)" "heap_live (s\<lparr>mem := m\<rparr>) = heap_live s"
    using heap_live_eq [OF r] heap_live_eq [OF rel] by (auto simp: heap_inv_def)
qed

lemma exec_openD:
  assumes "exec_ready fn nm ps s"
  shows "vfs_open fn s = Some (idx_ret (tab_find nm (file_tab s)))" "print_name fmt fn args s = Some (kprintf fmt (AStr (Some nm) # args) s)"
    "sint (idx_ret (tab_find nm (file_tab s))) < 0 \<longleftrightarrow> tab_find nm (file_tab s) = None"
proof -
  have r: "fs_ok s" "mounted_fs s = Some Ramfs_ops" "str_at (mem s) fn nm" "hd0 nm \<noteq> 0x2F" using assms by (simp_all add: exec_ready_def)
  show "vfs_open fn s = Some (idx_ret (tab_find nm (file_tab s)))" using open_plain [OF r(1,3,4)] r(2) by (simp add: vfs_ramfs)
  show "print_name fmt fn args s = Some (kprintf fmt (AStr (Some nm) # args) s)" using c_string_at [OF r(3)] by (simp add: print_name_def)
  have "0 \<le> sint (idx_ret (tab_find nm (file_tab s))) \<longleftrightarrow> tab_find nm (file_tab s) \<noteq> None"
    by (rule idx_ret_sign) (use tab_find_Some in force)
  then show "sint (idx_ret (tab_find nm (file_tab s))) < 0 \<longleftrightarrow> tab_find nm (file_tab s) = None" by auto
qed

text \<open>The temporary buffer, with the file read into it.\<close>

lemma exec_temp:
  fixes s :: "'a fs_state_scheme"
  assumes r: "exec_ready fn nm ps s" and i: "tab_find nm (file_tab s) = Some i" and k: "kmalloc (32 * 1024) s = Some (p, s1)" "p \<noteq> 0"
  defines "c \<equiv> file_content (file_tab s ! i)"
  obtains n m where "vfs_read (of_nat i) p 0 (32 * 1024) s1 = (of_nat (length c), s1\<lparr>mem := m\<rparr>)" "heap_inv (s1\<lparr>mem := m\<rparr>)"
    "heap_live (s1\<lparr>mem := m\<rparr>) = insert (unat p, n) (heap_live s)" "(unat p, n) \<notin> heap_live s" "32768 \<le> n" "exec_keeps s m" "load_bytes m p (length c) = c"
    "heap_step s (s1\<lparr>mem := m\<rparr>)" "length c \<le> 32768" "unat p + n \<le> heap_top s" "heap_base s \<le> unat p"
proof -
  have q: "heap_inv s" "heap_top s \<le> 0x600000" "off_table s (heap_start_addr s) (heap_top s - heap_base s)" "fs_ok s"
    using r by (simp_all add: exec_ready_def USER_LOAD_ADDR_def)
  have sz: "0 < (32 * 1024 :: u32)" "(32 * 1024 :: u32) \<le> 0xFFFFFFFC" "unat (32 * 1024 :: u32) = 32768" by simp_all
  obtain n where s1: "heap_inv s1" "heap_live s1 = insert (unat p, n) (heap_live s)" "(unat p, n) \<notin> heap_live s" "unat (32 * 1024 :: u32) \<le> n"
    "mem_frame (heap_base s) (heap_top s) (heap_live s) (mem s) (mem s1)" "\<forall>(q, i) \<in> heap_live s. unat p + n \<le> q \<or> q + i \<le> unat p"
    by (rule kmalloc_cases [OF q(1) sz(1,2)]) (use k in auto)
  have hs: "heap_step s s1" by (rule heap_step_ops(1) [OF k(1)])
  note hf = heap_step_fields [OF hs]
  have g: "heap_base s \<le> unat p" "unat p + n \<le> heap_top s" using heap_live_gap [OF s1(1), of "unat p" n] s1(2) hf by simp_all
  have n: "32768 \<le> n" using s1(4) sz(3) by simp
  have k1: "exec_keeps s (mem s1)" by (rule kept_frame [OF s1(5) kept_same])
  note st = kept_state [OF r hs k1]
  have iu: "i < RAMFS_MAX_FILES" "rf_used (file_tab s ! i)" using tab_find_Some [OF i] by (simp_all del: nth_file_tab)
  have c: "length c \<le> 32768" unfolding c_def using fs_ok_entry(2) [OF q(4) iu(1)] iu by (simp add: file_content_def ramfs_consts)
  have "off_table s p (length c)" using q(3) g n c heap_top_bound [of s] by (auto simp: off_table_def apart_ranges_def)
  then have off: "off_table s1 p (length (take (unat (32 * 1024 :: u32)) (drop (unat (0 :: u32)) (file_content (file_tab s1 ! i)))))"
    using c unfolding st(1) st(7) sz(3) c_def by (simp del: nth_file_tab)
  let ?m = "store_bytes (mem s1) p c"
  have rd: "vfs_read (of_nat i) p 0 (32 * 1024) s1 = (of_nat (length c), s1\<lparr>mem := ?m\<rparr>)"
    using ramfs_read_spec [OF st(2) iu(1) _ off] iu(2) c st(5) unfolding st(1) sz(3) c_def [symmetric] by (simp add: vfs_ramfs)
  have out: "?m x = mem s1 x" if "unat x < unat p \<or> unat p + n \<le> unat x" for x
    using that c n g heap_top_bound [of s] by (intro store_bytes_other) auto
  have l: "(unat p, n) \<in> heap_live s1" using s1(2) by simp
  have k2: "exec_keeps s ?m" by (rule kept_store [OF k1 out _ q(2,1)]) (use g s1(6) in auto)
  have cl: "load_bytes ?m p (length c) = c" using g n c heap_top_bound [of s] by (intro load_store_bytes) simp
  have hl: "heap_inv (s1\<lparr>mem := ?m\<rparr>)" "heap_live (s1\<lparr>mem := ?m\<rparr>) = heap_live s1" by (rule heap_write_block [OF s1(1) l], rule out, assumption)+
  show ?thesis by (rule that [OF rd hl(1) hl(2) [unfolded s1(2)] s1(3) n k2 cl heap_step_trans [OF hs heap_step_mem] c g(2,1)])
qed

lemma exec_ready_keep:
  fixes s :: "'a fs_state_scheme"
  assumes r: "exec_ready fn nm ps s" and st: "heap_step s t" and k: "exec_keeps s (mem t)" and h: "heap_inv t" "heap_live t = heap_live s"
  shows "exec_ready fn nm ps t"
  using kept_state [OF r st k] r h heap_step_fields(1,2) [OF st] by (simp add: exec_ready_def)

lemma exec_release:
  fixes s t :: "'a fs_state_scheme"
  assumes r: "exec_ready fn nm ps s" and st: "heap_step s t" and k: "exec_keeps s (mem t)" and inv: "heap_inv t"
    and l: "heap_live t = insert (unat p, n) (heap_live s)" "(unat p, n) \<notin> heap_live s"
  obtains bs i where "exec_ready fn nm ps (kfree p t)" "heap_step s (kfree p t)" "heap_live (kfree p t) = heap_live s" "heap_rel (kfree p t) bs"
    "(i, False) \<in> set bs" "n \<le> i" "\<forall>x. heap_top s \<le> unat x \<longrightarrow> mem (kfree p t) x = mem t x" "exec_keeps s (mem (kfree p t))"
proof -
  have lp: "(unat p, n) \<in> heap_live t" using l by simp
  note f = kfree_live [OF inv lp]
  have hl: "heap_live t - {(unat p, n)} = heap_live s" using l by auto
  note hf = heap_step_fields [OF st]
  have fr: "mem_frame (heap_base s) (heap_top s) (heap_live s) (mem t) (mem (kfree p t))" using f(3) unfolding hl hf(1,2) .
  have k': "exec_keeps s (mem (kfree p t))" by (rule kept_frame [OF fr k])
  have st': "heap_step s (kfree p t)" by (rule heap_step_trans [OF st heap_step_ops(3)])
  obtain bs where rel: "heap_rel t bs" using inv by (auto simp: heap_inv_def)
  have lb: "(unat p, n) \<in> live (heap_base t) bs" using lp heap_live_eq [OF rel] by simp
  have rel': "heap_rel (kfree p t) (free_blocks (unat p) (heap_base t) bs)" using kfree_refines(1) [OF rel lb] by simp
  obtain i where i: "n \<le> i" "(i, False) \<in> set (free_blocks (unat p) (heap_base t) bs)" using free_blocks_room [OF lb] by blast
  have hl': "heap_live (kfree p t) = heap_live s" using f(2) hl by simp
  have top: "\<forall>x. heap_top s \<le> unat x \<longrightarrow> mem (kfree p t) x = mem t x" using mem_frame_out [OF fr] by blast
  show ?thesis by (rule that [OF exec_ready_keep [OF r st' k' f(1) hl'] st' hl' rel' i(2,1) top k'])
qed

lemma scheduler_add_out:
  assumes "unat p + 416 \<le> 2 ^ 32" and "run_queue s \<noteq> 0 \<Longrightarrow> unat (run_queue s) + 416 \<le> 2 ^ 32"
    and "unat x < unat p \<or> unat p + 32 \<le> unat x"
    and "run_queue s \<noteq> 0 \<Longrightarrow> unat x < unat (run_queue s) \<or> unat (run_queue s) + 32 \<le> unat x"
  shows "mem (scheduler_add p s) x = mem s x"
  using assms by (auto simp: scheduler_add_def Let_def pset_frame)

lemma scheduler_add_fields [simp]:
  fixes s :: "'a fs_state_scheme"
  shows "files_addr (scheduler_add p s) = files_addr s" "mounted_fs (scheduler_add p s) = mounted_fs s" "current (scheduler_add p s) = current s"
    "next_pid (scheduler_add p s) = next_pid s" "heap_start_addr (scheduler_add p s) = heap_start_addr s" "heap_end_addr (scheduler_add p s) = heap_end_addr s"
  by (simp_all add: scheduler_add_def Let_def)

text \<open>What a successful \<open>exec\<close> leaves: the program at its address, and a ready thread for it.\<close>

definition exec_loaded :: "u32 \<Rightarrow> u8 list \<Rightarrow> u32 list \<Rightarrow> u32 \<Rightarrow> 'a fs_state_scheme \<Rightarrow> 'a fs_state_scheme \<Rightarrow> bool" where
  "exec_loaded tramp c ps p s s' \<longleftrightarrow>
     load_bytes (mem s') USER_LOAD_ADDR (length c) = c \<and> queue s' (insert_second p ps) \<and> p \<notin> set ps \<and>
     (\<exists>ks. process_ready (mem s') p ks (next_pid s) (kernel_dir s) [0, 0, 0, 0, kthread_entry s, tramp]) \<and>
     (\<forall>fd. unat fd < MAX_FDS \<longrightarrow> fd_in_use (mem s') p fd = (if unat fd < 3 then 1 else 0) \<and> fd_file_idx (mem s') p fd = -1) \<and>
     (\<forall>q \<in> set ps. \<forall>f. f \<noteq> Next \<longrightarrow> pget (mem s') q f = pget (mem s) q f) \<and>
     (\<forall>q \<in> set ps. \<forall>x. unat q + 32 \<le> unat x \<and> unat x < unat q + 416 \<longrightarrow> mem s' x = mem s x) \<and>
     file_tab s' = file_tab s \<and> fs_ok s' \<and> current s' = current s \<and> next_pid s' = next_pid s + 1"

end
