(* ===== verification/Shell_io.thy ===== *)
theory Shell_io
  imports Shell
begin

text \<open>
  The shell's system calls as it sees them: writes to the screen, reads of a key and of a file, open and
  close through the trap; where its arrays and literals must lie (\<open>shell_ok\<close>); and the line
  editor \<open>edit\<close> that \<open>readline\<close> implements.
\<close>

section \<open>Printing\<close>

text \<open>In base 10 the library writes what \<open>%u\<close> prints.\<close>

lemma utoa_digit_char: "unat d < 16 \<Longrightarrow> utoa_digit d = digit_char d"
proof -
  have "list_all (\<lambda>i. utoa_digit (of_nat i) = digit_char (of_nat i)) [0..<16]" by code_simp
  then show "unat d < 16 \<Longrightarrow> ?thesis" unfolding list_all_iff set_upt by (metis atLeastLessThan_iff le0 of_nat_unat ucast_id)
qed

lemma utoa_digits_text:
  assumes "2 \<le> b" and "b \<le> 16"
  shows "utoa_digits v b tmp = Some (rev (uint_digits v b) @ tmp)"
  using assms
proof (induction v b arbitrary: tmp rule: uint_digits.induct)
  case (1 v b)
  show ?case
  proof (cases "v = 0")
    case True
    then show ?thesis by (subst utoa_digits.simps, subst uint_digits.simps) simp
  next
    case False
    have b: "b \<noteq> 0" "\<not> b < 2" using "1.prems" by auto
    have "unat v mod unat b < unat b" using b(1) by (intro mod_less_divisor) (simp add: unat_gt_0)
    then have "unat (v mod b) < 16" using "1.prems"(2) by (simp add: unat_mod word_le_nat_alt)
    note d = utoa_digit_char [OF this]
    have "utoa_digits v b tmp = utoa_digits (v div b) b (digit_char (v mod b) # tmp)"
      using False b by (subst utoa_digits.simps) (simp add: d word_greater_zero_iff)
    also have "\<dots> = Some (rev (uint_digits (v div b) b) @ digit_char (v mod b) # tmp)" using "1.IH" False b "1.prems" by simp
    also have "\<dots> = Some (rev (uint_digits v b) @ tmp)" using False b by (subst (2) uint_digits.simps) simp
    finally show ?thesis .
  qed
qed

lemma utoa_text: "utoa v buf 10 m = Some (store_bytes m buf (uint_text v 10 @ [0]))"
  using utoa_digits_text [of 10 v "[]"] by (simp add: utoa_def uint_text_def store_bytes_append)

abbreviation puts :: "u8 list \<Rightarrow> 'a fs_state_scheme \<Rightarrow> 'a fs_state_scheme" where
  "puts \<equiv> fold vga_putchar"

lemma putchar_mem [simp]: "(vga_putchar c s)\<lparr>mem := m\<rparr> = vga_putchar c (s\<lparr>mem := m\<rparr>)"
proof -
  have p: "vga_place c (s\<lparr>mem := m\<rparr>) = (vga_place c s)\<lparr>mem := m\<rparr>" for s :: "'a mem_state_scheme"
    by (simp add: vga_place_def vga_wrap_col_def vga_pos_def Let_def)
  have u: "vga_update_cursor (s\<lparr>mem := m\<rparr>) = (vga_update_cursor s)\<lparr>mem := m\<rparr>" "vga_scroll (s\<lparr>mem := m\<rparr>) = (vga_scroll s)\<lparr>mem := m\<rparr>"
    for s :: "'a mem_state_scheme" by (simp_all add: vga_update_cursor_def vga_scroll_def outb_def Let_def)
  show ?thesis unfolding vga_putchar_def Let_def p by (simp add: u)
qed

lemma putchar_interrupts [simp]: "vga_putchar c (s\<lparr>interrupts_on := b\<rparr>) = (vga_putchar c s)\<lparr>interrupts_on := b\<rparr>"
proof -
  have p: "vga_place c (s\<lparr>interrupts_on := b\<rparr>) = (vga_place c s)\<lparr>interrupts_on := b\<rparr>" for s :: "'a arch_state_scheme"
    by (simp add: vga_place_def vga_wrap_col_def vga_pos_def Let_def)
  have u: "vga_update_cursor (s\<lparr>interrupts_on := b\<rparr>) = (vga_update_cursor s)\<lparr>interrupts_on := b\<rparr>"
    "vga_scroll (s\<lparr>interrupts_on := b\<rparr>) = (vga_scroll s)\<lparr>interrupts_on := b\<rparr>"
    for s :: "'a arch_state_scheme" by (simp_all add: vga_update_cursor_def vga_scroll_def outb_def Let_def)
  show ?thesis unfolding vga_putchar_def Let_def p by (simp add: u)
qed

lemma puts_upd [simp]:
  fixes s :: "'a fs_state_scheme"
  shows "(puts cs s)\<lparr>mem := m\<rparr> = puts cs (s\<lparr>mem := m\<rparr>)" "puts cs (s\<lparr>interrupts_on := b\<rparr>) = (puts cs s)\<lparr>interrupts_on := b\<rparr>"
  by (induction cs arbitrary: s) (simp_all add: putchar_mem putchar_interrupts)

lemma mem_putchar [simp]: "mem (vga_putchar c s) = mem (s :: 'a fs_state_scheme)"
  by (rule io_step_fields [OF io_step_putchar])

lemma puts_fields [simp]:
  fixes s :: "'a fs_state_scheme"
  shows "mem (puts cs s) = mem s" "interrupts_on (puts cs s) = interrupts_on s" "current (puts cs s) = current s"
  by (rule fold_putchar_frame [of cs s]; simp)+

lemma screen_putchar: "screen_of s = screen_of t \<Longrightarrow> screen_of (vga_putchar c s) = screen_of (vga_putchar c t)"
  by (simp add: screen_of_def vga_putchar_def vga_place_def vga_wrap_col_def vga_scroll_def vga_update_cursor_def outb_def vga_pos_def Let_def)

lemma screen_puts: "screen_of s = screen_of t \<Longrightarrow> screen_of (fold vga_putchar cs s) = screen_of (fold vga_putchar cs t)"
proof (induction cs arbitrary: s t)
  case (Cons c cs)
  show ?case using Cons.IH [OF screen_putchar [OF Cons.prems, of c]] by simp
qed simp

lemma run_steps [simp]:
  "ret r irqs s = Some (Returned (r, irqs) s)" "skip irqs s = Some (Returned ((), irqs) s)"
  "get f irqs s = Some (Returned (f (mem s), irqs) s)" "put g irqs s = Some (Returned ((), irqs) (s\<lparr>mem := g (mem s)\<rparr>))"
  by (simp_all add: ret_def skip_def get_def put_def)

lemma run_andthen:
  "p irqs s = Some (Returned (r, irqs') s') \<Longrightarrow> andthen p q irqs s = q r irqs' s'"
  "p irqs s = Some (Returned (r, irqs') s') \<Longrightarrow> seq p q' irqs s = q' irqs' s'"
  by (simp_all add: andthen_def seq_def)

lemma u_write_screen: "u_write sm 1 buf len irqs s = Some (Returned (len, irqs) (puts (load_bytes (mem s) buf (unat len)) s))"
  by (simp add: u_write_def int80_def isr_handler_def syscall_handler_def sys_numbers sys_write_def put_buf_text Let_def)

lemma print_at:
  assumes "str_at (mem s) p cs" and "length cs < 2 ^ 32"
  shows "print sm p irqs s = Some (Returned ((), irqs) (puts cs s))"
proof -
  have "load_bytes (mem s) p (length cs) = cs" using assms(1) by (simp add: str_at_def)
  then show ?thesis using strlen_at [OF assms(1)] unat_of_nat32 [OF assms(2)]
    by (simp add: print_def call_get_def andthen_def seq_def u_write_screen)
qed

lemma seqs_simps [simp]: "seqs [] = skip" "seqs (p # ps) = seq p (seqs ps)"
  by (simp_all add: seqs_def)

section \<open>Where the shell lives\<close>

definition shell_lits :: "string list" where
  "shell_lits = shell_banner @
     [''anubhav-os:/ $ '', [CHR 0x08, CHR 0x20, CHR 0x08], ''AnubhavOS Shell Commands:\<newline>'',
      ''  help     '' @ dash @ '' show this help\<newline>'', ''  ls       '' @ dash @ '' list files in ramfs\<newline>'',
      ''  cat FILE '' @ dash @ '' display file contents\<newline>'', ''  echo ... '' @ dash @ '' print arguments\<newline>'',
      ''  clear    '' @ dash @ '' clear the screen\<newline>'', ''  uptime   '' @ dash @ '' seconds since boot\<newline>'',
      ''  meminfo  '' @ dash @ '' physical memory usage\<newline>'', ''  ps       '' @ dash @ '' list running processes\<newline>'',
      ''ls: readdir failed\<newline>'', ''  '', ''  ('', '' bytes)\<newline>'', ''  (no files)\<newline>'', ''cat: usage: cat <filename>\<newline>'',
      ''cat: file not found: '', [CHR 0x0D], ''Uptime: '', '' seconds\<newline>'', ''meminfo: failed\<newline>'', ''Physical Memory:\<newline>'',
      ''  Total: '', ''  Free:  '', ''  Used:  '', '' KB\<newline>'', ''READY'', ''RUNNING'', ''BLOCKED'', ''ZOMBIE'', ''?'',
      ''ps: failed\<newline>'', ''PID  STATE\<newline>'', ''   '', ''help'', ''ls'', ''cat '', ''echo '', ''echo'', [], ''clear'', ''uptime'', ''meminfo'',
      ''ps'', ''exit'', ''Goodbye!\<newline>'', ''Unknown command: '',
      ''\<newline>Type '' @ quo @ ''help'' @ quo @ '' for a list of commands.\<newline>'']"

definition sh_bufs :: "shell_mem \<Rightarrow> (u32 \<times> nat) list" where
  "sh_bufs sm = [(sh_cmd sm, 256), (sh_c sm, 1), (sh_num sm, 16), (sh_dir sm, 2176), (sh_cat sm, 512), (sh_line sm, 81),
     (sh_info sm, 12), (sh_ps sm, 256)]"

text \<open>
  The local arrays and the literals lie outside the kernel's file table and PCB, arrays in use at
  the same time do not overlap, and no array overlaps a literal; the memory report is not at address 0.
\<close>

definition shell_fit :: "shell_mem \<Rightarrow> 'a fs_state_scheme \<Rightarrow> bool" where
  "shell_fit sm s \<longleftrightarrow>
     (\<forall>(p, n) \<in> set (sh_bufs sm). user_range s p n \<and> (\<forall>t \<in> set shell_lits. apart_ranges p n (lit sm t) (Suc (length t)))) \<and>
     (\<forall>(p, n) \<in> set (tl (sh_bufs sm)). apart_ranges (sh_cmd sm) 256 p n) \<and>
     (\<forall>(p, n) \<in> {(sh_dir sm, 2176), (sh_info sm, 12), (sh_ps sm, 256)}. apart_ranges (sh_num sm) 16 p n) \<and>
     (\<forall>t \<in> set shell_lits. user_range s (lit sm t) (Suc (length t))) \<and> sh_info sm \<noteq> 0"

definition shell_ok :: "shell_mem \<Rightarrow> 'a fs_state_scheme \<Rightarrow> bool" where
  "shell_ok sm s \<longleftrightarrow> fs_ok s \<and> mounted_fs s = Some Ramfs_ops \<and> pcb_ok s \<and> kbd_inv s \<and> handlers_set s \<and> ticks_per_second s \<noteq> 0 \<and>
     shell_fit sm s \<and> (\<forall>t \<in> set shell_lits. str_at (mem s) (lit sm t) (str t))"

text \<open>What the commands leave as it was: the files, and which descriptors are in use.\<close>

definition sh_same :: "'a fs_state_scheme \<Rightarrow> 'a fs_state_scheme \<Rightarrow> bool" where
  "sh_same s s' \<longleftrightarrow> file_tab s' = file_tab s \<and> current s' = current s \<and>
     (\<forall>fd. unat fd < MAX_FDS \<longrightarrow> fd_in_use (mem s') (current s') fd = fd_in_use (mem s) (current s) fd)"

lemma sh_same_refl [simp]: "sh_same s s"
  by (simp add: sh_same_def)

lemma sh_same_trans: "sh_same a b \<Longrightarrow> sh_same b c \<Longrightarrow> sh_same a c"
  unfolding sh_same_def by metis

lemma shell_okD:
  assumes "shell_ok sm s"
  shows "fs_ok s" "mounted_fs s = Some Ramfs_ops" "pcb_ok s" "kbd_inv s" "handlers_set s" "ticks_per_second s \<noteq> 0" "shell_fit sm s"
    "t \<in> set shell_lits \<Longrightarrow> str_at (mem s) (lit sm t) (str t)"
  using assms by (simp_all add: shell_ok_def)

lemma shell_fit_cong: "files_addr s' = files_addr s \<Longrightarrow> current s' = current s \<Longrightarrow> shell_fit sm s' = shell_fit sm s"
  by (simp add: shell_fit_def user_range_def off_table_def)

lemma shell_bufD:
  assumes "shell_ok sm s" and "(p, n) \<in> set (sh_bufs sm)"
  shows "user_range s p n" "(p, n) \<in> set (tl (sh_bufs sm)) \<Longrightarrow> apart_ranges (sh_cmd sm) 256 p n"
    "t \<in> set shell_lits \<Longrightarrow> apart_ranges p n (lit sm t) (Suc (length t))"
  using shell_okD(7) [OF assms(1)] assms(2) by (auto simp: shell_fit_def)

lemma length_str [simp]: "length (str t) = length t"
  by (simp add: str_def)

text \<open>A store into one of the arrays.\<close>

lemma shell_write:
  fixes s :: "'a fs_state_scheme"
  assumes ok: "shell_ok sm s" and buf: "(p, n) \<in> set (sh_bufs sm)"
    and out: "\<And>x. unat x < unat p \<or> unat p + n \<le> unat x \<Longrightarrow> m' x = mem s x"
  shows "shell_ok sm (s\<lparr>mem := m'\<rparr>)" and "sh_same s (s\<lparr>mem := m'\<rparr>)"
proof -
  note b = shell_bufD [OF ok buf] and o = shell_okD [OF ok]
  have pcb: "unat (current s) + 416 \<le> 2 ^ 32" by (rule pcb_ok_fits [OF o(3)])
  have t: "file_tab (s\<lparr>mem := m'\<rparr>) = file_tab s"
    using b(1) o(1) out by (intro file_tab_frame) (auto simp: fs_ok_def user_range_def off_table_def apart_ranges_def)
  have "fd_in_use m' (current s) fd = fd_in_use (mem s) (current s) fd" if "unat fd < MAX_FDS" for fd
  proof (rule fd_fields_cong(1) [OF pcb that])
    fix x :: u32
    assume x: "unat (current s) + 32 + 12 * unat fd \<le> unat x" "unat x < unat (current s) + 44 + 12 * unat fd"
    have "unat fd < 32" using that by (simp add: MAX_FDS_def)
    then show "m' x = mem s x" using x b(1) by (intro out) (auto simp: user_range_def apart_ranges_def)
  qed
  then show "sh_same s (s\<lparr>mem := m'\<rparr>)" using t by (simp add: sh_same_def)
  have "str_at m' (lit sm l) (str l)" if "l \<in> set shell_lits" for l
  proof -
    have "load_bytes m' (lit sm l) (Suc (length l)) = load_bytes (mem s) (lit sm l) (Suc (length l))"
      using b(3) [OF that] out by (intro load_bytes_cong) (auto simp: apart_ranges_def)
    then show ?thesis using o(8) [OF that] by (simp add: str_at_load del: load_bytes.simps)
  qed
  moreover have "fs_ok (s\<lparr>mem := m'\<rparr>)" using o(1) t by (simp add: fs_ok_def)
  moreover have "pcb_ok (s\<lparr>mem := m'\<rparr>)" using o(3) by (simp add: pcb_ok_def off_table_def)
  moreover have "shell_fit sm (s\<lparr>mem := m'\<rparr>)" using o(7) shell_fit_cong [of "s\<lparr>mem := m'\<rparr>" s] by simp
  ultimately show "shell_ok sm (s\<lparr>mem := m'\<rparr>)" using o(2,4-6) by (simp add: shell_ok_def)
qed

lemma shell_io:
  fixes s :: "'a fs_state_scheme"
  assumes "io_step s s'" and "kbd_inv s \<Longrightarrow> kbd_inv s'" and "shell_ok sm s"
  shows "shell_ok sm s'" and "sh_same s s'"
proof -
  note f = io_step_fs [OF assms(1)] and g = io_step_fields [OF assms(1)] and o = shell_okD [OF assms(3)]
  show "sh_same s s'" using f(3) g(1,2) by (simp add: sh_same_def)
  show "shell_ok sm s'" using f g o assms(2) shell_fit_cong [OF f(1) g(2), of sm] by (simp add: shell_ok_def)
qed

declare putchar_kbd [simp]

lemma puts_kbd [simp]: "kbd_inv (puts cs s) = kbd_inv s" "input irqs (puts cs s) = input irqs s"
  by (induction cs arbitrary: s) (simp_all add: putchar_kbd)

lemma shell_puts:
  fixes s :: "'a fs_state_scheme"
  assumes "shell_ok sm s"
  shows "shell_ok sm (puts cs s)" "sh_same s (puts cs s)"
  using shell_io [OF io_step_puts _ assms, of cs] puts_kbd(1) by blast+

lemma shell_ok_puts [simp]:
  fixes s t :: "'a fs_state_scheme"
  shows "shell_ok sm (puts cs s) = shell_ok sm s" "sh_same t (puts cs s) = sh_same t s" "sh_same (puts cs s) t = sh_same s t"
    "file_tab (puts cs s) = file_tab s" "fd_open (puts cs s) fd i pos = fd_open s fd i pos"
proof -
  have io: "io_step s (puts cs s)" by (rule io_step_puts)
  note f = io_step_fs [OF io] and g = io_step_fields [OF io]
  show "shell_ok sm (puts cs s) = shell_ok sm s" using f g shell_fit_cong [OF f(1) g(2), of sm] by (simp add: shell_ok_def)
  show "sh_same t (puts cs s) = sh_same t s" "sh_same (puts cs s) t = sh_same s t"
    "file_tab (puts cs s) = file_tab s" "fd_open (puts cs s) fd i pos = fd_open s fd i pos"
    using f g by (simp_all add: sh_same_def)
qed

lemma print_lit_ok:
  assumes "shell_ok sm s" and "t \<in> set shell_lits"
  shows "print_lit sm t irqs s = Some (Returned ((), irqs) (puts (str t) s))"
proof -
  have "user_range s (lit sm t) (Suc (length t))" using shell_okD(7) [OF assms(1)] assms(2) by (simp add: shell_fit_def)
  then have "length (str t) < 2 ^ 32" by (simp add: user_range_def off_table_def apart_ranges_def)
  then show ?thesis unfolding print_lit_def by (rule print_at [OF shell_okD(8) [OF assms]])
qed

section \<open>Reading a line\<close>

lemma input_interrupts [simp]: "input irqs (s\<lparr>interrupts_on := b\<rparr>) = input irqs s" "kbd_inv (s\<lparr>interrupts_on := b\<rparr>) = kbd_inv s"
  "handlers_set (s\<lparr>interrupts_on := b\<rparr>) = handlers_set s" "screen_of (s\<lparr>interrupts_on := b\<rparr>) = screen_of s"
  by (simp_all add: input_def kbd_queue_def kbd_count_def kbd_inv_def handlers_set_def screen_of_def)

lemma screen_mem [simp]: "screen_of (s\<lparr>mem := m\<rparr>) = screen_of s"
  by (simp add: screen_of_def)

lemma io_step_interrupts: "io_step s (s\<lparr>interrupts_on := b\<rparr>)"
  by (simp add: io_step_def)

lemma shell_buf_in: "(sh_cmd sm, 256) \<in> set (sh_bufs sm)" "(sh_c sm, 1) \<in> set (sh_bufs sm)" "(sh_num sm, 16) \<in> set (sh_bufs sm)"
  "(sh_dir sm, 2176) \<in> set (sh_bufs sm)" "(sh_cat sm, 512) \<in> set (sh_bufs sm)" "(sh_line sm, 81) \<in> set (sh_bufs sm)"
  "(sh_info sm, 12) \<in> set (sh_bufs sm)" "(sh_ps sm, 256) \<in> set (sh_bufs sm)"
  by (simp_all add: sh_bufs_def)

lemma read_char:
  fixes s :: "'a fs_state_scheme"
  assumes ok: "shell_ok sm s" and i: "input irqs s = c # inp"
  obtains irqs' s' where "u_read sm 0 (sh_c sm) 1 irqs s = Some (Returned (1, irqs') s')" "shell_ok sm s'" "sh_same s s'"
    "mem s' = (mem s)(sh_c sm := c)" "input irqs' s' = inp" "screen_of s' = screen_of s"
proof -
  let ?s = "s\<lparr>interrupts_on := False\<rparr>"
  have h: "kbd_inv ?s" "handlers_set ?s" "input irqs ?s = c # inp" using shell_okD [OF ok] i by simp_all
  obtain irqs1 s1 where g: "keyboard_getchar irqs ?s = Some (c, irqs1, s1)" "kbd_inv s1" "input irqs1 s1 = inp"
    using getchar_conserves [OF h(1,2), of irqs] h(3) by (auto simp: input_def split: option.splits)
  let ?s2 = "s1\<lparr>mem := (mem s1)(sh_c sm := c), interrupts_on := interrupts_on s\<rparr>"
  have run: "u_read sm 0 (sh_c sm) 1 irqs s = Some (Returned (1, irqs1) ?s2)"
    using g(1) by (simp add: u_read_def int80_def isr_handler_def syscall_handler_def sys_numbers sys_read_def)
  have io: "io_step s s1" using io_step_trans [OF io_step_interrupts io_step_getchar [OF h(2,1) g(1)]] .
  have ok1: "shell_ok sm s1" "sh_same s s1" using shell_io [OF io _ ok] g(2) by blast+
  have m1: "mem s1 = mem s" by (rule io_step_fields [OF io])
  have w: "shell_ok sm (s1\<lparr>mem := (mem s1)(sh_c sm := c)\<rparr>)" "sh_same s1 (s1\<lparr>mem := (mem s1)(sh_c sm := c)\<rparr>)"
    by (rule shell_write [OF ok1(1) shell_buf_in(2)]; auto)+
  have ok2: "shell_ok sm ?s2" "sh_same (s1\<lparr>mem := (mem s1)(sh_c sm := c)\<rparr>) ?s2"
    by (rule shell_io [OF io_step_interrupts _ w(1)]; simp)+
  show ?thesis
    using that [OF run ok2(1)] sh_same_trans [OF ok1(2) sh_same_trans [OF w(2) ok2(2)]] m1 g(3) screen_getchar [OF h(2,1) g(1)]
    by simp
qed

text \<open>The line editor as a function of what is typed: the line, the input left, and the echo.\<close>

fun edit :: "nat \<Rightarrow> u8 list \<Rightarrow> u8 list \<Rightarrow> (u8 list \<times> u8 list \<times> u8 list) option" where
  "edit n line [] = (if n \<le> length line then Some (line, [], []) else None)"
| "edit n line (c # inp) =
     (if n \<le> length line then Some (line, c # inp, [])
      else if c = 0x0A \<or> c = 0x0D then Some (line, inp, [0x0A])
      else if c = 0x08 \<or> c = 127 then
        (if line = [] then edit n line inp
         else map_option (\<lambda>(l, r, e). (l, r, [0x08, 0x20, 0x08] @ e)) (edit n (butlast line) inp))
      else map_option (\<lambda>(l, r, e). (l, r, c # e)) (edit n (line @ [c]) inp))"

text \<open>A stop of the editor: the terminator after the line.\<close>

lemma cmd_store:
  fixes s :: "'a fs_state_scheme" and c :: u8
  assumes ok: "shell_ok sm s" and l: "load_bytes (mem s) (sh_cmd sm) (length line) = line" and len: "length line \<le> 255"
  defines "s' \<equiv> s\<lparr>mem := (mem s)(sh_cmd sm + of_nat (length line) := c)\<rparr>"
  shows "shell_ok sm s'" "sh_same s s'" "load_bytes (mem s') (sh_cmd sm) (length (line @ [c])) = line @ [c]"
    "mem s' (sh_c sm) = mem s (sh_c sm)"
proof -
  note b = shell_bufD(1) [OF ok shell_buf_in(1)]
  have fit: "unat (sh_cmd sm) + 256 \<le> 2 ^ 32" using b by (simp add: user_range_def off_table_def apart_ranges_def)
  have a: "unat (sh_cmd sm + of_nat (length line)) = unat (sh_cmd sm) + length line"
    using len by (intro of_nat_add_apart [OF fit]) simp
  show "shell_ok sm s'" "sh_same s s'" unfolding s'_def by (rule shell_write [OF ok shell_buf_in(1)]; use a len in auto)+
  have "load_bytes (mem s') (sh_cmd sm) (length line) = load_bytes (mem s) (sh_cmd sm) (length line)"
    using a fit len by (intro load_bytes_cong) (auto simp: s'_def)
  then show "load_bytes (mem s') (sh_cmd sm) (length (line @ [c])) = line @ [c]"
    using l load_bytes_add [of "mem s'" "sh_cmd sm" "length line" 1] by (simp add: s'_def)
  show "mem s' (sh_c sm) = mem s (sh_c sm)"
    using shell_bufD(2) [OF ok shell_buf_in(2)] a len by (auto simp: s'_def apart_ranges_def sh_bufs_def)
qed

lemma pos_less: "length line \<le> 255 \<Longrightarrow> sint (of_nat (length line) :: u32) < sint (256 - 1 :: u32) \<longleftrightarrow> length line < 255"
  using sint_less_unat [of "255 :: u32" "length line"] by simp

lemma readline_done:
  fixes s :: "'a fs_state_scheme"
  assumes "shell_ok sm s" and "load_bytes (mem s) (sh_cmd sm) (length line) = line" and "length line = 255"
  obtains s' where "readline_loop sm (sh_cmd sm) 256 (of_nat (length line)) irqs s = Some (Returned (of_nat (length line), irqs) s')"
    "shell_ok sm s'" "sh_same s s'" "load_bytes (mem s') (sh_cmd sm) (length (line @ [0])) = line @ [0]"
    "input irqs s' = input irqs s" "screen_of s' = screen_of s"
proof -
  have "length line \<le> 255" using assms(3) by simp
  note st = cmd_store [OF assms(1,2) this, of 0]
  have "\<not> sint (of_nat (length line) :: u32) < sint (256 - 1 :: u32)" using pos_less [of line] assms(3) by simp
  then have "readline_loop sm (sh_cmd sm) 256 (of_nat (length line)) irqs s =
      Some (Returned (of_nat (length line), irqs) (s\<lparr>mem := (mem s)(sh_cmd sm + of_nat (length line) := 0)\<rparr>))"
    by (subst readline_loop.simps) (simp add: run_andthen)
  then show ?thesis using that st(1-3) by simp
qed

text \<open>One character: what the loop does after reading it.\<close>

lemma readline_char:
  fixes s :: "'a fs_state_scheme"
  assumes ok: "shell_ok sm s" and l: "load_bytes (mem s) (sh_cmd sm) (length line) = line" and len: "length line < 255"
    and i: "input irqs s = c # inp"
  obtains irqs1 s1 where "shell_ok sm s1" "sh_same s s1" "load_bytes (mem s1) (sh_cmd sm) (length line) = line"
    "input irqs1 s1 = inp" "screen_of s1 = screen_of s"
    "readline_loop sm (sh_cmd sm) 256 (of_nat (length line)) irqs s =
       (if c = 0x0A \<or> c = 0x0D then
          Some (Returned (of_nat (length line), irqs1) (puts [0x0A] (s1\<lparr>mem := (mem s1)(sh_cmd sm + of_nat (length line) := 0)\<rparr>)))
        else if c = 0x08 \<or> c = 127 then
          (if line = [] then readline_loop sm (sh_cmd sm) 256 (of_nat (length line)) irqs1 s1
           else readline_loop sm (sh_cmd sm) 256 (of_nat (length line - 1)) irqs1 (puts [0x08, 0x20, 0x08] s1))
        else readline_loop sm (sh_cmd sm) 256 (of_nat (length line + 1)) irqs1
          (puts [c] (s1\<lparr>mem := (mem s1)(sh_cmd sm + of_nat (length line) := c)\<rparr>)))"
proof -
  obtain irqs1 s1 where s1: "u_read sm 0 (sh_c sm) 1 irqs s = Some (Returned (1, irqs1) s1)" "shell_ok sm s1" "sh_same s s1"
    "mem s1 = (mem s)(sh_c sm := c)" "input irqs1 s1 = inp" "screen_of s1 = screen_of s" by (rule read_char [OF ok i])
  have "apart_ranges (sh_cmd sm) 256 (sh_c sm) 1" using shell_bufD(2) [OF ok shell_buf_in(2)] by (simp add: sh_bufs_def)
  then have "load_bytes (mem s1) (sh_cmd sm) (length line) = load_bytes (mem s) (sh_cmd sm) (length line)"
    using len s1(4) by (intro load_bytes_cong) (auto simp: apart_ranges_def)
  then have l1: "load_bytes (mem s1) (sh_cmd sm) (length line) = line" using l by simp
  have len': "length line \<le> 255" using len by simp
  note st = cmd_store [OF s1(2) l1 len']
  have nl: "print_lit sm ''\<newline>'' irqs t = Some (Returned ((), irqs) (puts [0x0A] t))" if "shell_ok sm t" for irqs and t :: "'a fs_state_scheme"
    using print_lit_ok [OF that, of "''\<newline>''" irqs] by (simp add: shell_lits_def shell_banner_def str_def)
  have bs: "u_write sm 1 (lit sm [CHR 0x08, CHR 0x20, CHR 0x08]) 3 irqs1 s1 = Some (Returned (3, irqs1) (puts [0x08, 0x20, 0x08] s1))"
  proof -
    have "str_at (mem s1) (lit sm [CHR 0x08, CHR 0x20, CHR 0x08]) (str [CHR 0x08, CHR 0x20, CHR 0x08])"
      by (rule shell_okD(8) [OF s1(2)]) (simp add: shell_lits_def)
    moreover have "str [CHR 0x08, CHR 0x20, CHR 0x08] = [0x08, 0x20, 0x08]" by (simp add: str_def)
    moreover have "length [0x08 :: u8, 0x20, 0x08] = unat (3 :: u32)" by simp
    ultimately show ?thesis unfolding str_at_def u_write_screen by (simp only:)
  qed
  have pos: "0 < sint (of_nat (length line) :: u32) \<longleftrightarrow> line \<noteq> []" using sint_count [of "length line"] len by simp
  have m1: "line \<noteq> [] \<Longrightarrow> of_nat (length line) - 1 = (of_nat (length line - 1) :: u32)" by (cases line) simp_all
  have c1: "mem s1 (sh_c sm) = c" using s1(4) by simp
  have "readline_loop sm (sh_cmd sm) 256 (of_nat (length line)) irqs s = (if c = 0x0A \<or> c = 0x0D then
          Some (Returned (of_nat (length line), irqs1) (puts [0x0A] (s1\<lparr>mem := (mem s1)(sh_cmd sm + of_nat (length line) := 0)\<rparr>)))
        else if c = 0x08 \<or> c = 127 then
          (if line = [] then readline_loop sm (sh_cmd sm) 256 (of_nat (length line)) irqs1 s1
           else readline_loop sm (sh_cmd sm) 256 (of_nat (length line - 1)) irqs1 (puts [0x08, 0x20, 0x08] s1))
        else readline_loop sm (sh_cmd sm) 256 (of_nat (length line + 1)) irqs1
          (puts [c] (s1\<lparr>mem := (mem s1)(sh_cmd sm + of_nat (length line) := c)\<rparr>)))"
    using pos_less [OF len'] len pos m1 c1 st(4) [of c] nl [OF st(1), of irqs1]
    by (subst readline_loop.simps)
      (simp add: andthen_def seq_def s1(1) bs u_write_screen [of sm "sh_c sm"] add.commute)
  then show ?thesis using that [OF s1(2,3) l1 s1(5,6)] by blast
qed

text \<open>What a finished line is: the array holds it with its end, and the rest of the input is still there.\<close>

definition line_read ::
  "shell_mem \<Rightarrow> 'a fs_state_scheme \<Rightarrow> u8 list \<Rightarrow> u8 list \<Rightarrow> u8 list \<Rightarrow> (u32 \<times> hw_irq list, 'a fs_state_scheme) outcome option \<Rightarrow> bool" where
  "line_read sm s l rest e out \<longleftrightarrow> (\<exists>irqs' s'. out = Some (Returned (of_nat (length l), irqs') s') \<and> shell_ok sm s' \<and> sh_same s s' \<and>
     load_bytes (mem s') (sh_cmd sm) (Suc (length l)) = l @ [0] \<and> input irqs' s' = rest \<and> screen_of s' = screen_of (puts e s))"

lemma line_read_step:
  assumes "line_read sm t l rest e out" and "sh_same s t" and "screen_of t = screen_of (puts pre s)"
  shows "line_read sm s l rest (pre @ e) out"
proof -
  have "screen_of (puts e t) = screen_of (puts (pre @ e) s)" using screen_puts [OF assms(3), of e] by simp
  then show ?thesis using assms(1) sh_same_trans [OF assms(2)] unfolding line_read_def by auto
qed

lemma readline_next:
  fixes s :: "'a fs_state_scheme"
  assumes ok: "shell_ok sm s" and l: "load_bytes (mem s) (sh_cmd sm) (length line) = line" and len: "length line < 255"
    and i: "input irqs s = c # inp"
  defines "run \<equiv> \<lambda>line. readline_loop sm (sh_cmd sm) 256 (of_nat (length line))"
  obtains (newline) "c = 0x0A \<or> c = 0x0D" "line_read sm s line inp [0x0A] (run line irqs s)"
  | (more) line' pre irqs' t where "edit 255 line (c # inp) = map_option (\<lambda>(l, r, e). (l, r, pre @ e)) (edit 255 line' inp)"
    "shell_ok sm t" "load_bytes (mem t) (sh_cmd sm) (length line') = line'" "length line' \<le> 255" "input irqs' t = inp"
    "sh_same s t" "screen_of t = screen_of (puts pre s)" "run line irqs s = run line' irqs' t"
proof -
  obtain irqs1 s1 where s1: "shell_ok sm s1" "sh_same s s1" "load_bytes (mem s1) (sh_cmd sm) (length line) = line"
    "input irqs1 s1 = inp" "screen_of s1 = screen_of s"
    and run: "run line irqs s = (if c = 0x0A \<or> c = 0x0D then
          Some (Returned (of_nat (length line), irqs1) (puts [0x0A] (s1\<lparr>mem := (mem s1)(sh_cmd sm + of_nat (length line) := 0)\<rparr>)))
        else if c = 0x08 \<or> c = 127 then
          (if line = [] then run line irqs1 s1 else run (butlast line) irqs1 (puts [0x08, 0x20, 0x08] s1))
        else run (line @ [c]) irqs1 (puts [c] (s1\<lparr>mem := (mem s1)(sh_cmd sm + of_nat (length line) := c)\<rparr>)))"
    unfolding run_def length_butlast length_append_singleton Suc_eq_plus1 by (rule readline_char [OF ok l len i])
  have len': "length line \<le> 255" using len by simp
  note st = cmd_store [OF s1(1,3) len']
  have scr: "screen_of (puts cs (s1\<lparr>mem := m\<rparr>)) = screen_of (puts cs s)" "screen_of (puts cs s1) = screen_of (puts cs s)" for cs m
    using s1(5) by (intro screen_puts; simp)+
  note sames = sh_same_trans [OF s1(2)]
  consider "c = 0x0A \<or> c = 0x0D" | "c = 0x08 \<or> c = 127" "line = []" | "c = 0x08 \<or> c = 127" "line \<noteq> []"
    | "c \<noteq> 0x0A" "c \<noteq> 0x0D" "c \<noteq> 0x08" "c \<noteq> 127" by blast
  then show ?thesis
  proof cases
    case 1
    let ?t = "s1\<lparr>mem := (mem s1)(sh_cmd sm + of_nat (length line) := 0)\<rparr>"
    have r: "run line irqs s = Some (Returned (of_nat (length line), irqs1) (puts [0x0A] ?t))" using run unfolding if_P [OF 1] .
    have lb: "load_bytes (mem (puts [0x0A] ?t)) (sh_cmd sm) (Suc (length line)) = line @ [0]"
      using st(3) [of 0] by (simp del: load_bytes.simps fold_simps)
    have inp: "input irqs1 (puts [0x0A] ?t) = inp" using s1(4) by (simp add: puts_kbd(2) del: fold_simps)
    have "line_read sm s line inp [0x0A] (run line irqs s)"
      unfolding line_read_def r using shell_puts [OF st(1) [of 0], of "[0x0A]"] sames [OF sh_same_trans [OF st(2)]] lb inp scr(1) by blast
    then show ?thesis using newline 1 by blast
  next
    case 2
    then have "run line irqs s = run line irqs1 s1" "edit 255 line (c # inp) = map_option (\<lambda>(l, r, e). (l, r, [] @ e)) (edit 255 line inp)"
      using run by (auto simp: option.map_id split: option.split)
    then show ?thesis using more [of "[]" line s1 irqs1] s1 len' by simp
  next
    case 3
    let ?t = "puts [0x08, 0x20, 0x08] s1"
    have "load_bytes (mem s1) (sh_cmd sm) (length line - 1) = take (length line - 1) (load_bytes (mem s1) (sh_cmd sm) (length line))"
      using load_bytes_add [of "mem s1" "sh_cmd sm" "length line - 1" 1] 3(2) by simp
    then have l1: "load_bytes (mem ?t) (sh_cmd sm) (length (butlast line)) = butlast line" using s1(3) by (simp add: butlast_conv_take)
    have r: "run line irqs s = run (butlast line) irqs1 ?t"
      and ed: "edit 255 line (c # inp) = map_option (\<lambda>(l, r, e). (l, r, [0x08, 0x20, 0x08] @ e)) (edit 255 (butlast line) inp)"
      using run 3 len by auto
    have b: "length (butlast line) \<le> 255" and i1: "input irqs1 ?t = inp" using s1(4) len' by simp_all
    show ?thesis by (rule more [OF ed shell_puts(1) [OF s1(1)] l1 b i1 sames [OF shell_puts(2) [OF s1(1)]] scr(2) r])
  next
    case 4
    let ?u = "s1\<lparr>mem := (mem s1)(sh_cmd sm + of_nat (length line) := c)\<rparr>"
    have r: "run line irqs s = run (line @ [c]) irqs1 (puts [c] ?u)"
      and ed: "edit 255 line (c # inp) = map_option (\<lambda>(l, r, e). (l, r, [c] @ e)) (edit 255 (line @ [c]) inp)"
      using run 4 len by auto
    have b: "length (line @ [c]) \<le> 255" and i1: "input irqs1 (puts [c] ?u) = inp"
      and l1: "load_bytes (mem (puts [c] ?u)) (sh_cmd sm) (length (line @ [c])) = line @ [c]" using s1(4) len st(3) by simp_all
    show ?thesis by (rule more [OF ed shell_puts(1) [OF st(1)] l1 b i1 sames [OF sh_same_trans [OF st(2) shell_puts(2) [OF st(1)]]] scr(1) r])
  qed
qed

lemma readline_loop_edit:
  fixes s :: "'a fs_state_scheme"
  assumes "shell_ok sm s" and "load_bytes (mem s) (sh_cmd sm) (length line) = line" and "length line \<le> 255"
    and "edit 255 line (input irqs s) = Some (l, rest, e)"
  shows "line_read sm s l rest e (readline_loop sm (sh_cmd sm) 256 (of_nat (length line)) irqs s)"
  using assms
proof (induction "input irqs s" arbitrary: line irqs s l rest e)
  case Nil
  then have full: "length line = 255" "l = line" "rest = []" "e = []" by (auto split: if_splits)
  show ?case by (rule readline_done [OF Nil.prems(1,2) full(1), of irqs]) (use full Nil.hyps in \<open>simp add: line_read_def\<close>)
next
  case (Cons c inp)
  have ed: "edit 255 line (c # inp) = Some (l, rest, e)" using Cons.prems(4) unfolding Cons.hyps(2) .
  show ?case
  proof (cases "length line = 255")
    case True
    then have full: "l = line" "rest = c # inp" "e = []" using ed by simp_all
    show ?thesis by (rule readline_done [OF Cons.prems(1,2) True, of irqs]) (use full Cons.hyps(2) in \<open>simp add: line_read_def\<close>)
  next
    case False
    then have len: "length line < 255" using Cons.prems(3) by simp
    show ?thesis
    proof (rule readline_next [OF Cons.prems(1,2) len Cons.hyps(2) [symmetric]])
      assume "c = 0x0A \<or> c = 0x0D" "line_read sm s line inp [0x0A] (readline_loop sm (sh_cmd sm) 256 (of_nat (length line)) irqs s)"
      then show ?thesis using ed len by auto
    next
      fix line' pre irqs' and t :: "'a fs_state_scheme"
      assume ed': "edit 255 line (c # inp) = map_option (\<lambda>(l, r, e). (l, r, pre @ e)) (edit 255 line' inp)"
        and t: "shell_ok sm t" "load_bytes (mem t) (sh_cmd sm) (length line') = line'" "length line' \<le> 255" "input irqs' t = inp"
        "sh_same s t" "screen_of t = screen_of (puts pre s)" and run: "readline_loop sm (sh_cmd sm) 256 (of_nat (length line)) irqs s =
          readline_loop sm (sh_cmd sm) 256 (of_nat (length line')) irqs' t"
      have "map_option (\<lambda>(l, r, e). (l, r, pre @ e)) (edit 255 line' inp) = Some (l, rest, e)" using ed unfolding ed' .
      then obtain e' where e': "edit 255 line' (input irqs' t) = Some (l, rest, e')" "e = pre @ e'"
        unfolding t(4) map_option_eq_Some by auto
      show ?thesis unfolding run e'(2)
        by (rule line_read_step [OF Cons.hyps(1) [OF t(4) [symmetric] t(1-3) e'(1)] t(5,6)])
    qed
  qed
qed

section \<open>Files on the screen\<close>

text \<open>Descriptors as the wrappers see them: the trap changes the interrupt flag only while it runs.\<close>

lemma fs_interrupts [simp]:
  fixes s :: "'a fs_state_scheme"
  shows "fs_ok (s\<lparr>interrupts_on := b\<rparr>) = fs_ok s" "file_tab (s\<lparr>interrupts_on := b\<rparr>) = file_tab s" "pcb_ok (s\<lparr>interrupts_on := b\<rparr>) = pcb_ok s"
    "fd_open (s\<lparr>interrupts_on := b\<rparr>) fd i pos = fd_open s fd i pos" "user_range (s\<lparr>interrupts_on := b\<rparr>) p n = user_range s p n"
  by (rule io_step_fs [OF io_step_interrupts])+

lemma int80_mem:
  assumes "syscall_handler irqs (regs\<lparr>r_int_no := 0x80, r_err_code := 0\<rparr>) (s\<lparr>interrupts_on := False\<rparr>) =
      Some (Returned (regs', irqs') (s\<lparr>interrupts_on := False, mem := m\<rparr>))"
  shows "int80 regs irqs s = Some (Returned (r_eax regs', irqs') (s\<lparr>mem := m\<rparr>))"
  using assms by (simp add: int80_def isr_handler_def)

lemma shell_mem_step:
  fixes s :: "'a fs_state_scheme"
  assumes ok: "shell_ok sm s" and fs: "fs_ok (s\<lparr>mem := m\<rparr>)"
    and keep: "\<And>p n. user_range s p n \<Longrightarrow> apart_ranges b k p n \<Longrightarrow> load_bytes m p n = load_bytes (mem s) p n"
    and buf: "(b, n) \<in> set (sh_bufs sm)" "k \<le> n"
  shows "shell_ok sm (s\<lparr>mem := m\<rparr>)"
proof -
  have "str_at m (lit sm t) (str t)" if "t \<in> set shell_lits" for t
  proof -
    have "user_range s (lit sm t) (Suc (length t))" using shell_okD(7) [OF ok] that by (simp add: shell_fit_def)
    moreover have "apart_ranges b k (lit sm t) (Suc (length t))"
      using shell_bufD(3) [OF ok buf(1) that] buf(2) by (auto simp: apart_ranges_def)
    ultimately show ?thesis using keep shell_okD(8) [OF ok that] by (simp add: str_at_load del: load_bytes.simps)
  qed
  moreover have "shell_fit sm (s\<lparr>mem := m\<rparr>)" using shell_okD(7) [OF ok] shell_fit_cong [of "s\<lparr>mem := m\<rparr>" s] by simp
  ultimately show ?thesis using shell_okD [OF ok] fs by (simp add: shell_ok_def pcb_ok_def off_table_def)
qed

lemma u_read_file:
  fixes s :: "'a fs_state_scheme" and fd :: u32
  assumes ok: "shell_ok sm s" and fd: "fd_open s fd i pos" "3 \<le> unat fd"
  defines "bs \<equiv> take 512 (drop pos (file_content (file_tab s ! i)))"
  obtains m where "u_read sm fd (sh_cat sm) 512 irqs s = Some (Returned (of_nat (length bs), irqs) (s\<lparr>mem := m\<rparr>))"
    "shell_ok sm (s\<lparr>mem := m\<rparr>)" "sh_same s (s\<lparr>mem := m\<rparr>)" "fd_open (s\<lparr>mem := m\<rparr>) fd i (pos + length bs)"
    "load_bytes m (sh_cat sm) (length bs) = bs"
proof -
  note o = shell_okD [OF ok]
  let ?s = "s\<lparr>interrupts_on := False\<rparr>"
  have n: "length bs \<le> 512" "unat (512 :: u32) = 512" by (simp_all add: bs_def)
  have ur: "user_range ?s (sh_cat sm) (length bs)" using user_range_mono [OF shell_bufD(1) [OF ok shell_buf_in(5)] n(1)] by simp
  have f0: "fd \<noteq> 0" using fd(2) by auto
  have pre: "fs_ok ?s" "mounted_fs ?s = Some Ramfs_ops" "pcb_ok ?s" "fd_open ?s fd i pos" using o fd by simp_all
  have b: "take (unat (512 :: u32)) (drop pos (file_content (file_tab ?s ! i))) = bs" by (simp add: bs_def)
  obtain s' where s': "sys_read fd (sh_cat sm) 512 irqs ?s = Some (of_nat (length bs), irqs, s')" "fs_ok s'"
    "fd_open s' fd i (pos + length bs)" "file_tab s' = file_tab ?s" "load_bytes (mem s') (sh_cat sm) (length bs) = bs"
    "s' = ?s\<lparr>mem := mem s'\<rparr>"
    and keep: "\<And>p n. user_range ?s p n \<Longrightarrow> apart_ranges (sh_cat sm) (length bs) p n \<Longrightarrow> load_bytes (mem s') p n = load_bytes (mem ?s) p n"
    and use: "\<And>g. unat g < MAX_FDS \<Longrightarrow> fd_in_use (mem s') (current ?s) g = fd_in_use (mem ?s) (current ?s) g"
    using sys_read_file [OF pre f0, where buf = "sh_cat sm" and len = 512 and irqs = irqs, unfolded b, OF ur] by blast
  obtain m where m: "s' = (s\<lparr>mem := m\<rparr>)\<lparr>interrupts_on := False\<rparr>" "mem s' = m"
    by (rule that [of "mem s'"]) (subst s'(6), simp, rule refl)
  have run: "u_read sm fd (sh_cat sm) 512 irqs s = Some (Returned (of_nat (length bs), irqs) (s\<lparr>mem := m\<rparr>))"
    unfolding u_read_def using s'(1) m(1) by (subst int80_mem [where m = m]) (auto simp: syscall_handler_def sys_numbers)
  have fs: "fs_ok (s\<lparr>mem := m\<rparr>)" "file_tab (s\<lparr>mem := m\<rparr>) = file_tab s" "fd_open (s\<lparr>mem := m\<rparr>) fd i (pos + length bs)"
    using s'(2-4) unfolding m(1) fs_interrupts by simp_all
  have "shell_ok sm (s\<lparr>mem := m\<rparr>)" by (rule shell_mem_step [OF ok fs(1) _ shell_buf_in(5) n(1)]) (use keep m(2) in simp)
  moreover have "sh_same s (s\<lparr>mem := m\<rparr>)" using fs(2) use m(2) by (simp add: sh_same_def)
  ultimately show ?thesis using that [OF run] fs(3) s'(5) m(2) by blast
qed

lemma take_drop_split: "take k (drop p xs) @ drop (p + length (take k (drop p xs))) xs = drop p xs"
  using append_take_drop_id [of k "drop p xs"] by (cases "length xs - p \<le> k") (simp_all add: add.commute)

lemma cat_loop_prints:
  fixes s :: "'a fs_state_scheme" and fd :: u32
  assumes "shell_ok sm s" and "fd_open s fd i pos" and "3 \<le> unat fd"
  shows "\<exists>m. cat_loop sm fd irqs s = Some (Returned ((), irqs) (puts (drop pos (file_content (file_tab s ! i))) (s\<lparr>mem := m\<rparr>))) \<and>
    shell_ok sm (s\<lparr>mem := m\<rparr>) \<and> sh_same s (s\<lparr>mem := m\<rparr>) \<and> (\<exists>pos'. fd_open (s\<lparr>mem := m\<rparr>) fd i pos')"
  using assms(1,2)
proof (induction "length (file_content (file_tab s ! i)) - pos" arbitrary: s pos rule: less_induct)
  case less
  let ?C = "file_content (file_tab s ! i)"
  obtain bs where bs: "take 512 (drop pos ?C) = bs" by simp
  have split: "bs @ drop (pos + length bs) ?C = drop pos ?C" "length bs \<le> 512" "bs = [] \<Longrightarrow> drop pos ?C = []"
    using take_drop_split [of 512 pos ?C] by (auto simp: bs simp flip: bs)
  obtain m where m: "u_read sm fd (sh_cat sm) 512 irqs s = Some (Returned (of_nat (length bs), irqs) (s\<lparr>mem := m\<rparr>))"
    "shell_ok sm (s\<lparr>mem := m\<rparr>)" "sh_same s (s\<lparr>mem := m\<rparr>)" "fd_open (s\<lparr>mem := m\<rparr>) fd i (pos + length bs)"
    "load_bytes m (sh_cat sm) (length bs) = bs" by (rule u_read_file [OF less.prems assms(3), unfolded bs])
  have n: "unat (of_nat (length bs) :: u32) = length bs" "0 < sint (of_nat (length bs) :: u32) \<longleftrightarrow> bs \<noteq> []"
    using sint_count [of "length bs"] split(2) by (simp_all add: unat_of_nat32)
  show ?case
  proof (cases "bs = []")
    case True
    note d = split(3) [OF True]
    have "cat_loop sm fd irqs s = Some (Returned ((), irqs) (s\<lparr>mem := m\<rparr>))"
      using m(1) n(2) True by (subst cat_loop.simps) (simp add: andthen_def)
    then show ?thesis using d m(2-4) by (intro exI [of _ m]) (auto simp del: nth_file_tab)
  next
    case False
    let ?t = "puts bs (s\<lparr>mem := m\<rparr>)"
    have t: "shell_ok sm ?t" "fd_open ?t fd i (pos + length bs)" and tab: "file_tab ?t = file_tab s"
      using m(2-4) by (simp_all add: sh_same_def del: nth_file_tab)
    have run: "cat_loop sm fd irqs s = cat_loop sm fd irqs ?t"
      using m(1,5) n False by (subst cat_loop.simps) (simp add: andthen_def u_write_screen)
    have dec: "length (file_content (file_tab ?t ! i)) - (pos + length bs) < length ?C - pos"
      unfolding tab using False arg_cong [OF split(1), of length] by (cases bs) auto
    obtain m' where m': "cat_loop sm fd irqs ?t = Some (Returned ((), irqs) (puts (drop (pos + length bs) ?C) (?t\<lparr>mem := m'\<rparr>)))"
      "shell_ok sm (?t\<lparr>mem := m'\<rparr>)" "sh_same ?t (?t\<lparr>mem := m'\<rparr>)" "\<exists>pos'. fd_open (?t\<lparr>mem := m'\<rparr>) fd i pos'"
      using less.hyps [OF dec t] unfolding tab by blast
    have "puts (drop (pos + length bs) ?C) (?t\<lparr>mem := m'\<rparr>) = puts (drop pos ?C) (s\<lparr>mem := m'\<rparr>)"
      unfolding split(1) [symmetric] by simp
    moreover have "?t\<lparr>mem := m'\<rparr> = puts bs (s\<lparr>mem := m'\<rparr>)" by simp
    ultimately show ?thesis using m' m(3) run sh_same_trans [OF m(3), of "s\<lparr>mem := m'\<rparr>"]
      by (intro exI [of _ m']) (simp only: shell_ok_puts simp_thms)
  qed
qed

lemma call_step_same:
  fixes s :: "'a fs_state_scheme"
  assumes ok: "shell_ok sm s" and fs: "fs_ok s'" and step: "call_step (s\<lparr>interrupts_on := False\<rparr>) s'"
  obtains m where "s' = s\<lparr>interrupts_on := False, mem := m\<rparr>" "mem s' = m" "shell_ok sm (s\<lparr>mem := m\<rparr>)"
proof -
  obtain m where m: "s' = s\<lparr>interrupts_on := False, mem := m\<rparr>" "mem s' = m"
    by (rule that [of "mem s'"]) (rule call_step_eq [OF step], rule refl)
  have e: "s' = (s\<lparr>mem := m\<rparr>)\<lparr>interrupts_on := False\<rparr>" unfolding m(1) by simp
  have "load_bytes m p n = load_bytes (mem s) p n" if "user_range s p n" for p n
    using call_step_bytes [OF step, of p n] that m(2) by simp
  then have "shell_ok sm (s\<lparr>mem := m\<rparr>)"
    using fs unfolding e fs_interrupts by (intro shell_mem_step [OF ok _ _ shell_buf_in(1) order.refl])
  then show ?thesis using that m by blast
qed

lemma u_open_found:
  fixes s :: "'a fs_state_scheme"
  assumes ok: "shell_ok sm s" and nm: "str_at (mem s) p nm" "hd0 nm \<noteq> 0x2F" and found: "tab_find nm (file_tab s) = Some i"
    and free: "\<exists>fd \<in> {3..<MAX_FDS}. fd_in_use (mem s) (current s) (of_nat fd) = 0"
  obtains fd m where "u_open sm p irqs s = Some (Returned (fd, irqs) (s\<lparr>mem := m\<rparr>))" "3 \<le> unat fd" "unat fd < 32"
    "shell_ok sm (s\<lparr>mem := m\<rparr>)" "file_tab (s\<lparr>mem := m\<rparr>) = file_tab s" "fd_open (s\<lparr>mem := m\<rparr>) fd i 0"
    "\<forall>g. unat g < MAX_FDS \<longrightarrow> fd_in_use (mem s) (current s) g = (if g = fd then 0 else fd_in_use m (current s) g)"
proof -
  let ?s = "s\<lparr>interrupts_on := False\<rparr>"
  have pre: "fs_ok ?s" "mounted_fs ?s = Some Ramfs_ops" "pcb_ok ?s" "str_at (mem ?s) p nm" "tab_find nm (file_tab ?s) = Some i"
    "\<exists>fd \<in> {3..<MAX_FDS}. fd_in_use (mem ?s) (current ?s) (of_nat fd) = 0" using shell_okD [OF ok] nm found free by simp_all
  obtain fd s' where s': "sys_open p ?s = Some (fd, s')" "3 \<le> unat fd" "unat fd < 32" "fs_ok s'" "file_tab s' = file_tab ?s"
    "call_step ?s s'" "fd_open s' fd i 0" "fd_in_use (mem ?s) (current ?s) fd = 0"
    "\<forall>g. unat g < MAX_FDS \<longrightarrow> fd_in_use (mem s') (current ?s) g = (if g = fd then 1 else fd_in_use (mem ?s) (current ?s) g)"
    by (rule sys_open_free [OF pre(1-4) nm(2) pre(5,6)])
  obtain m where m: "s' = s\<lparr>interrupts_on := False, mem := m\<rparr>" "mem s' = m" "shell_ok sm (s\<lparr>mem := m\<rparr>)"
    by (rule call_step_same [OF ok s'(4,6)])
  have e: "s' = (s\<lparr>mem := m\<rparr>)\<lparr>interrupts_on := False\<rparr>" unfolding m(1) by simp
  have run: "u_open sm p irqs s = Some (Returned (fd, irqs) (s\<lparr>mem := m\<rparr>))"
    unfolding u_open_def using s'(1) m(1) by (subst int80_mem [where m = m]) (auto simp: syscall_handler_def sys_numbers)
  have "file_tab (s\<lparr>mem := m\<rparr>) = file_tab s" "fd_open (s\<lparr>mem := m\<rparr>) fd i 0" using s'(5,7) unfolding e fs_interrupts by simp_all
  then show ?thesis using that [OF run s'(2,3) m(3)] s'(8,9) m(2) by simp
qed

lemma u_open_missing:
  fixes s :: "'a fs_state_scheme"
  assumes ok: "shell_ok sm s" and nm: "str_at (mem s) p nm" "hd0 nm \<noteq> 0x2F" and found: "tab_find nm (file_tab s) = None"
  shows "u_open sm p irqs s = Some (Returned (-1, irqs) s)"
proof -
  let ?s = "s\<lparr>interrupts_on := False\<rparr>"
  have pre: "fs_ok ?s" "mounted_fs ?s = Some Ramfs_ops" "pcb_ok ?s" "str_at (mem ?s) p nm" "tab_find nm (file_tab ?s) = None"
    using shell_okD [OF ok] nm found by simp_all
  have "sys_open p ?s = Some (-1, ?s)" using sys_open_spec(1) [OF pre(1-4) nm(2)] pre(5) by blast
  then show ?thesis unfolding u_open_def by (simp add: int80_def isr_handler_def syscall_handler_def sys_numbers)
qed

lemma u_close_open:
  fixes s :: "'a fs_state_scheme" and fd :: u32
  assumes ok: "shell_ok sm s" and fd: "fd_open s fd i pos" "3 \<le> unat fd"
  obtains m where "u_close sm fd irqs s = Some (Returned (0, irqs) (s\<lparr>mem := m\<rparr>))" "shell_ok sm (s\<lparr>mem := m\<rparr>)"
    "file_tab (s\<lparr>mem := m\<rparr>) = file_tab s"
    "\<forall>g. unat g < MAX_FDS \<longrightarrow> fd_in_use m (current s) g = (if g = fd then 0 else fd_in_use (mem s) (current s) g)"
proof -
  let ?s = "s\<lparr>interrupts_on := False\<rparr>"
  have pre: "fs_ok ?s" "mounted_fs ?s = Some Ramfs_ops" "pcb_ok ?s" "fd_open ?s fd i pos" using shell_okD [OF ok] fd by simp_all
  obtain s' where s': "sys_close fd ?s = (0, s')" "fs_ok s'" "call_step ?s s'" "file_tab s' = file_tab ?s"
    "\<forall>g. unat g < MAX_FDS \<longrightarrow> fd_in_use (mem s') (current ?s) g = (if g = fd then 0 else fd_in_use (mem ?s) (current ?s) g)"
    by (rule sys_close_spec [OF pre fd(2)])
  obtain m where m: "s' = s\<lparr>interrupts_on := False, mem := m\<rparr>" "mem s' = m" "shell_ok sm (s\<lparr>mem := m\<rparr>)"
    by (rule call_step_same [OF ok s'(2,3)])
  have e: "s' = (s\<lparr>mem := m\<rparr>)\<lparr>interrupts_on := False\<rparr>" unfolding m(1) by simp
  have run: "u_close sm fd irqs s = Some (Returned (0, irqs) (s\<lparr>mem := m\<rparr>))"
    unfolding u_close_def using s'(1) m(1) by (subst int80_mem [where m = m]) (auto simp: syscall_handler_def sys_numbers)
  have "file_tab (s\<lparr>mem := m\<rparr>) = file_tab s" using s'(4) unfolding e fs_interrupts by simp
  then show ?thesis using that [OF run m(3)] s'(5) m(2) by simp
qed

end
