(* ===== verification/Shell_laws.thy ===== *)
theory Shell_laws
  imports Shell_io
begin

text \<open>
  What each command of the shell prints (\<open>shell_reply\<close>), and the transcript of a whole session:
  the claims on \<open>readline\<close>, on the command dispatch and on \<open>_start\<close>.
\<close>

section \<open>What a command prints\<close>

text \<open>
  The program returns, what it has put on the screen is \<open>out\<close>, it took no input, and beyond
  the screen it changed only memory, not the files or which descriptors are in use.
\<close>

definition prints :: "shell_mem \<Rightarrow> (unit, 'a) prog \<Rightarrow> u8 list \<Rightarrow> 'a fs_state_scheme \<Rightarrow> bool" where
  "prints sm p out s \<longleftrightarrow> (\<forall>irqs. \<exists>m. p irqs s = Some (Returned ((), irqs) (puts out (s\<lparr>mem := m\<rparr>))) \<and>
     shell_ok sm (s\<lparr>mem := m\<rparr>) \<and> sh_same s (s\<lparr>mem := m\<rparr>))"

lemma printsI:
  assumes "\<And>irqs. p irqs s = Some (Returned ((), irqs) (puts out s))" and "shell_ok sm s"
  shows "prints sm p out s"
  unfolding prints_def using assms by (intro allI exI [of _ "mem s"]) simp

lemma run_prints: "(\<And>irqs. p irqs s = q irqs s) \<Longrightarrow> prints sm p out s = prints sm q out s"
  by (simp add: prints_def)

lemma prints_skip: "shell_ok sm s \<Longrightarrow> prints sm skip [] s"
  by (rule printsI) simp_all

lemma prints_lit: "shell_ok sm s \<Longrightarrow> t \<in> set shell_lits \<Longrightarrow> prints sm (print_lit sm t) (str t) s"
  by (rule printsI) (rule print_lit_ok)

lemma prints_seq:
  assumes p: "prints sm p a s"
    and q: "\<And>m. shell_ok sm (s\<lparr>mem := m\<rparr>) \<Longrightarrow> sh_same s (s\<lparr>mem := m\<rparr>) \<Longrightarrow> prints sm q b (puts a (s\<lparr>mem := m\<rparr>))"
  shows "prints sm (seq p q) (a @ b) s"
  unfolding prints_def
proof
  fix irqs
  obtain m where m: "p irqs s = Some (Returned ((), irqs) (puts a (s\<lparr>mem := m\<rparr>)))" "shell_ok sm (s\<lparr>mem := m\<rparr>)"
    "sh_same s (s\<lparr>mem := m\<rparr>)" using p unfolding prints_def by blast
  obtain m' where m': "q irqs (puts a (s\<lparr>mem := m\<rparr>)) = Some (Returned ((), irqs) (puts b ((puts a (s\<lparr>mem := m\<rparr>))\<lparr>mem := m'\<rparr>)))"
    "shell_ok sm ((puts a (s\<lparr>mem := m\<rparr>))\<lparr>mem := m'\<rparr>)" "sh_same (puts a (s\<lparr>mem := m\<rparr>)) ((puts a (s\<lparr>mem := m\<rparr>))\<lparr>mem := m'\<rparr>)"
    using q [OF m(2,3)] unfolding prints_def by blast
  have "shell_ok sm (s\<lparr>mem := m'\<rparr>)" "sh_same (s\<lparr>mem := m\<rparr>) (s\<lparr>mem := m'\<rparr>)" using m'(2,3) by simp_all
  moreover have "seq p q irqs s = Some (Returned ((), irqs) (puts (a @ b) (s\<lparr>mem := m'\<rparr>)))"
    using m'(1) by (simp add: seq_def andthen_def m(1))
  ultimately show "\<exists>m. seq p q irqs s = Some (Returned ((), irqs) (puts (a @ b) (s\<lparr>mem := m\<rparr>))) \<and>
      shell_ok sm (s\<lparr>mem := m\<rparr>) \<and> sh_same s (s\<lparr>mem := m\<rparr>)" using sh_same_trans [OF m(3)] by blast
qed

lemma prints_seqs:
  assumes "list_all (\<lambda>t. t \<in> set shell_lits) ts" and "shell_ok sm s"
  shows "prints sm (seqs (map (print_lit sm) ts)) (concat (map str ts)) s"
  using assms by (induction ts arbitrary: s) (auto intro!: prints_seq prints_lit prints_skip)

lemma length_uint_digits10: "unat n < 10 ^ k \<Longrightarrow> length (uint_digits n 10) \<le> k"
proof (induction k arbitrary: n)
  case 0
  then have "n = 0" by (simp add: unat_eq_0)
  then show ?case by (simp add: uint_digits.simps)
next
  case (Suc k)
  have "unat (n div 10) < 10 ^ k" using Suc.prems by (simp add: unat_div)
  then have "length (uint_digits (n div 10) 10) \<le> k" by (rule Suc.IH)
  then show ?case by (subst uint_digits.simps) simp
qed

lemma uint_text10: "length (uint_text n 10) \<le> 10" "0 \<notin> set (uint_text n 10)"
proof -
  show "length (uint_text n 10) \<le> 10"
    using length_uint_digits10 [of n 10] unat_bound32 [of n] by (simp add: uint_text_def)
  have "unat n < 2 ^ 32" using unat_bound32 [of n] by simp
  then show "0 \<notin> set (uint_text n 10)"
    using utoa_digits_spec [of 10 n 32 "[]"] utoa_digits_text [of 10 n "[]"] by (auto simp: uint_text_def)
qed

lemma print_num_ok:
  fixes s :: "'a fs_state_scheme"
  assumes ok: "shell_ok sm s"
  obtains m where "\<forall>irqs. print_num sm n irqs s = Some (Returned ((), irqs) (puts (uint_text n 10) (s\<lparr>mem := m\<rparr>)))"
    "shell_ok sm (s\<lparr>mem := m\<rparr>)" "sh_same s (s\<lparr>mem := m\<rparr>)"
    "\<forall>x. unat x < unat (sh_num sm) \<or> unat (sh_num sm) + 16 \<le> unat x \<longrightarrow> m x = mem s x"
proof -
  let ?m = "store_bytes (mem s) (sh_num sm) (uint_text n 10 @ [0])"
  have fit: "unat (sh_num sm) + 16 \<le> 2 ^ 32" using shell_bufD(1) [OF ok shell_buf_in(3)] by (simp add: user_range_def off_table_def apart_ranges_def)
  have out: "?m x = mem s x" if "unat x < unat (sh_num sm) \<or> unat (sh_num sm) + 16 \<le> unat x" for x
    using that fit uint_text10(1) [of n] by (intro store_bytes_other) auto
  have at: "str_at ?m (sh_num sm) (uint_text n 10)" using uint_text10 [of n] fit by (intro str_at_stored) auto
  have "print sm (sh_num sm) irqs (s\<lparr>mem := ?m\<rparr>) = Some (Returned ((), irqs) (puts (uint_text n 10) (s\<lparr>mem := ?m\<rparr>)))" for irqs
    using at uint_text10(1) [of n] by (intro print_at) auto
  then have "print_num sm n irqs s = Some (Returned ((), irqs) (puts (uint_text n 10) (s\<lparr>mem := ?m\<rparr>)))" for irqs
    by (simp add: print_num_def seq_def andthen_def call_put_def utoa_text)
  then show ?thesis using that shell_write [OF ok shell_buf_in(3), of ?m] out by blast
qed

lemma not_end: "str_at m p nm \<Longrightarrow> nm \<noteq> [] \<Longrightarrow> m p \<noteq> 0"
  by (cases nm) auto

lemma cmd_cat_found:
  fixes s :: "'a fs_state_scheme"
  assumes ok: "shell_ok sm s" and p: "p \<noteq> 0" "str_at (mem s) p nm" "nm \<noteq> []" "hd0 nm \<noteq> 0x2F"
    and found: "tab_find nm (file_tab s) = Some i"
    and free: "\<exists>fd \<in> {3..<MAX_FDS}. fd_in_use (mem s) (current s) (of_nat fd) = 0"
  shows "prints sm (cmd_cat sm p) (file_content (file_tab s ! i)) s"
proof -
  obtain out where out: "file_content (file_tab s ! i) = out" by simp
  have "\<exists>m. cmd_cat sm p irqs s = Some (Returned ((), irqs) (puts out (s\<lparr>mem := m\<rparr>))) \<and>
      shell_ok sm (s\<lparr>mem := m\<rparr>) \<and> sh_same s (s\<lparr>mem := m\<rparr>)" for irqs
  proof -
    obtain fd m where o: "u_open sm p irqs s = Some (Returned (fd, irqs) (s\<lparr>mem := m\<rparr>))" "3 \<le> unat fd" "unat fd < 32"
      "shell_ok sm (s\<lparr>mem := m\<rparr>)" "file_tab (s\<lparr>mem := m\<rparr>) = file_tab s" "fd_open (s\<lparr>mem := m\<rparr>) fd i 0"
      "\<forall>g. unat g < MAX_FDS \<longrightarrow> fd_in_use (mem s) (current s) g = (if g = fd then 0 else fd_in_use m (current s) g)"
      by (rule u_open_found [OF ok p(2,4) found free])
    obtain m1 pos where c: "cat_loop sm fd irqs (s\<lparr>mem := m\<rparr>) =
        Some (Returned ((), irqs) (puts (drop 0 (file_content (file_tab (s\<lparr>mem := m\<rparr>) ! i))) (s\<lparr>mem := m1\<rparr>)))"
      "shell_ok sm (s\<lparr>mem := m1\<rparr>)" "sh_same (s\<lparr>mem := m\<rparr>) (s\<lparr>mem := m1\<rparr>)" "fd_open (s\<lparr>mem := m1\<rparr>) fd i pos"
      using cat_loop_prints [OF o(4,6,2), of irqs] by auto
    let ?t = "s\<lparr>mem := m1\<rparr>"
    have ok': "shell_ok sm (puts out ?t)" "fd_open (puts out ?t) fd i pos" using c(2,4) by (simp_all del: nth_file_tab)
    obtain m2 where d: "u_close sm fd irqs (puts out ?t) = Some (Returned (0, irqs) ((puts out ?t)\<lparr>mem := m2\<rparr>))"
      "shell_ok sm ((puts out ?t)\<lparr>mem := m2\<rparr>)" "file_tab ((puts out ?t)\<lparr>mem := m2\<rparr>) = file_tab (puts out ?t)"
      "\<forall>g. unat g < MAX_FDS \<longrightarrow> fd_in_use m2 (current (puts out ?t)) g =
         (if g = fd then 0 else fd_in_use (mem (puts out ?t)) (current (puts out ?t)) g)" by (rule u_close_open [OF ok' o(2)])
    have pos: "\<not> sint fd < 0" using sint_small [of fd] o(3) by simp
    have "cmd_cat sm p irqs s = Some (Returned ((), irqs) (puts out (s\<lparr>mem := m2\<rparr>)))"
      using p(1) not_end [OF p(2,3)] c(1) d(1) pos out
      by (simp add: cmd_cat_def andthen_def seq_def o(1) o(5) del: nth_file_tab)
    moreover have "file_tab (s\<lparr>mem := m2\<rparr>) = file_tab (s\<lparr>mem := m1\<rparr>)" "file_tab (s\<lparr>mem := m1\<rparr>) = file_tab (s\<lparr>mem := m\<rparr>)"
      using d(3) c(3) by (simp_all add: sh_same_def)
    then have "sh_same s (s\<lparr>mem := m2\<rparr>)" using o(5,7) c(3) d(4) unfolding sh_same_def puts_fields by simp
    ultimately show ?thesis using d(2) by auto
  qed
  then show ?thesis unfolding out prints_def by blast
qed

lemma prints_at:
  assumes "str_at (mem s) p cs" and "length cs < 2 ^ 32" and "shell_ok sm s"
  shows "prints sm (print sm p) cs s"
  using print_at [OF assms(1,2)] assms(3) by (intro printsI)

lemma cmd_cat_missing:
  fixes s :: "'a fs_state_scheme"
  assumes ok: "shell_ok sm s" and p: "p \<noteq> 0" "str_at (mem s) p nm" "length nm < 2 ^ 32" "nm \<noteq> []" "hd0 nm \<noteq> 0x2F"
    and found: "tab_find nm (file_tab s) = None"
  shows "prints sm (cmd_cat sm p) (str ''cat: file not found: '' @ nm @ [0x0A]) s"
proof (rule printsI [OF _ ok])
  fix irqs
  have "sint (-1 :: u32) < 0" by simp
  moreover have "str ''\<newline>'' = [0x0A]" by (simp add: str_def)
  moreover have "print_lit sm ''cat: file not found: '' irqs s = Some (Returned ((), irqs) (puts (str ''cat: file not found: '') s))"
    by (rule print_lit_ok [OF ok]) (simp add: shell_lits_def)
  moreover have "print sm p irqs (puts (str ''cat: file not found: '') s) =
      Some (Returned ((), irqs) (puts nm (puts (str ''cat: file not found: '') s)))" using p by (intro print_at) simp_all
  moreover have "print_lit sm ''\<newline>'' irqs (puts nm (puts (str ''cat: file not found: '') s)) =
      Some (Returned ((), irqs) (puts (str ''\<newline>'') (puts nm (puts (str ''cat: file not found: '') s))))"
    using ok by (intro print_lit_ok) (simp_all add: shell_lits_def shell_banner_def)
  ultimately show "cmd_cat sm p irqs s = Some (Returned ((), irqs) (puts (str ''cat: file not found: '' @ nm @ [0x0A]) s))"
    using p(1) not_end [OF p(2,4)] u_open_missing [OF ok p(2,5) found] by (simp add: cmd_cat_def andthen_def seq_def del: str_def)
qed

lemma cmd_cat_empty:
  assumes "shell_ok sm s" and "mem s p = 0"
  shows "prints sm (cmd_cat sm p) (str ''cat: usage: cat <filename>\<newline>'') s"
  using assms print_lit_ok [OF assms(1), of "''cat: usage: cat <filename>\<newline>''"]
  by (intro printsI) (simp_all add: cmd_cat_def andthen_def shell_lits_def)

lemma cmd_echo_ok:
  fixes s :: "'a fs_state_scheme"
  assumes ok: "shell_ok sm s" and p: "p \<noteq> 0 \<or> cs = []" "str_at (mem s) p cs" "length cs < 2 ^ 32"
  shows "prints sm (cmd_echo sm p) (cs @ [0x0A]) s"
proof -
  have nl: "str ''\<newline>'' = [0x0A]" by (simp add: str_def)
  have "prints sm (seq (if cs \<noteq> [] then print sm p else skip) (print_lit sm ''\<newline>'')) (cs @ str ''\<newline>'') s"
    using ok p by (intro prints_seq prints_lit) (auto simp: shell_lits_def shell_banner_def prints_at prints_skip)
  moreover have "cs \<noteq> [] \<longleftrightarrow> mem s p \<noteq> 0" using p(2) by (cases cs) auto
  ultimately show ?thesis using p(1) unfolding nl
    by (subst run_prints [of _ _ "seq (if cs \<noteq> [] then print sm p else skip) (print_lit sm ''\<newline>'')"]) (simp_all add: cmd_echo_def andthen_def)
qed

section \<open>ls\<close>

definition ls_line :: "ram_file \<Rightarrow> u8 list" where
  "ls_line f = str ''  '' @ rf_name f @ str ''  ('' @ uint_text (of_nat (rf_size f)) 10 @ str '' bytes)\<newline>''"

definition ls_text :: "ram_file list \<Rightarrow> u8 list" where
  "ls_text t = (let fs = take 32 (filter rf_used t) in if fs = [] then str ''  (no files)\<newline>'' else concat (map ls_line fs))"

lemma cstr_of_short: "length (cstr_of bs) < length bs \<Longrightarrow> 0 \<in> set bs"
  by (induction bs) (auto simp: cstr_of_def split: if_splits)

lemma dirent_str:
  assumes "dirent_at m e i = dirent_of f" and "length (rf_name f) < 64"
  shows "str_at m (e + 68 * of_nat i) (rf_name f)" "load32 m (e + 68 * of_nat i + 64) = of_nat (rf_size f)"
proof -
  have n: "cstr_of (load_bytes m (e + 68 * of_nat i) 64) = rf_name f" and z: "unat (load32 m (e + 68 * of_nat i + 64)) = rf_size f"
    using assms(1) by (simp_all add: dirent_at_def dirent_of_def)
  have "0 \<in> set (load_bytes m (e + 68 * of_nat i) 64)" using assms(2) n by (intro cstr_of_short) simp
  then show "str_at m (e + 68 * of_nat i) (rf_name f)" using n str_at_cstr_of by metis
  show "load32 m (e + 68 * of_nat i + 64) = of_nat (rf_size f)" unfolding z [symmetric] by simp
qed

lemma ls_entry_ok:
  fixes s :: "'a fs_state_scheme"
  assumes ok: "shell_ok sm s" and d: "dirent_at (mem s) (sh_dir sm) i = dirent_of f" "length (rf_name f) < 64"
  obtains m where "ls_entry sm i irqs s = Some (Returned ((), irqs) (puts (ls_line f) (s\<lparr>mem := m\<rparr>)))"
    "shell_ok sm (s\<lparr>mem := m\<rparr>)" "sh_same s (s\<lparr>mem := m\<rparr>)"
    "\<forall>x. unat x < unat (sh_num sm) \<or> unat (sh_num sm) + 16 \<le> unat x \<longrightarrow> m x = mem s x"
proof -
  note ds = dirent_str [OF d]
  let ?n = "of_nat (rf_size f) :: u32" and ?t = "puts (str ''  '' @ rf_name f @ str ''  ('') s"
  have lits: "''  '' \<in> set shell_lits" "''  ('' \<in> set shell_lits" "'' bytes)\<newline>'' \<in> set shell_lits" by (simp_all add: shell_lits_def)
  have len: "length (rf_name f) < 2 ^ 32" using d(2) by simp
  have okt: "shell_ok sm ?t" using ok by simp
  obtain m where m: "\<forall>irqs. print_num sm ?n irqs ?t = Some (Returned ((), irqs) (puts (uint_text ?n 10) (?t\<lparr>mem := m\<rparr>)))"
    "shell_ok sm (?t\<lparr>mem := m\<rparr>)" "sh_same ?t (?t\<lparr>mem := m\<rparr>)"
    "\<forall>x. unat x < unat (sh_num sm) \<or> unat (sh_num sm) + 16 \<le> unat x \<longrightarrow> m x = mem ?t x" by (rule print_num_ok [OF okt])
  have p: "print_lit sm ''  '' irqs s = Some (Returned ((), irqs) (puts (str ''  '') s))"
    "print sm (sh_dir sm + 68 * of_nat i) irqs (puts (str ''  '') s) = Some (Returned ((), irqs) (puts (rf_name f) (puts (str ''  '') s)))"
    "print_lit sm ''  ('' irqs (puts (rf_name f) (puts (str ''  '') s)) = Some (Returned ((), irqs) ?t)"
    "print_lit sm '' bytes)\<newline>'' irqs (puts (uint_text ?n 10) (?t\<lparr>mem := m\<rparr>)) =
      Some (Returned ((), irqs) (puts (str '' bytes)\<newline>'') (puts (uint_text ?n 10) (?t\<lparr>mem := m\<rparr>))))"
    using ok m(2) len ds(1) lits by (simp_all add: print_lit_ok print_at)
  have "ls_entry sm i irqs s = Some (Returned ((), irqs) (puts (ls_line f) (s\<lparr>mem := m\<rparr>)))"
    using m(1) p ds(2) by (simp add: ls_entry_def seq_def andthen_def ls_line_def)
  then show ?thesis using that m(2-4) by simp
qed

lemma ls_entries_ok:
  fixes s :: "'a fs_state_scheme"
  assumes "shell_ok sm s" and "map (dirent_at (mem s) (sh_dir sm)) [k..<k + length fs] = map dirent_of fs" and "k + length fs \<le> 32"
    and "\<forall>f \<in> set fs. length (rf_name f) < 64"
  shows "prints sm (seqs (map (ls_entry sm) [k..<k + length fs])) (concat (map ls_line fs)) s"
  using assms
proof (induction fs arbitrary: k s)
  case Nil
  then show ?case by (intro printsI) simp_all
next
  case (Cons f fs)
  have up: "[k..<k + length (f # fs)] = k # [Suc k..<Suc k + length fs]" using upt_conv_Cons [of k "k + length (f # fs)"] by (simp del: upt_Suc)
  have d: "dirent_at (mem s) (sh_dir sm) k = dirent_of f" "length (rf_name f) < 64"
    "map (dirent_at (mem s) (sh_dir sm)) [Suc k..<Suc k + length fs] = map dirent_of fs" using Cons.prems(2,4) unfolding up by simp_all
  have ap: "apart_ranges (sh_num sm) 16 (sh_dir sm) 2176" using shell_okD(7) [OF Cons.prems(1)] by (simp add: shell_fit_def)
  show ?case unfolding up prints_def
  proof
    fix irqs
    obtain m where m: "ls_entry sm k irqs s = Some (Returned ((), irqs) (puts (ls_line f) (s\<lparr>mem := m\<rparr>)))"
      "shell_ok sm (s\<lparr>mem := m\<rparr>)" "sh_same s (s\<lparr>mem := m\<rparr>)"
      "\<forall>x. unat x < unat (sh_num sm) \<or> unat (sh_num sm) + 16 \<le> unat x \<longrightarrow> m x = mem s x" by (rule ls_entry_ok [OF Cons.prems(1) d(1,2)])
    let ?t = "puts (ls_line f) (s\<lparr>mem := m\<rparr>)"
    have "dirent_at (mem ?t) (sh_dir sm) j = dirent_at (mem s) (sh_dir sm) j" if "j < 32" for j
      using ap that m(4) by (intro dirent_at_cong [where mx = 32]) (auto simp: apart_ranges_def)
    then have "map (dirent_at (mem ?t) (sh_dir sm)) [Suc k..<Suc k + length fs] = map dirent_of fs"
      using d(3) Cons.prems(3) by (subst d(3) [symmetric], intro map_cong) auto
    then have "prints sm (seqs (map (ls_entry sm) [Suc k..<Suc k + length fs])) (concat (map ls_line fs)) ?t"
      using Cons.prems(3,4) m(2) by (intro Cons.IH) (simp_all add: add.commute)
    then obtain m' where m': "seqs (map (ls_entry sm) [Suc k..<Suc k + length fs]) irqs ?t =
        Some (Returned ((), irqs) (puts (concat (map ls_line fs)) (?t\<lparr>mem := m'\<rparr>)))" "shell_ok sm (?t\<lparr>mem := m'\<rparr>)" "sh_same ?t (?t\<lparr>mem := m'\<rparr>)"
      unfolding prints_def by blast
    then show "\<exists>m. seqs (map (ls_entry sm) (k # [Suc k..<Suc k + length fs])) irqs s =
        Some (Returned ((), irqs) (puts (concat (map ls_line (f # fs))) (s\<lparr>mem := m\<rparr>))) \<and> shell_ok sm (s\<lparr>mem := m\<rparr>) \<and> sh_same s (s\<lparr>mem := m\<rparr>)"
      using sh_same_trans [OF m(3), of "s\<lparr>mem := m'\<rparr>"] m(1) by (intro exI [of _ m']) (simp add: seq_def andthen_def)
  qed
qed

lemma used_names:
  assumes "fs_ok s" and "f \<in> set (filter rf_used (file_tab s))"
  shows "length (rf_name f) < 64"
proof -
  obtain i where i: "i < RAMFS_MAX_FILES" "f = file_tab s ! i" "rf_used f" using assms(2) by (auto simp: in_set_conv_nth)
  show ?thesis using fs_ok_entry(1) [OF assms(1) i(1)] i unfolding VFS_MAX_FILENAME_def by simp
qed

lemma cmd_ls_ok:
  fixes s :: "'a fs_state_scheme"
  assumes ok: "shell_ok sm s"
  shows "prints sm (cmd_ls sm) (ls_text (file_tab s)) s"
  unfolding prints_def
proof
  fix irqs
  let ?s = "s\<lparr>interrupts_on := False\<rparr>"
  obtain fs where fs: "take (unat (32 :: u32)) (filter rf_used (file_tab ?s)) = fs" by simp
  have dir: "(sh_dir sm, 2176) \<in> set (sh_bufs sm)" by (simp add: sh_bufs_def)
  have pre: "fs_ok ?s" "off_table ?s (sh_dir sm) (68 * unat (32 :: u32))" "unat (32 :: u32) < 2 ^ 31"
    using shell_okD(1) [OF ok] shell_bufD(1) [OF ok dir] by (simp_all add: user_range_def off_table_def)
  obtain s' where s': "ramfs_readdir (sh_dir sm) 32 ?s = (of_nat (length fs), s')" "s' = ?s\<lparr>mem := mem s'\<rparr>"
    "\<forall>x. unat x < unat (sh_dir sm) \<or> unat (sh_dir sm) + 68 * unat (32 :: u32) \<le> unat x \<longrightarrow> mem s' x = mem ?s x"
    "map (dirent_at (mem s') (sh_dir sm)) [0..<length fs] = map dirent_of fs" using ramfs_readdir_spec [OF pre, unfolded fs] by metis
  obtain m where m: "mem s' = m" by simp
  have e: "s' = s\<lparr>interrupts_on := False, mem := m\<rparr>" using s'(2) unfolding m .
  have len: "length fs \<le> 32" unfolding fs [symmetric] by simp
  have run: "u_readdir sm (sh_dir sm) 32 irqs s = Some (Returned (of_nat (length fs), irqs) (s\<lparr>mem := m\<rparr>))"
    unfolding u_readdir_def using s'(1) e shell_okD(2) [OF ok]
    by (subst int80_mem [where m = m]) (auto simp: syscall_handler_def sys_numbers sys_readdir_def vfs_readdir_def)
  have w: "shell_ok sm (s\<lparr>mem := m\<rparr>)" "sh_same s (s\<lparr>mem := m\<rparr>)" using s'(3) m by (auto intro!: shell_write [OF ok dir])
  have sub: "set fs \<subseteq> set (filter rf_used (file_tab ?s))" unfolding fs [symmetric] by (rule set_take_subset)
  have names: "\<forall>f \<in> set fs. length (rf_name f) < 64" using used_names [OF pre(1)] sub by blast
  have body: "prints sm (seqs (map (ls_entry sm) [0..<length fs])) (concat (map ls_line fs)) (s\<lparr>mem := m\<rparr>)"
    using ls_entries_ok [OF w(1), of 0 fs] s'(4) m len names by simp
  have "prints sm (seq (seqs (map (ls_entry sm) [0..<length fs])) (if fs = [] then print_lit sm ''  (no files)\<newline>'' else skip))
      (concat (map ls_line fs) @ (if fs = [] then str ''  (no files)\<newline>'' else [])) (s\<lparr>mem := m\<rparr>)"
    by (rule prints_seq [OF body]) (auto simp: shell_lits_def intro!: prints_lit prints_skip)
  moreover have "concat (map ls_line fs) @ (if fs = [] then str ''  (no files)\<newline>'' else []) = ls_text (file_tab s)"
    using fs by (auto simp: ls_text_def)
  ultimately obtain m' where m': "seq (seqs (map (ls_entry sm) [0..<length fs])) (if fs = [] then print_lit sm ''  (no files)\<newline>'' else skip) irqs (s\<lparr>mem := m\<rparr>)
      = Some (Returned ((), irqs) (puts (ls_text (file_tab s)) (s\<lparr>mem := m'\<rparr>)))" "shell_ok sm (s\<lparr>mem := m'\<rparr>)" "sh_same (s\<lparr>mem := m\<rparr>) (s\<lparr>mem := m'\<rparr>)"
    unfolding prints_def by auto
  have n: "sint (of_nat (length fs) :: u32) = int (length fs)" using sint_small [of "of_nat (length fs)"] len by (simp add: unat_of_nat32)
  have "of_nat (length fs) = (0 :: u32) \<longleftrightarrow> fs = []" using unat_of_nat32 [of "length fs"] len by (auto simp: word_unat_eq_iff)
  then have "cmd_ls sm irqs s = Some (Returned ((), irqs) (puts (ls_text (file_tab s)) (s\<lparr>mem := m'\<rparr>)))"
    using m'(1) n by (simp add: cmd_ls_def run_andthen(1) [of "u_readdir sm (sh_dir sm) 32", OF run])
  then show "\<exists>m. cmd_ls sm irqs s = Some (Returned ((), irqs) (puts (ls_text (file_tab s)) (s\<lparr>mem := m\<rparr>))) \<and>
      shell_ok sm (s\<lparr>mem := m\<rparr>) \<and> sh_same s (s\<lparr>mem := m\<rparr>)" using m'(2) sh_same_trans [OF w(2) m'(3)] by blast
qed

section \<open>The other commands\<close>

lemma prints_step:
  assumes "\<And>irqs. p irqs s = Some (Returned (r, irqs) (s\<lparr>mem := m\<rparr>))" and "sh_same s (s\<lparr>mem := m\<rparr>)" and "prints sm (q r) out (s\<lparr>mem := m\<rparr>)"
  shows "prints sm (andthen p q) out s"
  unfolding prints_def
proof
  fix irqs
  obtain m' where m': "q r irqs (s\<lparr>mem := m\<rparr>) = Some (Returned ((), irqs) (puts out (s\<lparr>mem := m'\<rparr>)))" "shell_ok sm (s\<lparr>mem := m'\<rparr>)"
    "sh_same (s\<lparr>mem := m\<rparr>) (s\<lparr>mem := m'\<rparr>)" using assms(3) unfolding prints_def by auto
  then show "\<exists>m. andthen p q irqs s = Some (Returned ((), irqs) (puts out (s\<lparr>mem := m\<rparr>))) \<and> shell_ok sm (s\<lparr>mem := m\<rparr>) \<and> sh_same s (s\<lparr>mem := m\<rparr>)"
    using sh_same_trans [OF assms(2) m'(3)] by (intro exI [of _ m']) (simp add: andthen_def assms(1))
qed

lemma prints_step0:
  assumes "\<And>irqs. p irqs s = Some (Returned (r, irqs) s)" and "prints sm (q r) out s"
  shows "prints sm (andthen p q) out s"
  using prints_step [of p s r "mem s" sm q out] assms by simp

lemma writes_same:
  "seqs (replicate n (seq (u_write sm 1 p k) skip)) irqs s = Some (Returned ((), irqs) (puts (concat (replicate n (load_bytes (mem s) p (unat k)))) s))"
proof (induction n arbitrary: s)
  case (Suc n)
  show ?case using Suc [of "puts (load_bytes (mem s) p (unat k)) s"] by (simp add: seq_def andthen_def u_write_screen)
qed simp

lemma concat_same: "concat (replicate n (replicate k x)) = replicate (n * k) x"
  by (induction n) (simp_all add: replicate_add)

definition clear_text :: "u8 list" where
  "clear_text = replicate 2000 0x20 @ [0x0D]"

lemma cmd_clear_ok:
  fixes s :: "'a fs_state_scheme"
  assumes ok: "shell_ok sm s"
  shows "prints sm (cmd_clear sm) clear_text s"
proof -
  let ?m = "(store_bytes (mem s) (sh_line sm) (replicate 80 0x20))(sh_line sm + 80 := 0)"
  let ?t = "s\<lparr>mem := ?m\<rparr>"
  have line: "(sh_line sm, 81) \<in> set (sh_bufs sm)" by (simp add: sh_bufs_def)
  have fit: "unat (sh_line sm) + 81 \<le> 2 ^ 32" using shell_bufD(1) [OF ok line] by (simp add: user_range_def off_table_def apart_ranges_def)
  have a: "unat (sh_line sm + 80) = unat (sh_line sm) + 80" using fit by (subst unat_add_num) simp_all
  have out: "?m x = mem s x" if "unat x < unat (sh_line sm) \<or> unat (sh_line sm) + 81 \<le> unat x" for x
    using that fit a by (auto intro!: store_bytes_other)
  note w = shell_write [OF ok line, of ?m, OF out]
  have "load_bytes ?m (sh_line sm) 80 = load_bytes (store_bytes (mem s) (sh_line sm) (replicate 80 0x20)) (sh_line sm) (length (replicate 80 (0x20 :: u8)))"
    unfolding length_replicate using a fit by (intro load_bytes_cong) auto
  also have "\<dots> = replicate 80 0x20" using fit by (intro load_store_bytes) simp
  finally have l: "load_bytes ?m (sh_line sm) 80 = replicate 80 0x20" .
  have c: "concat (replicate 25 (replicate 80 (0x20 :: u8))) = replicate 2000 0x20" "str [CHR 0x0D] = [0x0D]"
    by (simp_all add: concat_same str_def)
  have u: "load_bytes (mem ?t) (sh_line sm) (unat (80 :: u32)) = replicate 80 0x20" using l by simp
  have "prints sm (seqs (replicate 25 (seq (u_write sm 1 (sh_line sm) 80) skip))) (replicate 2000 0x20) ?t"
    using w(1) by (intro printsI) (simp_all only: writes_same, simp only: u c)
  then have "prints sm (seq (seqs (replicate 25 (seq (u_write sm 1 (sh_line sm) 80) skip))) (print_lit sm [CHR 0x0D])) (replicate 2000 0x20 @ str [CHR 0x0D]) ?t"
    by (rule prints_seq) (rule prints_lit, simp only: shell_ok_puts, simp add: shell_lits_def)
  then show ?thesis unfolding cmd_clear_def seq_def [of "put _"] clear_text_def c
    using w(2) by (intro prints_step [where m = ?m and r = "()"]) (simp_all add: memset_eq)
qed

lemma prints_num: "shell_ok sm s \<Longrightarrow> prints sm (print_num sm n) (uint_text n 10) s"
  unfolding prints_def by (rule print_num_ok [of sm s n]) blast+

definition uptime_text :: "'a timer_state_scheme \<Rightarrow> u8 list" where
  "uptime_text s = str ''Uptime: '' @ uint_text (tick_count s div ticks_per_second s) 10 @ str '' seconds\<newline>''"

lemma cmd_uptime_ok:
  fixes s :: "'a fs_state_scheme"
  assumes ok: "shell_ok sm s"
  shows "prints sm (cmd_uptime sm) (uptime_text s) s"
proof -
  let ?n = "tick_count s div ticks_per_second s"
  have "u_uptime sm irqs s = Some (Returned (?n, irqs) s)" for irqs
    using shell_okD(6) [OF ok] by (simp add: u_uptime_def int80_def isr_handler_def syscall_handler_def sys_numbers sys_uptime_def timer_get_seconds_def)
  moreover have "prints sm (seqs [print_lit sm ''Uptime: '', print_num sm ?n, print_lit sm '' seconds\<newline>''])
      (str ''Uptime: '' @ uint_text ?n 10 @ str '' seconds\<newline>'' @ []) s"
    unfolding seqs_simps
    by (rule prints_seq, rule prints_lit, simp_all add: ok shell_lits_def del: run_steps, rule prints_seq, rule prints_num, simp,
        rule prints_seq [of _ _ _ _ _ "[]", simplified append_Nil2], rule prints_lit, simp_all add: shell_lits_def prints_skip del: run_steps)
  ultimately show ?thesis unfolding cmd_uptime_def uptime_text_def by (intro prints_step0) simp_all
qed

definition meminfo_words :: "'a pmm_state_scheme \<Rightarrow> u32 list" where
  "meminfo_words s = [pmm_get_total_pages s, pmm_get_free_pages s, pmm_get_used_pages s]"

definition meminfo_text :: "u32 list \<Rightarrow> u8 list" where
  "meminfo_text ws = str ''Physical Memory:\<newline>'' @ concat (map2 (\<lambda>l w. str l @ uint_text (w * 4) 10 @ str '' KB\<newline>'')
     [''  Total: '', ''  Free:  '', ''  Used:  ''] ws)"

lemma meminfo_line_ok:
  fixes s :: "'a fs_state_scheme"
  assumes ok: "shell_ok sm s" and l: "l \<in> set shell_lits"
    and w: "load32 (mem s) (sh_info sm) = v0" "load32 (mem s) (sh_info sm + 4) = v1" "load32 (mem s) (sh_info sm + 8) = v2"
    and off: "load32 (mem s) (sh_info sm + off) = v"
  obtains m where "meminfo_line sm l off irqs s = Some (Returned ((), irqs) (puts (str l @ uint_text (v * 4) 10 @ str '' KB\<newline>'') (s\<lparr>mem := m\<rparr>)))"
    "shell_ok sm (s\<lparr>mem := m\<rparr>)" "sh_same s (s\<lparr>mem := m\<rparr>)" "load32 m (sh_info sm) = v0" "load32 m (sh_info sm + 4) = v1" "load32 m (sh_info sm + 8) = v2"
proof -
  let ?t = "puts (str l) s"
  have okt: "shell_ok sm ?t" using ok by simp
  obtain m where m: "\<forall>irqs. print_num sm (v * 4) irqs ?t = Some (Returned ((), irqs) (puts (uint_text (v * 4) 10) (?t\<lparr>mem := m\<rparr>)))"
    "shell_ok sm (?t\<lparr>mem := m\<rparr>)" "sh_same ?t (?t\<lparr>mem := m\<rparr>)"
    "\<forall>x. unat x < unat (sh_num sm) \<or> unat (sh_num sm) + 16 \<le> unat x \<longrightarrow> m x = mem ?t x" by (rule print_num_ok [OF okt])
  have kb: "'' KB\<newline>'' \<in> set shell_lits" by (simp add: shell_lits_def)
  have run: "meminfo_line sm l off irqs s = Some (Returned ((), irqs) (puts (str l @ uint_text (v * 4) 10 @ str '' KB\<newline>'') (s\<lparr>mem := m\<rparr>)))"
    using m(1,2) print_lit_ok [OF ok l] print_lit_ok [OF _ kb, of sm "puts (uint_text (v * 4) 10) (?t\<lparr>mem := m\<rparr>)"] off
    by (simp add: meminfo_line_def seq_def andthen_def)
  have ap: "apart_ranges (sh_num sm) 16 (sh_info sm) 12" using shell_okD(7) [OF ok] by (simp add: shell_fit_def)
  have u: "unat (sh_info sm + 4) = unat (sh_info sm) + 4" "unat (sh_info sm + 8) = unat (sh_info sm) + 8"
    using ap by (subst unat_add_num; simp add: apart_ranges_def)+
  have same: "load32 m (sh_info sm) = load32 (mem s) (sh_info sm)" "load32 m (sh_info sm + 4) = load32 (mem s) (sh_info sm + 4)"
    "load32 m (sh_info sm + 8) = load32 (mem s) (sh_info sm + 8)"
    using ap m(4) u by (intro load32_cong; auto simp: apart_ranges_def)+
  show ?thesis by (rule that [OF run]) (use m(2,3) w in \<open>simp_all add: same\<close>)
qed

lemma cmd_meminfo_ok:
  fixes s :: "'a fs_state_scheme"
  assumes ok: "shell_ok sm s"
  shows "prints sm (cmd_meminfo sm) (meminfo_text (meminfo_words s)) s"
  unfolding prints_def
proof
  fix irqs
  let ?i = "sh_info sm"
  let ?m = "store32 (store32 (store32 (mem s) ?i (pmm_get_total_pages s)) (?i + 4) (pmm_get_free_pages s)) (?i + 8) (pmm_get_used_pages s)"
  let ?s = "s\<lparr>mem := ?m\<rparr>" and ?h = "str ''Physical Memory:\<newline>''"
  have nz: "?i \<noteq> 0" using shell_okD(7) [OF ok] by (simp add: shell_fit_def)
  have info: "(?i, 12) \<in> set (sh_bufs sm)" by (simp add: sh_bufs_def)
  have fit: "unat ?i + 12 \<le> 2 ^ 32" using shell_bufD(1) [OF ok info] by (simp add: user_range_def off_table_def apart_ranges_def)
  have u: "unat (?i + 4) = unat ?i + 4" "unat (?i + 8) = unat ?i + 8" using fit by (subst unat_add_num; simp)+
  have out: "?m x = mem s x" if "unat x < unat ?i \<or> unat ?i + 12 \<le> unat x" for x
    using that fit u by (subst store32_other; auto)+
  note w = shell_write [OF ok info, of ?m, OF out]
  have v: "load32 ?m ?i = pmm_get_total_pages s" "load32 ?m (?i + 4) = pmm_get_free_pages s" "load32 ?m (?i + 8) = pmm_get_used_pages s"
    using fit u by (simp_all add: load32_store32_other)
  have run: "u_meminfo sm ?i irqs s = Some (Returned (0, irqs) ?s)"
    unfolding u_meminfo_def using nz by (subst int80_mem [where m = ?m])
      (auto simp: syscall_handler_def sys_numbers sys_meminfo_def pmm_get_total_pages_def pmm_get_free_pages_def pmm_get_used_pages_def)
  have lits: "''  Total: '' \<in> set shell_lits" "''  Free:  '' \<in> set shell_lits" "''  Used:  '' \<in> set shell_lits"
    "''Physical Memory:\<newline>'' \<in> set shell_lits" by (simp_all add: shell_lits_def)
  let ?t = "puts ?h ?s"
  have v': "load32 (mem ?t) ?i = pmm_get_total_pages s" "load32 (mem ?t) (?i + 4) = pmm_get_free_pages s"
    "load32 (mem ?t) (?i + 8) = pmm_get_used_pages s" "load32 (mem ?t) (?i + 0) = pmm_get_total_pages s" and okt: "shell_ok sm ?t"
    using v w(1) by simp_all
  let ?l = "\<lambda>l w. str l @ uint_text (w * 4) 10 @ str '' KB\<newline>''"
  obtain m1 where m1: "meminfo_line sm ''  Total: '' 0 irqs ?t = Some (Returned ((), irqs) (puts (?l ''  Total: '' (pmm_get_total_pages s)) (?t\<lparr>mem := m1\<rparr>)))"
    "shell_ok sm (?t\<lparr>mem := m1\<rparr>)" "sh_same ?t (?t\<lparr>mem := m1\<rparr>)" "load32 m1 ?i = pmm_get_total_pages s" "load32 m1 (?i + 4) = pmm_get_free_pages s" "load32 m1 (?i + 8) = pmm_get_used_pages s"
    by (rule meminfo_line_ok [OF okt lits(1) v'])
  let ?t1 = "puts (?l ''  Total: '' (pmm_get_total_pages s)) (?t\<lparr>mem := m1\<rparr>)"
  have v1: "load32 (mem ?t1) ?i = pmm_get_total_pages s" "load32 (mem ?t1) (?i + 4) = pmm_get_free_pages s"
    "load32 (mem ?t1) (?i + 8) = pmm_get_used_pages s" and ok1: "shell_ok sm ?t1" using m1(2-6) by simp_all
  obtain m2 where m2: "meminfo_line sm ''  Free:  '' 4 irqs ?t1 = Some (Returned ((), irqs) (puts (?l ''  Free:  '' (pmm_get_free_pages s)) (?t1\<lparr>mem := m2\<rparr>)))"
    "shell_ok sm (?t1\<lparr>mem := m2\<rparr>)" "sh_same ?t1 (?t1\<lparr>mem := m2\<rparr>)" "load32 m2 ?i = pmm_get_total_pages s" "load32 m2 (?i + 4) = pmm_get_free_pages s" "load32 m2 (?i + 8) = pmm_get_used_pages s"
    by (rule meminfo_line_ok [OF ok1 lits(2) v1 v1(2)])
  let ?t2 = "puts (?l ''  Free:  '' (pmm_get_free_pages s)) (?t1\<lparr>mem := m2\<rparr>)"
  have v2: "load32 (mem ?t2) ?i = pmm_get_total_pages s" "load32 (mem ?t2) (?i + 4) = pmm_get_free_pages s"
    "load32 (mem ?t2) (?i + 8) = pmm_get_used_pages s" and ok2: "shell_ok sm ?t2" using m2(2-6) by simp_all
  obtain m3 where m3: "meminfo_line sm ''  Used:  '' 8 irqs ?t2 = Some (Returned ((), irqs) (puts (?l ''  Used:  '' (pmm_get_used_pages s)) (?t2\<lparr>mem := m3\<rparr>)))"
    "shell_ok sm (?t2\<lparr>mem := m3\<rparr>)" "sh_same ?t2 (?t2\<lparr>mem := m3\<rparr>)"
    by (rule meminfo_line_ok [OF ok2 lits(3) v2 v2(3)])
  have "cmd_meminfo sm irqs s = Some (Returned ((), irqs) (puts (meminfo_text (meminfo_words s)) (s\<lparr>mem := m3\<rparr>)))"
    using run print_lit_ok [OF w(1) lits(4), of irqs] m1(1) m2(1) m3(1)
    by (simp add: cmd_meminfo_def andthen_def seq_def meminfo_text_def meminfo_words_def del: str_def)
  moreover have "sh_same s (s\<lparr>mem := m3\<rparr>)"
    using w(2) m1(3) m2(3) m3(3) by (simp add: sh_same_def)
  moreover have "shell_ok sm (s\<lparr>mem := m3\<rparr>)" using m3(2) by simp
  ultimately show "\<exists>m. cmd_meminfo sm irqs s = Some (Returned ((), irqs) (puts (meminfo_text (meminfo_words s)) (s\<lparr>mem := m\<rparr>))) \<and>
      shell_ok sm (s\<lparr>mem := m\<rparr>) \<and> sh_same s (s\<lparr>mem := m\<rparr>)" by blast
qed

section \<open>One command line\<close>

definition help_text :: "u8 list" where
  "help_text = concat (map str
     [''AnubhavOS Shell Commands:\<newline>'',
      ''  help     '' @ dash @ '' show this help\<newline>'', ''  ls       '' @ dash @ '' list files in ramfs\<newline>'',
      ''  cat FILE '' @ dash @ '' display file contents\<newline>'', ''  echo ... '' @ dash @ '' print arguments\<newline>'',
      ''  clear    '' @ dash @ '' clear the screen\<newline>'', ''  uptime   '' @ dash @ '' seconds since boot\<newline>'',
      ''  meminfo  '' @ dash @ '' physical memory usage\<newline>'', ''  ps       '' @ dash @ '' list running processes\<newline>''])"

definition cat_text :: "ram_file list \<Rightarrow> u8 list \<Rightarrow> u8 list" where
  "cat_text t nm =
     (if nm = [] then str ''cat: usage: cat <filename>\<newline>''
      else case tab_find nm t of
          None \<Rightarrow> str ''cat: file not found: '' @ nm @ [0x0A]
        | Some i \<Rightarrow> file_content (t ! i))"

definition shell_reply :: "'a fs_state_scheme \<Rightarrow> u8 list \<Rightarrow> u8 list" where
  "shell_reply s l =
     (if l = str ''help'' then help_text
      else if l = str ''ls'' then ls_text (file_tab s)
      else if take 4 l = str ''cat '' then cat_text (file_tab s) (drop 4 l)
      else if take 5 l = str ''echo '' then drop 5 l @ [0x0A]
      else if l = str ''echo'' then [0x0A]
      else if l = str ''clear'' then clear_text
      else if l = str ''uptime'' then uptime_text s
      else if l = str ''meminfo'' then meminfo_text (meminfo_words s)
      else str ''Unknown command: '' @ l @ str (''\<newline>Type '' @ quo @ ''help'' @ quo @ '' for a list of commands.\<newline>''))"

lemma if_else_is_cmd:
  assumes "shell_ok sm s" and "str_at (mem s) (sh_cmd sm) l" and "t \<in> set shell_lits"
  shows "if_else (is_cmd sm t) p q irqs s = (if l = str t then p irqs s else q irqs s)"
proof -
  obtain r where "strcmp (mem s) (sh_cmd sm) (lit sm t) = Some r" "r = 0 \<longleftrightarrow> l = str t"
    using strcmp_at [OF assms(2) shell_okD(8) [OF assms(1,3)]] by blast
  then show ?thesis by (simp add: if_else_def is_cmd_def andthen_def call_get_def)
qed

lemma if_else_has_prefix:
  assumes "shell_ok sm s" and "str_at (mem s) (sh_cmd sm) l" and "t \<in> set shell_lits" and "unat n = length t"
  shows "if_else (has_prefix sm t n) p q irqs s = (if take (length t) l = str t then p irqs s else q irqs s)"
proof -
  have "strncmp (mem s) (sh_cmd sm) (lit sm t) n = 0 \<longleftrightarrow> take (length t) l = str t"
    using strncmp_at [OF assms(2) shell_okD(8) [OF assms(1,3)], of "unat n"] assms(4) by (simp add: strncmp_def)
  then show ?thesis by (simp add: if_else_def has_prefix_def andthen_def)
qed

lemma str_at_drop: "str_at m p cs \<Longrightarrow> k \<le> length cs \<Longrightarrow> str_at m (p + of_nat k) (drop k cs)"
proof (induction k arbitrary: p cs)
  case (Suc k)
  then show ?case using Suc.IH [of "p + 1" "tl cs"] by (cases cs) (auto simp: ac_simps)
qed simp

text \<open>The commands whose effect is not only output.\<close>

definition other_cmds :: "u8 list list" where
  "other_cmds = map str [''ps'', ''exit'']"

lemma prints_is_cmd:
  assumes "shell_ok sm s" and "str_at (mem s) (sh_cmd sm) l" and "t \<in> set shell_lits"
    and "l = str t \<Longrightarrow> prints sm p out s" and "l \<noteq> str t \<Longrightarrow> prints sm q out s"
  shows "prints sm (if_else (is_cmd sm t) p q) out s"
  using assms(4,5) by (cases "l = str t") (simp_all add: prints_def if_else_is_cmd [OF assms(1-3)])

lemma prints_has_prefix:
  assumes "shell_ok sm s" and "str_at (mem s) (sh_cmd sm) l" and "t \<in> set shell_lits" and "unat n = length t"
    and "take (length t) l = str t \<Longrightarrow> prints sm p out s" and "take (length t) l \<noteq> str t \<Longrightarrow> prints sm q out s"
  shows "prints sm (if_else (has_prefix sm t n) p q) out s"
  using assms(5,6) by (cases "take (length t) l = str t") (simp_all add: prints_def if_else_has_prefix [OF assms(1-4)])

lemma cmd_lits:
  "''help'' \<in> set shell_lits" "''ls'' \<in> set shell_lits" "''cat '' \<in> set shell_lits" "''echo '' \<in> set shell_lits" "''echo'' \<in> set shell_lits"
  "''clear'' \<in> set shell_lits" "''uptime'' \<in> set shell_lits" "''meminfo'' \<in> set shell_lits" "''ps'' \<in> set shell_lits" "''exit'' \<in> set shell_lits"
  "[] \<in> set shell_lits"
  by (simp_all add: shell_lits_def)

lemma cmd_rest:
  fixes s :: "'a fs_state_scheme"
  assumes ok: "shell_ok sm s" and at: "str_at (mem s) (sh_cmd sm) l" and len: "length l \<le> 255" and t: "take (length t) l = str t" "t \<noteq> []"
    and n: "n = of_nat (length t)"
  shows "str_at (mem s) (sh_cmd sm + n) (drop (length t) l)" "sh_cmd sm + n \<noteq> 0" "length (drop (length t) l) < 2 ^ 32"
proof -
  have k: "length t \<le> length l" using arg_cong [OF t(1), of length] by simp
  show "str_at (mem s) (sh_cmd sm + n) (drop (length t) l)" unfolding n by (rule str_at_drop [OF at k])
  have fit: "unat (sh_cmd sm) + 256 \<le> 2 ^ 32"
    using shell_bufD(1) [OF ok shell_buf_in(1)] by (simp add: user_range_def off_table_def apart_ranges_def)
  have "unat (sh_cmd sm + n) = unat (sh_cmd sm) + length t" unfolding n using k len by (intro of_nat_add_apart [OF fit]) simp
  then show "sh_cmd sm + n \<noteq> 0" using t(2) by (cases "sh_cmd sm + n = 0") auto
  show "length (drop (length t) l) < 2 ^ 32" using len by simp
qed

lemma cmd_cat_text:
  fixes s :: "'a fs_state_scheme"
  assumes ok: "shell_ok sm s" and p: "p \<noteq> 0" "str_at (mem s) p nm" "length nm < 2 ^ 32" "hd0 nm \<noteq> 0x2F"
    and free: "\<exists>fd \<in> {3..<MAX_FDS}. fd_in_use (mem s) (current s) (of_nat fd) = 0"
  shows "prints sm (cmd_cat sm p) (cat_text (file_tab s) nm) s"
proof (cases "nm = []")
  case True
  then show ?thesis using cmd_cat_empty [OF ok, of p] p(2) by (simp add: cat_text_def)
next
  case False
  then show ?thesis using cmd_cat_missing [OF ok p(1-3) False p(4)] cmd_cat_found [OF ok p(1,2) False p(4) _ free]
    by (cases "tab_find nm (file_tab s)") (simp_all add: cat_text_def del: nth_file_tab)
qed

lemma cmd_unknown:
  fixes s :: "'a fs_state_scheme"
  assumes ok: "shell_ok sm s" and at: "str_at (mem s) (sh_cmd sm) l" and len: "length l \<le> 255"
  defines "tail \<equiv> ''\<newline>Type '' @ quo @ ''help'' @ quo @ '' for a list of commands.\<newline>''"
  shows "prints sm (seqs [print_lit sm ''Unknown command: '', print sm (sh_cmd sm), print_lit sm tail]) (str ''Unknown command: '' @ l @ str tail) s"
proof (rule printsI [OF _ ok])
  fix irqs
  have lits: "''Unknown command: '' \<in> set shell_lits" "tail \<in> set shell_lits" by (simp_all add: shell_lits_def tail_def)
  note p1 = print_lit_ok [OF ok lits(1), of irqs]
  have p2: "print sm (sh_cmd sm) irqs (puts (str ''Unknown command: '') s) = Some (Returned ((), irqs) (puts l (puts (str ''Unknown command: '') s)))"
    using at len by (intro print_at) simp_all
  have p3: "print_lit sm tail irqs (puts l (puts (str ''Unknown command: '') s)) =
      Some (Returned ((), irqs) (puts (str tail) (puts l (puts (str ''Unknown command: '') s))))" using ok lits(2) by (intro print_lit_ok) simp_all
  show "seqs [print_lit sm ''Unknown command: '', print sm (sh_cmd sm), print_lit sm tail] irqs s =
      Some (Returned ((), irqs) (puts (str ''Unknown command: '' @ l @ str tail) s))" by (simp add: seq_def andthen_def p1 p2 p3)
qed

lemma cmd_help_ok: "shell_ok sm s \<Longrightarrow> prints sm (cmd_help sm) help_text s"
  unfolding cmd_help_def help_text_def by (rule prints_seqs) (simp_all add: shell_lits_def)

lemma shell_command_prints:
  fixes s :: "'a fs_state_scheme"
  assumes ok: "shell_ok sm s" and at: "str_at (mem s) (sh_cmd sm) l" and len: "length l \<le> 255"
    and other: "l \<notin> set other_cmds" and path: "take 4 l = str ''cat '' \<Longrightarrow> hd0 (drop 4 l) \<noteq> 0x2F"
    and free: "\<exists>fd \<in> {3..<MAX_FDS}. fd_in_use (mem s) (current s) (of_nat fd) = 0"
  shows "prints sm (shell_command sm) (shell_reply s l) s"
proof -
  note c = prints_is_cmd [OF ok at] and x = prints_has_prefix [OF ok at]
  have n4: "unat (4 :: u32) = length ''cat ''" "4 = length ''cat ''" "(4 :: u32) = of_nat (length ''cat '')"
    and n5: "unat (5 :: u32) = length ''echo ''" "5 = length ''echo ''" "(5 :: u32) = of_nat (length ''echo '')" by simp_all
  have nots: "l \<noteq> str ''ps''" "l \<noteq> str ''exit''" using other by (simp_all add: other_cmds_def)
  have cat: "prints sm (cmd_cat sm (sh_cmd sm + 4)) (cat_text (file_tab s) (drop (length ''cat '') l)) s" if t: "take (length ''cat '') l = str ''cat ''"
  proof -
    note r = cmd_rest [OF ok at len t list.distinct(2) n4(3)]
    show ?thesis by (rule cmd_cat_text [OF ok r(2,1,3) path [unfolded n4(2), OF t] free])
  qed
  have echo: "prints sm (cmd_echo sm (sh_cmd sm + 5)) (drop (length ''echo '') l @ [0x0A]) s" if t: "take (length ''echo '') l = str ''echo ''"
  proof -
    note r = cmd_rest [OF ok at len t list.distinct(2) n5(3)]
    show ?thesis using r(2) by (intro cmd_echo_ok [OF ok _ r(1,3)]) simp
  qed
  have echo0: "prints sm (cmd_echo sm (lit sm [])) ([] @ [0x0A]) s"
    using shell_okD(8) [OF ok cmd_lits(11)] by (intro cmd_echo_ok [OF ok]) (simp_all add: str_def)
  show ?thesis
    unfolding shell_command_def shell_reply_def n4(2) n5(2)
    by (intro c [OF cmd_lits(1)] c [OF cmd_lits(2)] c [OF cmd_lits(5)] c [OF cmd_lits(6)] c [OF cmd_lits(7)] c [OF cmd_lits(8)] c [OF cmd_lits(9)]
          c [OF cmd_lits(10)] x [OF cmd_lits(3) n4(1)] x [OF cmd_lits(4) n5(1)])
      (simp_all only: if_P if_not_P nots simp_thms cmd_help_ok [OF ok] cmd_ls_ok [OF ok] cat echo echo0 [unfolded append_Nil] cmd_clear_ok [OF ok] cmd_uptime_ok [OF ok]
        cmd_meminfo_ok [OF ok] cmd_unknown [OF ok at len])
qed

section \<open>The session\<close>

text \<open>
  Lines the transcript below answers: not \<open>uptime\<close> and \<open>meminfo\<close>, whose answers depend on when
  they are given, not \<open>ps\<close> and \<open>exit\<close>, and no path with a leading slash.
\<close>

definition plain_line :: "u8 list \<Rightarrow> bool" where
  "plain_line l \<longleftrightarrow> 0 \<notin> set l \<and> l \<notin> set other_cmds \<and> l \<noteq> str ''uptime'' \<and> l \<noteq> str ''meminfo'' \<and>
     \<not> (take 4 l = str ''cat '' \<and> hd0 (drop 4 l) = 0x2F)"

definition prompt :: "u8 list" where
  "prompt = str ''anubhav-os:/ $ ''"

text \<open>The bytes \<open>n\<close> turns of the loop put on the screen for the keys \<open>inp\<close>, and the keys left.\<close>

primrec transcript :: "'a fs_state_scheme \<Rightarrow> nat \<Rightarrow> u8 list \<Rightarrow> (u8 list \<times> u8 list) option" where
  "transcript s 0 inp = Some ([], inp)"
| "transcript s (Suc n) inp =
     (case edit 255 [] inp of
        None \<Rightarrow> None
      | Some (l, rest, e) \<Rightarrow>
          if plain_line l
          then map_option (\<lambda>(out, r). (prompt @ e @ (if l = [] then [] else shell_reply s l) @ out, r)) (transcript s n rest)
          else None)"

lemma shell_reply_same: "plain_line l \<Longrightarrow> file_tab s' = file_tab s \<Longrightarrow> shell_reply s' l = shell_reply s l"
  by (simp add: shell_reply_def plain_line_def)

lemma transcript_same:
  assumes "file_tab s' = file_tab s"
  shows "transcript s' n inp = transcript s n inp"
  by (induction n arbitrary: inp) (simp_all add: shell_reply_same [OF _ assms] split: option.split)

lemma edit_length: "edit n line inp = Some (l, rest, e) \<Longrightarrow> length line \<le> n \<Longrightarrow> length l \<le> n"
  by (induction n line inp arbitrary: l rest e rule: edit.induct) (auto split: if_splits)

definition has_free_fd :: "'a fs_state_scheme \<Rightarrow> bool" where
  "has_free_fd s \<longleftrightarrow> (\<exists>fd \<in> {3..<MAX_FDS}. fd_in_use (mem s) (current s) (of_nat fd) = 0)"

lemma has_free_fd_same:
  assumes "sh_same s s'" and "has_free_fd s"
  shows "has_free_fd s'"
proof -
  obtain fd where fd: "fd \<in> {3..<MAX_FDS}" "fd_in_use (mem s) (current s) (of_nat fd) = 0" using assms(2) unfolding has_free_fd_def by blast
  have "unat (of_nat fd :: u32) = fd" using fd(1) by (intro unat_of_nat32) (simp add: MAX_FDS_def)
  then have "fd_in_use (mem s') (current s') (of_nat fd) = 0" using assms(1) fd unfolding sh_same_def by (metis atLeastLessThan_iff)
  then show ?thesis using fd(1) unfolding has_free_fd_def by blast
qed

lemma shell_iter_answers:
  fixes s :: "'a fs_state_scheme"
  assumes ok: "shell_ok sm s" and free: "has_free_fd s" and ed: "edit 255 [] (input irqs s) = Some (l, rest, e)" and pl: "plain_line l"
  obtains irqs' s' where "shell_iter sm irqs s = Some (Returned ((), irqs') s')" "shell_ok sm s'" "sh_same s s'" "input irqs' s' = rest"
    "screen_of s' = screen_of (puts (prompt @ e @ (if l = [] then [] else shell_reply s l)) s)"
proof -
  let ?s = "puts prompt s"
  have p: "print_prompt sm irqs s = Some (Returned ((), irqs) ?s)"
    unfolding print_prompt_def prompt_def by (rule print_lit_ok [OF ok]) (simp add: shell_lits_def)
  have pre: "shell_ok sm ?s" "load_bytes (mem ?s) (sh_cmd sm) (length []) = []" "length [] \<le> 255" "edit 255 [] (input irqs ?s) = Some (l, rest, e)"
    using ok ed by simp_all
  obtain irqs' t where t: "readline sm (sh_cmd sm) CMD_BUF_SIZE irqs ?s = Some (Returned (of_nat (length l), irqs') t)" "shell_ok sm t" "sh_same s t"
    "load_bytes (mem t) (sh_cmd sm) (Suc (length l)) = l @ [0]" "input irqs' t = rest" "screen_of t = screen_of (puts e ?s)"
    using readline_loop_edit [OF pre] by (auto simp: line_read_def readline_def CMD_BUF_SIZE_def)
  have len: "length l \<le> 255" using edit_length [OF ed] by simp
  have scr: "screen_of (puts out t) = screen_of (puts (prompt @ e @ out) s)" for out using screen_puts [OF t(6), of out] by simp
  show ?thesis
  proof (cases "l = []")
    case True
    then have "shell_iter sm irqs s = Some (Returned ((), irqs') t)" using p t(1) by (simp add: shell_iter_def seq_def andthen_def)
    then show ?thesis using that t scr [of "[]"] True by simp
  next
    case False
    have nz: "of_nat (length l) \<noteq> (0 :: u32)" using False len unat_of_nat32 [of "length l"] by (auto simp: word_unat_eq_iff)
    have at: "str_at (mem t) (sh_cmd sm) l" using t(4) pl by (simp add: str_at_load plain_line_def del: load_bytes.simps)
    have "prints sm (shell_command sm) (shell_reply t l) t"
      using pl has_free_fd_same [OF t(3) free] by (intro shell_command_prints [OF t(2) at len]) (auto simp: plain_line_def has_free_fd_def)
    moreover have "shell_reply t l = shell_reply s l" using t(3) by (intro shell_reply_same [OF pl]) (simp add: sh_same_def)
    ultimately obtain m where m: "shell_command sm irqs' t = Some (Returned ((), irqs') (puts (shell_reply s l) (t\<lparr>mem := m\<rparr>)))"
      "shell_ok sm (t\<lparr>mem := m\<rparr>)" "sh_same t (t\<lparr>mem := m\<rparr>)" unfolding prints_def by auto
    have "shell_iter sm irqs s = Some (Returned ((), irqs') (puts (shell_reply s l) (t\<lparr>mem := m\<rparr>)))"
      using p t(1) m(1) nz by (simp add: shell_iter_def seq_def andthen_def)
    moreover have "screen_of (puts (shell_reply s l) (t\<lparr>mem := m\<rparr>)) = screen_of (puts (shell_reply s l) t)" by (intro screen_puts) simp
    ultimately show ?thesis using that m(2) sh_same_trans [OF t(3) m(3)] t(5) scr False by simp
  qed
qed

text \<open>
  C39. Reading a line: for any keys typed, \<open>readline\<close> returns as soon as they make a line, and then
  behaves as the line editor \<open>edit\<close>: it returns the length of the edited line, leaves the line with its
  terminator in the caller's array, never more than 255 characters and never a byte beyond the
  array, has echoed every character and each erasure, leaves what was typed after the line for the next call, and changes
  neither files nor descriptors.
\<close>

theorem readline_edits:
  fixes s :: "'a fs_state_scheme"
  assumes ok: "shell_ok sm s" and ed: "edit 255 [] (input irqs s) = Some (l, rest, e)"
  shows "\<exists>irqs' s'. readline sm (sh_cmd sm) CMD_BUF_SIZE irqs s = Some (Returned (of_nat (length l), irqs') s') \<and>
    length l \<le> 255 \<and> load_bytes (mem s') (sh_cmd sm) (Suc (length l)) = l @ [0] \<and> input irqs' s' = rest \<and>
    screen_of s' = screen_of (fold vga_putchar e s) \<and> shell_ok sm s' \<and> sh_same s s'"
proof -
  have "line_read sm s l rest e (readline sm (sh_cmd sm) CMD_BUF_SIZE irqs s)"
    using readline_loop_edit [OF ok, of "[]" irqs l rest e] ed by (simp add: readline_def CMD_BUF_SIZE_def)
  moreover have "length l \<le> 255" using edit_length [OF ed] by simp
  ultimately show ?thesis unfolding line_read_def by blast
qed


lemma shell_loop_transcript:
  fixes s :: "'a fs_state_scheme"
  assumes "shell_ok sm s" and "has_free_fd s" and "transcript s n (input irqs s) = Some (out, rest)"
  shows "\<exists>irqs' s'. shell_loop sm n irqs s = Some (Returned ((), irqs') s') \<and> screen_of s' = screen_of (puts out s) \<and>
    input irqs' s' = rest \<and> shell_ok sm s' \<and> sh_same s s'"
  using assms
proof (induction n arbitrary: irqs s out rest)
  case 0
  then show ?case by simp
next
  case (Suc n)
  obtain l r e out' where ed: "edit 255 [] (input irqs s) = Some (l, r, e)" "plain_line l" "transcript s n r = Some (out', rest)"
    "out = prompt @ e @ (if l = [] then [] else shell_reply s l) @ out'"
    using Suc.prems(3) by (auto split: option.splits if_splits)
  obtain irqs1 s1 where i: "shell_iter sm irqs s = Some (Returned ((), irqs1) s1)" "shell_ok sm s1" "sh_same s s1" "input irqs1 s1 = r"
    "screen_of s1 = screen_of (puts (prompt @ e @ (if l = [] then [] else shell_reply s l)) s)"
    by (rule shell_iter_answers [OF Suc.prems(1,2) ed(1,2)])
  have tab: "file_tab s1 = file_tab s" using i(3) by (simp add: sh_same_def)
  have tr: "transcript s1 n (input irqs1 s1) = Some (out', rest)" unfolding i(4) transcript_same [OF tab] by (rule ed(3))
  obtain irqs2 s2 where j: "shell_loop sm n irqs1 s1 = Some (Returned ((), irqs2) s2)" "screen_of s2 = screen_of (puts out' s1)" "input irqs2 s2 = rest"
    "shell_ok sm s2" "sh_same s1 s2" using Suc.IH [OF i(2) has_free_fd_same [OF i(3) Suc.prems(2)] tr] by blast
  have "screen_of s2 = screen_of (puts out s)" unfolding j(2) ed(4) using screen_puts [OF i(5), of out'] by simp
  moreover have "shell_loop sm (Suc n) irqs s = Some (Returned ((), irqs2) s2)" using i(1) j(1) by (simp add: seq_def andthen_def)
  ultimately show ?case using j(3,4) sh_same_trans [OF i(3) j(5)] by blast
qed

text \<open>
  C37. A session of the shell, end to end: whatever is typed, as long as it makes \<open>n\<close> lines of
  the commands that only print, \<open>_start\<close> gets through its banner and \<open>n\<close> turns of its loop, and the screen is what the banner,
  and for each line the prompt, the echo of the keys and the command's answer make of it, through
  every system call, the file system, the keyboard queue and the VGA driver. The keys typed ahead are still there, and no
  file has changed and no descriptor is left open.
\<close>

theorem shell_session:
  fixes s :: "'a fs_state_scheme"
  assumes ok: "shell_ok sm s" and free: "has_free_fd s" and tr: "transcript s n (input irqs s) = Some (out, rest)"
  shows "\<exists>irqs' s'. shell_start sm n irqs s = Some (Returned ((), irqs') s') \<and>
    screen_of s' = screen_of (fold vga_putchar (concat (map str shell_banner) @ out) s) \<and>
    input irqs' s' = rest \<and> shell_ok sm s' \<and> sh_same s s'"
proof -
  let ?b = "concat (map str shell_banner)"
  have "list_all (\<lambda>t. t \<in> set shell_lits) shell_banner" by (simp add: list_all_iff shell_lits_def)
  note prints_seqs [OF this ok]
  then obtain m where m: "seqs (map (print_lit sm) shell_banner) irqs s = Some (Returned ((), irqs) (puts ?b (s\<lparr>mem := m\<rparr>)))"
    "shell_ok sm (s\<lparr>mem := m\<rparr>)" "sh_same s (s\<lparr>mem := m\<rparr>)" unfolding prints_def by blast
  let ?t = "puts ?b (s\<lparr>mem := m\<rparr>)"
  have t: "shell_ok sm ?t" "sh_same s ?t" "input irqs ?t = input irqs s" using m(2,3) by simp_all
  then have tab: "file_tab ?t = file_tab s" by (simp only: sh_same_def)
  have tr': "transcript ?t n (input irqs ?t) = Some (out, rest)" unfolding transcript_same [OF tab] t(3) by (rule tr)
  obtain irqs' s' where r: "shell_loop sm n irqs ?t = Some (Returned ((), irqs') s')" "screen_of s' = screen_of (puts out ?t)" "input irqs' s' = rest"
    "shell_ok sm s'" "sh_same ?t s'" using shell_loop_transcript [OF t(1) has_free_fd_same [OF t(2) free] tr'] by blast
  have "screen_of (puts (?b @ out) (s\<lparr>mem := m\<rparr>)) = screen_of (puts (?b @ out) s)" by (rule screen_puts) simp
  then have "screen_of s' = screen_of (puts (?b @ out) s)" using r(2) by simp
  moreover have "shell_start sm n irqs s = Some (Returned ((), irqs') s')" using m(1) r(1) by (simp add: shell_start_def seq_def andthen_def)
  ultimately show ?thesis using r(3,4) sh_same_trans [OF t(2) r(5)] by blast
qed

section \<open>A shell with a file\<close>

text \<open>
  The file \<open>a.txt\<close> holding \<open>hello\<close>, the literals one after the other at 0x40000, and
  the arrays from 0x50000 on.
\<close>

definition lits_blob :: "u8 list" where
  "lits_blob = concat (map (\<lambda>t. str t @ [0]) shell_lits)"

definition lit_off :: "string \<Rightarrow> nat" where
  "lit_off t = length (concat (map (\<lambda>t. str t @ [0]) (takeWhile (\<lambda>u. u \<noteq> t) shell_lits)))"

definition sm_demo :: shell_mem where
  "sm_demo = \<lparr>sh_regs = int80_frame 0 0 0 0, lit = (\<lambda>t. 0x40000 + of_nat (lit_off t)), sh_cmd = 0x50000, sh_c = 0x50100, sh_num = 0x50110,
     sh_dir = 0x50200, sh_cat = 0x51000, sh_line = 0x51400, sh_info = 0x51500, sh_ps = 0x51600\<rparr>"

definition fs_hello :: fs_state where
  "fs_hello = snd (ramfs_write 0 0x1000 0 5 fs_file_demo)"

definition sh_demo :: fs_state where
  "sh_demo = fs_hello\<lparr>mem := store_bytes (mem fs_hello) 0x40000 lits_blob\<rparr>"

lemma lits_blob_len: "length lits_blob < 0x1000"
  by (simp add: lits_blob_def length_concat comp_def shell_lits_def shell_banner_def bsl_def quo_def dash_def)

lemma lits_nonzero: "list_all (\<lambda>t. 0 \<notin> set (str t)) shell_lits"
  by (simp add: shell_lits_def shell_banner_def bsl_def quo_def dash_def str_def)

lemma lit_in_blob:
  assumes "t \<in> set shell_lits"
  shows "lit_off t + Suc (length t) \<le> length lits_blob" "take (Suc (length t)) (drop (lit_off t) lits_blob) = str t @ [0]"
proof -
  let ?f = "\<lambda>t. str t @ [0]" and ?pre = "takeWhile (\<lambda>u. u \<noteq> t) shell_lits" and ?post = "dropWhile (\<lambda>u. u \<noteq> t) shell_lits"
  have "?post \<noteq> []" using assms by (auto simp: dropWhile_eq_Nil_conv)
  then obtain r where r: "?post = t # r" using hd_dropWhile [of "\<lambda>u. u \<noteq> t" shell_lits] by (cases ?post) auto
  have "shell_lits = ?pre @ t # r" using takeWhile_dropWhile_id [of "\<lambda>u. u \<noteq> t" shell_lits] r by simp
  then have b: "lits_blob = concat (map ?f ?pre) @ ?f t @ concat (map ?f r)"
    unfolding lits_blob_def by (metis (no_types, lifting) concat.simps(2) concat_append list.simps(9) map_append)
  show "lit_off t + Suc (length t) \<le> length lits_blob" "take (Suc (length t)) (drop (lit_off t) lits_blob) = str t @ [0]"
    unfolding b lit_off_def by simp_all
qed

lemma fs_hello_facts:
  "table_step fs_file_demo fs_hello" "file_tab fs_hello = (file_tab fs_file_demo)[0 := file_write 0 (str ''hello'') (file_tab fs_file_demo ! 0)]"
  "fs_ok fs_hello"
proof -
  have h: "load_bytes (mem fs_file_demo) 0x1000 (min (unat (5 :: u32)) (32768 - unat (0 :: u32))) = str ''hello''"
    using fs_file_demo_facts(6) by (simp del: load_bytes.simps)
  have off: "off_table fs_file_demo 0x1000 (length (str ''hello''))" by (rule fs_file_demo_off) simp
  have pre: "0 < RAMFS_MAX_FILES" "unat (0 :: u32) \<le> 32768" "unat (0 :: u32) + unat (5 :: u32) < 2 ^ 32" by (simp_all add: ramfs_consts)
  obtain s' where s': "ramfs_write (of_nat 0) 0x1000 0 5 fs_file_demo = (of_nat (length (str ''hello'')), s')"
    "file_tab s' = (file_tab fs_file_demo)[0 := file_write (unat (0 :: u32)) (str ''hello'') (file_tab fs_file_demo ! 0)]" "table_step fs_file_demo s'"
    using ramfs_write_spec [OF fs_file_demo_facts(1) pre(1) fs_file_demo_facts(3) pre(2,3), of "0x1000", unfolded h] off by blast
  have e: "fs_hello = s'" using s'(1) by (simp add: fs_hello_def)
  show t: "table_step fs_file_demo fs_hello" and f: "file_tab fs_hello = (file_tab fs_file_demo)[0 := file_write 0 (str ''hello'') (file_tab fs_file_demo ! 0)]"
    using s'(2,3) unfolding e unat_0 by blast+
  have "tab_ok (file_tab fs_hello)" unfolding f using fs_file_demo_facts(1,3) by (intro file_write_ok) (simp_all add: fs_ok_def ramfs_consts del: nth_file_tab)
  then show "fs_ok fs_hello" using fs_file_demo_facts(1) by (simp add: fs_ok_def table_step_fields [OF t])
qed

lemma sh_demo_state:
  "files_addr sh_demo = 0x300000" "current sh_demo = 0x80000" "mounted_fs sh_demo = Some Ramfs_ops" "file_tab sh_demo = file_tab fs_hello"
  "kbd_inv sh_demo" "handlers_set sh_demo" "ticks_per_second sh_demo = 100" "input irqs sh_demo = input irqs fs_file_demo"
proof -
  have e: "fs_hello = fs_file_demo\<lparr>mem := mem fs_hello\<rparr>" by (rule table_step_eq [OF fs_hello_facts(1)])
  have d: "sh_demo = fs_file_demo\<lparr>mem := mem sh_demo\<rparr>" unfolding sh_demo_def by (subst e) simp
  show "files_addr sh_demo = 0x300000" "current sh_demo = 0x80000" "mounted_fs sh_demo = Some Ramfs_ops"
    "kbd_inv sh_demo" "handlers_set sh_demo" "ticks_per_second sh_demo = 100" "input irqs sh_demo = input irqs fs_file_demo"
    using fs_file_demo_facts fs_file_demo_proc fs_file_demo_io by (subst d, simp)+
  have a: "files_addr fs_hello = 0x300000" using fs_file_demo_facts(5) by (simp add: table_step_fields [OF fs_hello_facts(1)])
  show "file_tab sh_demo = file_tab fs_hello" unfolding sh_demo_def
    using lits_blob_len fs_hello_facts(3) by (intro file_tab_frame) (auto simp: fs_ok_def a intro!: store_bytes_other)
qed

lemma sh_demo_range: "unat p + n \<le> 0x80000 \<Longrightarrow> user_range sh_demo p n"
  by (simp add: user_range_def off_table_def sh_demo_state apart_ranges_def ramfs_consts)

lemma sh_demo_lit:
  assumes "t \<in> set shell_lits"
  shows "str_at (mem sh_demo) (lit sm_demo t) (str t)" "0x40000 \<le> unat (lit sm_demo t)" "unat (lit sm_demo t) + Suc (length t) \<le> 0x41000"
proof -
  note b = lit_in_blob [OF assms] and n = lits_blob_len
  have u: "unat (of_nat (lit_off t) :: u32) = lit_off t" using b(1) n by (intro unat_of_nat32) simp
  have a: "unat (lit sm_demo t) = 0x40000 + lit_off t" using b(1) n u by (simp add: sm_demo_def unat_word_ariths)
  then show "0x40000 \<le> unat (lit sm_demo t)" "unat (lit sm_demo t) + Suc (length t) \<le> 0x41000" using b(1) n by simp_all
  have "load_bytes (mem sh_demo) (0x40000 + of_nat (lit_off t)) (Suc (length t)) = take (Suc (length t)) (drop (lit_off t) (load_bytes (mem sh_demo) 0x40000 (length lits_blob)))"
    using b(1) by (rule load_bytes_sub)
  also have "load_bytes (mem sh_demo) 0x40000 (length lits_blob) = lits_blob" unfolding sh_demo_def using n by (simp add: load_store_bytes)
  finally show "str_at (mem sh_demo) (lit sm_demo t) (str t)" using b(2) lits_nonzero assms
    by (simp add: str_at_load sm_demo_def list_all_iff del: load_bytes.simps)
qed

lemma sh_demo_ok: "shell_ok sm_demo sh_demo" "has_free_fd sh_demo"
proof -
  have bufs: "(\<forall>(p, n) \<in> set (sh_bufs sm_demo). 0x50000 \<le> unat p \<and> unat p + n \<le> 0x52000) \<and>
    (\<forall>(p, n) \<in> set (tl (sh_bufs sm_demo)). apart_ranges (sh_cmd sm_demo) 256 p n) \<and>
    (\<forall>(p, n) \<in> {(sh_dir sm_demo, 2176), (sh_info sm_demo, 12), (sh_ps sm_demo, 256)}. apart_ranges (sh_num sm_demo) 16 p n)"
    by (simp add: sh_bufs_def sm_demo_def apart_ranges_def)
  have "user_range sh_demo p n \<and> (\<forall>t \<in> set shell_lits. apart_ranges p n (lit sm_demo t) (Suc (length t)))" if "(p, n) \<in> set (sh_bufs sm_demo)" for p n
  proof -
    have "0x50000 \<le> unat p" "unat p + n \<le> 0x52000" using bufs that by auto
    then show ?thesis using sh_demo_lit(2,3) by (fastforce simp: apart_ranges_def intro!: sh_demo_range)
  qed
  moreover have "user_range sh_demo (lit sm_demo t) (Suc (length t))" if "t \<in> set shell_lits" for t
    using sh_demo_lit(3) [OF that] by (intro sh_demo_range) simp
  moreover have "sh_info sm_demo \<noteq> 0" by (simp add: sm_demo_def)
  ultimately have fit: "shell_fit sm_demo sh_demo" unfolding shell_fit_def using bufs by blast
  have "fs_ok sh_demo" using fs_hello_facts(3) sh_demo_state(1,4) table_step_fields(1) [OF fs_hello_facts(1)] fs_file_demo_facts(5) by (simp add: fs_ok_def)
  moreover have "pcb_ok sh_demo" using sh_demo_state(1,2) by (simp add: pcb_ok_def off_table_def apart_ranges_def ramfs_consts)
  ultimately show "shell_ok sm_demo sh_demo" using fit sh_demo_state sh_demo_lit(1) by (simp add: shell_ok_def)
  have "mem sh_demo 0x8004C = mem fs_hello 0x8004C" unfolding sh_demo_def using lits_blob_len by (simp add: store_bytes_other)
  also have "\<dots> = mem fs_file_demo 0x8004C" using table_step_out [OF fs_hello_facts(1) fs_file_demo_off [of "0x8004C" 1]] by simp
  also have "\<dots> = 0" using fs_file_demo_fd by (simp add: fd_in_use_def fd_addr_def fs_file_demo_proc)
  finally have "fd_in_use (mem sh_demo) (current sh_demo) (of_nat 3) = 0" by (simp add: fd_in_use_def fd_addr_def sh_demo_state)
  then show "has_free_fd sh_demo" unfolding has_free_fd_def by (intro bexI [of _ 3]) (simp_all add: MAX_FDS_def)
qed

lemma sh_demo_file: "tab_find (str ''a.txt'') (file_tab sh_demo) = Some 0" "file_content (file_tab sh_demo ! 0) = str ''hello''"
proof -
  have len: "length (file_tab fs_file_demo) = Suc 63" by (simp add: ramfs_consts)
  have t: "file_tab sh_demo ! 0 = file_write 0 (str ''hello'') (file_tab fs_file_demo ! 0)"
    unfolding sh_demo_state(4) fs_hello_facts(2) by (rule nth_list_update_eq) (simp add: ramfs_consts)
  show "file_content (file_tab sh_demo ! 0) = str ''hello''"
    unfolding t using fs_file_demo_facts(4) by (simp add: file_write_def file_content_def del: nth_file_tab)
  have "rf_used (file_tab fs_file_demo ! 0) \<and> rf_name (file_tab fs_file_demo ! 0) = str ''a.txt''"
    using fs_file_demo_step(2) unfolding tab_find_def by (auto simp: find_Some_iff del: notI simp del: nth_file_tab)
  then show "tab_find (str ''a.txt'') (file_tab sh_demo) = Some 0"
    unfolding tab_find_def using t by (simp add: ramfs_consts upt_conv_Cons file_write_def del: nth_file_tab)
qed

text \<open>The keys of \<open>cat a.txt\<close>, of \<open>echo hi\<close> with a letter corrected, and of a line typed ahead.\<close>

definition demo_keys :: "hw_irq list" where
  "demo_keys = map Irq_key [0x2E, 0x1E, 0x14, 0x39, 0x1E, 0x34, 0x14, 0x2D, 0x14, 0x1C, 0x12, 0x2E, 0x23, 0x18, 0x39, 0x23, 0x18, 0x0E, 0x17, 0x1C, 0x26, 0x1F]"

lemma demo_input: "input demo_keys sh_demo = str ''cat a.txt'' @ [0x0A] @ str ''echo ho'' @ [0x08] @ str ''i'' @ [0x0A] @ str ''ls''"
proof -
  have "typed 0 demo_keys = str ''cat a.txt'' @ [0x0A] @ str ''echo ho'' @ [0x08] @ str ''i'' @ [0x0A] @ str ''ls''" by code_simp
  then show ?thesis by (simp add: sh_demo_state fs_file_demo_io)
qed

lemma demo_lines:
  "edit 255 [] (input demo_keys sh_demo) = Some (str ''cat a.txt'', str ''echo ho'' @ [0x08] @ str ''i'' @ [0x0A] @ str ''ls'', str ''cat a.txt'' @ [0x0A])"
  "edit 255 [] (str ''echo ho'' @ [0x08] @ str ''i'' @ [0x0A] @ str ''ls'') =
     Some (str ''echo hi'', str ''ls'', str ''echo ho'' @ [0x08, 0x20, 0x08] @ str ''i'' @ [0x0A])"
  unfolding demo_input by (simp_all add: str_def)

lemma demo_plain: "plain_line (str ''cat a.txt'')" "plain_line (str ''echo hi'')"
  by (simp_all add: plain_line_def other_cmds_def str_def)

lemma demo_replies: "shell_reply sh_demo (str ''cat a.txt'') = str ''hello''" "shell_reply sh_demo (str ''echo hi'') = str ''hi'' @ [0x0A]"
proof -
  have l: "str ''cat a.txt'' \<noteq> str ''help''" "str ''cat a.txt'' \<noteq> str ''ls''" "take 4 (str ''cat a.txt'') = str ''cat ''"
    "drop 4 (str ''cat a.txt'') = str ''a.txt''" "str ''a.txt'' \<noteq> []" by (simp_all add: str_def)
  show "shell_reply sh_demo (str ''cat a.txt'') = str ''hello''"
    unfolding shell_reply_def cat_text_def l(3,4) if_not_P [OF l(1)] if_not_P [OF l(2)] if_not_P [OF l(5)] sh_demo_file by (simp add: sh_demo_file(2) del: nth_file_tab)
  show "shell_reply sh_demo (str ''echo hi'') = str ''hi'' @ [0x0A]" by (simp add: shell_reply_def str_def)
qed

theorem readline_edits_witness:
  "\<exists>irqs' s'. readline sm_demo (sh_cmd sm_demo) CMD_BUF_SIZE demo_keys sh_demo = Some (Returned (9, irqs') s') \<and>
     load_bytes (mem s') (sh_cmd sm_demo) 10 = str ''cat a.txt'' @ [0] \<and> length (input irqs' s') = 12"
proof -
  have l: "length (str ''cat a.txt'') = 9" "Suc 9 = 10" by simp_all
  show ?thesis using readline_edits [OF sh_demo_ok(1) demo_lines(1)] unfolding l of_nat_numeral by (auto simp del: load_bytes.simps)
qed


theorem shell_session_witness:
  "\<exists>irqs' s'. shell_start sm_demo 2 demo_keys sh_demo = Some (Returned ((), irqs') s') \<and>
     screen_of s' = screen_of (fold vga_putchar (concat (map str shell_banner) @ prompt @ str ''cat a.txt'' @ [0x0A] @ str ''hello'' @
       prompt @ str ''echo ho'' @ [0x08, 0x20, 0x08] @ str ''i'' @ [0x0A] @ str ''hi'' @ [0x0A]) sh_demo) \<and> input irqs' s' = str ''ls''"
proof -
  have ne: "str ''cat a.txt'' \<noteq> []" "str ''echo hi'' \<noteq> []" by (simp_all add: str_def)
  have t: "transcript sh_demo (Suc (Suc 0)) (input demo_keys sh_demo) = Some (prompt @ (str ''cat a.txt'' @ [0x0A]) @ str ''hello'' @
       prompt @ (str ''echo ho'' @ [0x08, 0x20, 0x08] @ str ''i'' @ [0x0A]) @ (str ''hi'' @ [0x0A]) @ [], str ''ls'')"
    unfolding transcript.simps demo_lines option.case prod.case if_P [OF demo_plain(1)] if_P [OF demo_plain(2)] if_not_P [OF ne(1)] if_not_P [OF ne(2)]
      demo_replies option.map prod.case by (rule refl)
  show ?thesis using shell_session [OF sh_demo_ok t] unfolding Suc_1 [symmetric] One_nat_def append_assoc append_Nil2 by blast
qed

end
