(* ===== verification/Exec_laws.thy ===== *)
theory Exec_laws
  imports Exec Shell_laws
begin

text \<open>
  The claim on \<open>exec\<close>: when it succeeds, what it leaves in memory and in the run queue, and that a
  failure changes nothing.
\<close>

lemma heap_next_pid [simp]:
  fixes s :: "'a proc_state_scheme"
  shows "heap_inv (s\<lparr>next_pid := i\<rparr>) = heap_inv s" "heap_live (s\<lparr>next_pid := i\<rparr>) = heap_live s" "exec_keeps (s\<lparr>next_pid := i\<rparr>) m = exec_keeps s m"
proof -
  show h: "heap_inv (s\<lparr>next_pid := i\<rparr>) = heap_inv s" "heap_live (s\<lparr>next_pid := i\<rparr>) = heap_live s" by (rule heap_same; simp)+
  show "exec_keeps (s\<lparr>next_pid := i\<rparr>) m = exec_keeps s m" by (simp add: exec_keeps_def h)
qed

lemma exec_ready_pid: "exec_ready fn nm ps (s\<lparr>next_pid := i\<rparr>) = exec_ready fn nm ps s"
proof -
  have "fs_ok (s\<lparr>next_pid := i\<rparr>) = fs_ok s" by (rule fs_ok_cong) simp_all
  then show ?thesis by (simp add: exec_ready_def off_table_def queue_def)
qed

lemma exec_ready_pcb:
  assumes "exec_ready fn nm ps s" and "q \<in> set ps"
  obtains n where "416 \<le> n" "(unat q, n) \<in> heap_live s"
proof -
  have "\<forall>q \<in> set ps. \<exists>n \<ge> 416. (unat q, n) \<in> heap_live s" using assms(1) by (simp add: exec_ready_def)
  then show ?thesis using that assms(2) by blast
qed

lemma apart_sub: "apart a n b k \<Longrightarrow> i \<le> n \<Longrightarrow> j \<le> k \<Longrightarrow> apart a i b j"
  by (auto simp: apart_def)

text \<open>Where a PCB \<open>q\<close> and a stack \<open>ks\<close> of the heap lie.\<close>

definition in_heap :: "'a heap_state_scheme \<Rightarrow> u32 \<Rightarrow> nat \<Rightarrow> bool" where
  "in_heap s q n \<longleftrightarrow> heap_base s \<le> unat q \<and> unat q + n \<le> heap_top s"

lemma heap_block_in: "heap_inv s \<Longrightarrow> (unat q, n) \<in> heap_live s \<Longrightarrow> k \<le> n \<Longrightarrow> in_heap s q k"
  using heap_live_gap [of s "unat q" n] by (simp add: in_heap_def)

text \<open>The new process, before it enters the queue.\<close>

definition spawned :: "u32 \<Rightarrow> cstr \<Rightarrow> u32 \<Rightarrow> u32 list \<Rightarrow> u32 \<Rightarrow> u32 \<Rightarrow> 'a fs_state_scheme \<Rightarrow> 'a fs_state_scheme \<Rightarrow> bool" where
  "spawned fn nm tramp ps p ks t t2 \<longleftrightarrow>
     process_ready (mem t2) p ks (next_pid t) (kernel_dir t) [0, 0, 0, 0, kthread_entry t, tramp] \<and>
     (\<forall>fd. unat fd < MAX_FDS \<longrightarrow> fd_in_use (mem t2) p fd = (if unat fd < 3 then 1 else 0) \<and> fd_file_idx (mem t2) p fd = -1) \<and>
     in_heap t p 416 \<and> in_heap t ks 8192 \<and> apart (unat p) 416 (unat ks) 8192 \<and> pcbs_ok (p # ps) \<and>
     (\<forall>q \<in> set ps. in_heap t q 416 \<and> apart (unat q) 416 (unat ks) 8192 \<and> (\<forall>f. pget (mem t2) q f = pget (mem t) q f) \<and>
        (\<forall>x. unat q \<le> unat x \<and> unat x < unat q + 416 \<longrightarrow> mem t2 x = mem t x)) \<and>
     queue t2 ps \<and> str_at (mem t2) fn nm \<and> file_tab t2 = file_tab t \<and> fs_ok t2 \<and> current t2 = current t \<and> next_pid t2 = next_pid t + 1 \<and>
     files_addr t2 = files_addr t \<and> (\<forall>x. heap_top t \<le> unat x \<longrightarrow> mem t2 x = mem t x)"

lemma process_ready_cong:
  assumes r: "process_ready m p ks pid dir fr" and k: "unat ks + 8192 \<le> 2 ^ 32" and fr: "4 * length fr \<le> 8192"
    and pg: "\<And>f. f \<noteq> Next \<Longrightarrow> pget m' p f = pget m p f" and out: "\<And>x. unat ks \<le> unat x \<Longrightarrow> unat x < unat ks + 8192 \<Longrightarrow> m' x = m x"
  shows "process_ready m' p ks pid dir fr"
proof -
  have "load32 m' (of_nat (unat ks + 8192 - 4 * length fr + 4 * i)) = load32 m (of_nat (unat ks + 8192 - 4 * length fr + 4 * i))" if "i < length fr" for i
  proof -
    have u: "unat (of_nat (unat ks + 8192 - 4 * length fr + 4 * i) :: u32) = unat ks + 8192 - 4 * length fr + 4 * i"
      using k that fr by (intro unat_of_nat32) simp
    show ?thesis by (rule load32_cong) (use u k that fr in \<open>auto intro!: out\<close>)
  qed
  then show ?thesis using r by (simp add: process_ready_def pg)
qed

lemma exec_create:
  fixes t :: "'a fs_state_scheme"
  assumes r: "exec_ready fn nm ps t" and rel: "heap_rel t bs" and room: "(i, False) \<in> set bs" "8624 \<le> i"
  obtains p t1 ks where "process_create tramp t = Some (p, t1)" "p \<noteq> 0" "spawned fn nm tramp ps p ks t (upd_mem (fd_table_init p) t1)"
proof -
  let ?fr = "[0, 0, 0, 0, kthread_entry t, tramp]"
  have inv: "heap_inv t" using rel by (auto simp: heap_inv_def)
  have top: "heap_top t \<le> 0x600000" using r by (simp add: exec_ready_def USER_LOAD_ADDR_def)
  obtain p t1 where p: "process_create tramp t = Some (p, t1)" "p \<noteq> 0" "created (kernel_dir t) ?fr p t t1"
    using process_create_frame [OF rel, of tramp] room by (fastforce split: if_splits)
  obtain ks n k where c: "heap_inv t1" "heap_live t1 = insert (unat p, n) (insert (unat ks, k) (heap_live t))" "(unat p, n) \<notin> heap_live t"
    "(unat ks, k) \<notin> heap_live t" "416 \<le> n" "8192 \<le> k" "apart (unat p) n (unat ks) k" "mem_frame (heap_base t) (heap_top t) (heap_live t) (mem t) (mem t1)"
    "process_ready (mem t1) p ks (next_pid t) (kernel_dir t) ?fr" "next_pid t1 = next_pid t + 1" using p(3) unfolding created_def by blast
  obtain j where st: "heap_step (t\<lparr>next_pid := j\<rparr>) t1" by (rule process_create_step [OF p(1)])
  note hf = heap_step_fields(1,2) [OF st, simplified]
  have pl: "(unat p, n) \<in> heap_live t1" and kl: "(unat ks, k) \<in> heap_live t1" using c(2) by simp_all
  have ih: "in_heap t p 416" "in_heap t ks 8192" "in_heap t p n"
    using heap_block_in [OF c(1) pl c(5)] heap_block_in [OF c(1) kl c(6)] heap_block_in [OF c(1) pl order.refl] hf by (simp_all add: in_heap_def)
  have fit: "unat p + 416 \<le> 2 ^ 32" "unat ks + 8192 \<le> 2 ^ 32" using ih(1,2) heap_top_bound [of t] by (simp_all add: in_heap_def)
  have ap: "apart (unat p) 416 (unat ks) 8192" using apart_sub [OF c(7,5,6)] .
  have qs: "in_heap t q 416 \<and> apart (unat q) 416 (unat ks) 8192 \<and> apart (unat p) n (unat q) 416" if qp: "q \<in> set ps" for q
  proof -
    obtain nq where nq: "416 \<le> nq" "(unat q, nq) \<in> heap_live t" by (rule exec_ready_pcb [OF r qp])
    have ql: "(unat q, nq) \<in> heap_live t1" and ne: "(unat q, nq) \<noteq> (unat ks, k)" "(unat p, n) \<noteq> (unat q, nq)" using nq(2) c(2-4) by auto
    have a: "apart (unat q) nq (unat ks) k" "apart (unat p) n (unat q) nq"
      using kheap.apart [OF c(1) ql kl ne(1)] kheap.apart [OF c(1) pl ql ne(2)] by (simp_all add: apart_def)
    show ?thesis using heap_block_in [OF inv nq(2,1)] apart_sub [OF a(1) nq(1) c(6)] apart_sub [OF a(2) order.refl nq(1)] by blast
  qed
  let ?m = "fd_table_init p (mem t1)" and ?t = "t\<lparr>next_pid := j\<rparr>"
  note fd = fd_table_init_spec [OF fit(1), of _ "mem t1"]
  have out: "?m x = mem t1 x" if "unat x < unat p \<or> unat p + n \<le> unat x" for x using that c(5) by (intro fd(1)) auto
  have ga: "\<forall>(q, i) \<in> heap_live t. unat p + n \<le> q \<or> q + i \<le> unat p"
  proof (intro ballI, clarify)
    fix q i assume "(q, i) \<in> heap_live t" "\<not> q + i \<le> unat p"
    then show "unat p + n \<le> q" using kheap.apart [OF c(1) pl, of q i] c(2,3) by auto
  qed
  have "exec_keeps t ?m" by (rule kept_store [OF kept_frame [OF c(8) kept_same] out _ top inv]) (use ih(3) ga in \<open>auto simp: in_heap_def\<close>)
  then have k: "exec_keeps ?t (mem (t1\<lparr>mem := ?m\<rparr>))" by simp
  note ks = kept_state [OF exec_ready_pid [THEN iffD2, OF r] heap_step_trans [OF st heap_step_mem] k]
  have pg: "pget ?m q f = pget (mem t) q f" if "q \<in> set ps" for q f
    by (rule exec_ready_pcb [OF r that]) (rule kept_pget [OF \<open>exec_keeps t ?m\<close> _ _ inv])
  have blk: "?m x = mem t x" if "q \<in> set ps" "unat q \<le> unat x" "unat x < unat q + 416" for q x
    by (rule exec_ready_pcb [OF r that(1)]) (rule kept_block [OF \<open>exec_keeps t ?m\<close> _ _ that(2,3)])
  have "pcbs_ok ps" using r by (auto simp: exec_ready_def queue_def ring_def pcbs_ok_def split: if_splits)
  moreover have "p \<notin> set ps" using qs c(5) by (fastforce simp: apart_def)
  ultimately have ok: "pcbs_ok (p # ps)" using qs p(2) fit(1) c(5) by (fastforce simp: pcbs_ok_def apart_def)
  have tab: "file_tab ?t = file_tab t" by (rule file_tab_cong) simp_all
  have fa: "files_addr t1 = files_addr t" using st by (auto simp: heap_step_def)
  have hi: "?m x = mem t x" if "heap_top t \<le> unat x" for x using that out [of x] ih(3) mem_frame_out [OF c(8), of x] by (simp add: in_heap_def)
  have "process_ready ?m p ks (next_pid t) (kernel_dir t) ?fr"
    by (rule process_ready_cong [OF c(9) fit(2)]) (use fd(1) ap in \<open>auto simp: apart_def intro!: pget_frame [OF _ fit(1)]\<close>)
  then have "spawned fn nm tramp ps p ks t (t1\<lparr>mem := ?m\<rparr>)" unfolding spawned_def
    using fd(2) ih(1,2) ap ok qs pg blk ks(1-4,6) tab c(10) fa hi by simp
  then show ?thesis using that p by blast
qed

lemma scheduler_add_self:
  fixes s :: "'a sched_state_scheme"
  assumes "queue s ps" and ok: "pcbs_ok (p # ps)" and f: "f \<noteq> State" "f \<noteq> Next"
  shows "pget (mem (scheduler_add p s)) p f = pget (mem s) p f"
proof -
  have p: "p \<noteq> 0" using ok by (simp add: pcbs_ok_def)
  have "run_queue s \<in> set (p # ps)" if "run_queue s \<noteq> 0" using that assms(1) by (auto simp: queue_def split: if_splits)
  then show ?thesis using p f by (simp add: scheduler_add_def Let_def pget_pset_ok [OF ok])
qed

lemma exec_enqueue:
  fixes t t2 :: "'a fs_state_scheme"
  assumes r: "exec_ready fn nm ps t" and sp: "spawned fn nm tramp ps p ks t t2"
    and c: "load_bytes (mem t) USER_LOAD_ADDR (length c) = c" "length c \<le> 32768"
  shows "exec_loaded tramp c ps p t (scheduler_add p t2)" "str_at (mem (scheduler_add p t2)) fn nm"
proof -
  let ?s = "scheduler_add p t2" and ?fr = "[0, 0, 0, 0, kthread_entry t, tramp]"
  have t2: "process_ready (mem t2) p ks (next_pid t) (kernel_dir t) ?fr" "queue t2 ps" "pcbs_ok (p # ps)" "str_at (mem t2) fn nm" "fs_ok t2"
    "file_tab t2 = file_tab t" "current t2 = current t" "next_pid t2 = next_pid t + 1" "files_addr t2 = files_addr t"
    "in_heap t p 416" "in_heap t ks 8192" "apart (unat p) 416 (unat ks) 8192"
    "\<forall>fd. unat fd < MAX_FDS \<longrightarrow> fd_in_use (mem t2) p fd = (if unat fd < 3 then 1 else 0) \<and> fd_file_idx (mem t2) p fd = -1"
    "\<forall>q \<in> set ps. in_heap t q 416 \<and> apart (unat q) 416 (unat ks) 8192 \<and> (\<forall>f. pget (mem t2) q f = pget (mem t) q f) \<and>
      (\<forall>x. unat q \<le> unat x \<and> unat x < unat q + 416 \<longrightarrow> mem t2 x = mem t x)"
    "\<forall>x. heap_top t \<le> unat x \<longrightarrow> mem t2 x = mem t x" using sp by (simp_all add: spawned_def)
  have rq: "run_queue t2 \<noteq> 0 \<Longrightarrow> run_queue t2 \<in> set ps" using t2(2) by (auto simp: queue_def split: if_splits)
  have hb: "heap_top t < 2 ^ 32" by (rule heap_top_bound)
  have p: "unat p + 416 \<le> 2 ^ 32" "unat ks + 8192 \<le> 2 ^ 32" using t2(10,11) hb by (simp_all add: in_heap_def)
  have rqf: "unat (run_queue t2) + 416 \<le> 2 ^ 32" if "run_queue t2 \<noteq> 0" using t2(14) rq [OF that] hb by (auto simp: in_heap_def)
  have out: "mem ?s x = mem t2 x" if "unat x < unat p \<or> unat p + 32 \<le> unat x" "\<forall>q \<in> set ps. unat x < unat q \<or> unat q + 32 \<le> unat x" for x
    using that rq by (intro scheduler_add_out p(1) rqf) auto
  have off: "mem ?s x = mem t2 x" if "unat x < heap_base t \<or> heap_top t \<le> unat x" for x
    using that t2(10,14) by (intro out) (auto simp: in_heap_def)
  have qp: "apart (unat p) 416 (unat q) 416" if "q \<in> set ps" for q using t2(3) that by (auto simp: pcbs_ok_def)
  note q = scheduler_add_queue [OF t2(2,3)]
  have pg: "pget (mem ?s) p f = pget (mem t2) p f" if "f \<noteq> Next" for f
    using that q(2) t2(1) scheduler_add_self [OF t2(2,3), of f] by (cases "f = State") (auto simp: process_ready_def)
  have ready: "process_ready (mem ?s) p ks (next_pid t) (kernel_dir t) ?fr"
    by (rule process_ready_cong [OF t2(1) p(2) _ pg]) (use t2(12,14) in \<open>auto simp: apart_def intro!: out\<close>)
  have fds: "fd_in_use (mem ?s) p fd = (if unat fd < 3 then 1 else 0) \<and> fd_file_idx (mem ?s) p fd = -1" if fd: "unat fd < MAX_FDS" for fd
  proof -
    have "mem ?s x = mem t2 x" if x: "unat p + 32 + 12 * unat fd \<le> unat x" "unat x < unat p + 44 + 12 * unat fd" for x
      using x fd qp by (intro out) (fastforce simp: apart_def MAX_FDS_def)+
    from fd_fields_cong [OF p(1) fd this] show ?thesis using t2(13) fd by simp
  qed
  have e: "off_table t (heap_start_addr t) (heap_top t - heap_base t)" "heap_base t \<le> heap_top t" "heap_top t \<le> 0x600000" "unat fn + Suc (length nm) \<le> heap_base t"
    using r t2(10) by (auto simp: exec_ready_def USER_LOAD_ADDR_def in_heap_def)
  have "file_tab (t2\<lparr>mem := mem ?s\<rparr>) = file_tab t2"
    using t2(5,9) e(1,2) off by (intro file_tab_frame) (auto simp: fs_ok_def off_table_def apart_ranges_def)
  then have tab: "file_tab ?s = file_tab t" using file_tab_cong [of ?s "t2\<lparr>mem := mem ?s\<rparr>"] t2(6) by simp
  have "load_bytes (mem ?s) USER_LOAD_ADDR (length c) = load_bytes (mem t) USER_LOAD_ADDR (length c)"
    using c(2) e(3) off t2(15) by (intro load_bytes_cong) (auto simp: USER_LOAD_ADDR_def)
  then have ld: "load_bytes (mem ?s) USER_LOAD_ADDR (length c) = c" using c(1) by simp
  have "load_bytes (mem ?s) fn (Suc (length nm)) = load_bytes (mem t2) fn (Suc (length nm))"
    using e(4,2) hb off by (intro load_bytes_cong) auto
  then show "str_at (mem ?s) fn nm" using t2(4) by (simp add: str_at_load del: load_bytes.simps)
  have pn: "p \<notin> set ps" using t2(3) by (simp add: pcbs_ok_def)
  have "fs_ok ?s" using t2(5,6) tab by (simp add: fs_ok_def)
  moreover have "\<forall>q \<in> set ps. \<forall>f. f \<noteq> Next \<longrightarrow> pget (mem ?s) q f = pget (mem t) q f" using q(3) t2(14) by auto
  moreover have "\<forall>q \<in> set ps. \<forall>x. unat q + 32 \<le> unat x \<and> unat x < unat q + 416 \<longrightarrow> mem ?s x = mem t x"
  proof (intro ballI allI impI)
    fix q x :: u32 assume q: "q \<in> set ps" and x: "unat q + 32 \<le> unat x \<and> unat x < unat q + 416"
    have "r = q \<or> apart (unat r) 416 (unat q) 416" if "r \<in> set (p # ps)" for r using t2(3) that q unfolding pcbs_ok_def by auto
    then have "mem ?s x = mem t2 x" using x qp [OF q] by (intro out) (fastforce simp: apart_def)+
    then show "mem ?s x = mem t x" using t2(14) q x by auto
  qed
  ultimately show "exec_loaded tramp c ps p t ?s" unfolding exec_loaded_def using ld q(1) pn ready fds tab t2(7,8) by auto
qed

lemma exec_spawn_ok:
  fixes t :: "'a fs_state_scheme"
  assumes r: "exec_ready fn nm ps t" and rel: "heap_rel t bs" and room: "(i, False) \<in> set bs" "8624 \<le> i"
    and c: "load_bytes (mem t) USER_LOAD_ADDR (length c) = c" "length c \<le> 32768"
  shows "\<exists>p s'. exec_spawn tramp fn z t = Some (p, s') \<and> p \<noteq> 0 \<and> exec_loaded tramp c ps p t s'"
proof -
  obtain p t1 ks where p: "process_create tramp t = Some (p, t1)" "p \<noteq> 0" "spawned fn nm tramp ps p ks t (upd_mem (fd_table_init p) t1)"
    by (rule exec_create [OF r rel room])
  let ?s = "scheduler_add p (upd_mem (fd_table_init p) t1)"
  note e = exec_enqueue [OF r p(3) c]
  have loaded: "exec_loaded tramp c ps p t (kprintf fmt args ?s)" for fmt args
  proof -
    have "file_tab (kprintf fmt args ?s) = file_tab ?s" "fs_ok (kprintf fmt args ?s) = fs_ok ?s" by (intro file_tab_cong fs_ok_cong; simp)+
    moreover have f: "mem (kprintf fmt args ?s) = mem ?s" "run_queue (kprintf fmt args ?s) = run_queue ?s"
      "current (kprintf fmt args ?s) = current ?s" "next_pid (kprintf fmt args ?s) = next_pid ?s" using heap_step_ops(4) [of ?s fmt args] by (auto simp: heap_step_def)
    ultimately show ?thesis using e(1) by (simp add: exec_loaded_def queue_def f)
  qed
  have "exec_spawn tramp fn z t = Some (p, kprintf (''[EXEC] Loaded '' @ quo @ ''%s'' @ quo @ '' (%d bytes) as PID %u at 0x%x\<newline>'')
      [AStr (Some nm), AWord z, AWord (pget (mem ?s) p Pid), AWord USER_LOAD_ADDR] ?s)"
    unfolding exec_spawn_def Let_def using p(1,2) c_string_at [OF e(2)] by (simp add: print_name_def)
  then show ?thesis using p(2) loaded by blast
qed

lemma exec_loaded_start:
  fixes s t :: "'a fs_state_scheme"
  assumes r: "exec_ready fn nm ps s" and st: "heap_step s t" and k: "exec_keeps s (mem t)" and l: "exec_loaded tramp c ps p t s'"
  shows "exec_loaded tramp c ps p s s'"
proof -
  have inv: "heap_inv s" using r by (simp add: exec_ready_def)
  have "mem t x = mem s x" if "q \<in> set ps" "unat q \<le> unat x" "unat x < unat q + 416" for q x
    by (rule exec_ready_pcb [OF r that(1)]) (rule kept_block [OF k _ _ that(2,3)])
  moreover have "pget (mem t) q f = pget (mem s) q f" if q: "q \<in> set ps" for q f
    by (rule exec_ready_pcb [OF r q]) (rule kept_pget [OF k _ _ inv])
  ultimately show ?thesis using l kept_state [OF r st k] heap_step_fields(4) [OF st] heap_step_proc_fields(1,2) [OF st] by (simp add: exec_loaded_def)
qed

text \<open>A failed \<open>exec\<close>: everything as before, but for the message on the screen.\<close>

definition exec_undone :: "u32 \<Rightarrow> cstr \<Rightarrow> u32 list \<Rightarrow> 'a fs_state_scheme \<Rightarrow> 'a fs_state_scheme \<Rightarrow> bool" where
  "exec_undone fn nm ps s s' \<longleftrightarrow> exec_ready fn nm ps s' \<and> heap_live s' = heap_live s \<and> file_tab s' = file_tab s \<and> next_pid s' = next_pid s"

lemma exec_undoneI:
  fixes s s' :: "'a fs_state_scheme"
  assumes r: "exec_ready fn nm ps s" and st: "heap_step s s'" and k: "exec_keeps s (mem s')" and h: "heap_inv s'" "heap_live s' = heap_live s"
  shows "exec_undone fn nm ps s s'"
  using exec_ready_keep [OF assms] kept_state(1) [OF r st k] h(2) heap_step_proc_fields(1) [OF st] by (simp add: exec_undone_def)

lemma exec_missing:
  fixes s :: "'a fs_state_scheme"
  assumes r: "exec_ready fn nm ps s" and f: "tab_find nm (file_tab s) = None"
  shows "\<exists>s'. exec tramp fn s = Some (0, s') \<and> exec_undone fn nm ps s s'"
proof -
  let ?s = "kprintf ''[EXEC] File not found: %s\<newline>'' [AStr (Some nm)] s"
  have "exec tramp fn s = Some (0, ?s)" unfolding exec_def using exec_openD [OF r] f by simp
  moreover have "exec_undone fn nm ps s ?s" using r by (intro exec_undoneI heap_step_ops(4)) (simp_all add: exec_ready_def kept_same)
  ultimately show ?thesis by blast
qed

text \<open>From the filled buffer to the program in place and the buffer freed.\<close>

lemma exec_copy:
  fixes s t :: "'a fs_state_scheme"
  assumes r: "exec_ready fn nm ps s" and t: "heap_inv t" "heap_live t = insert (unat p, n) (heap_live s)" "(unat p, n) \<notin> heap_live s" "32768 \<le> n"
      "exec_keeps s (mem t)" "load_bytes (mem t) p (length c) = c" "heap_step s t" "length c \<le> 32768" "unat p + n \<le> heap_top s"
  defines "u \<equiv> kfree p (upd_mem (mem_copy_exec USER_LOAD_ADDR p (of_nat (length c))) t)"
  obtains bs j where "exec_ready fn nm ps u" "heap_step s u" "exec_keeps s (mem u)" "heap_rel u bs" "(j, False) \<in> set bs" "8624 \<le> j"
    "load_bytes (mem u) USER_LOAD_ADDR (length c) = c"
proof -
  have inv: "heap_inv s" and top: "heap_top s \<le> 0x600000" using r by (simp_all add: exec_ready_def USER_LOAD_ADDR_def)
  let ?m = "mem_copy_exec USER_LOAD_ADDR p (of_nat (length c)) (mem t)"
  have un: "unat (of_nat (length c) :: u32) = length c" using t(8) by (intro unat_of_nat32) simp
  have "apart_ranges USER_LOAD_ADDR (unat (of_nat (length c) :: u32)) p (unat (of_nat (length c) :: u32))"
    unfolding un using t(4,8,9) top by (auto simp: apart_ranges_def USER_LOAD_ADDR_def)
  then have m: "?m = store_bytes (mem t) USER_LOAD_ADDR c" using t(6) un by (simp add: mem_copy_exec_apart)
  have out: "?m x = mem t x" if "unat x < 0x600000 \<or> 0x600000 + 32768 \<le> unat x" for x
    unfolding m using that t(8) by (intro store_bytes_other) (auto simp: USER_LOAD_ADDR_def)
  have "exec_keeps s ?m" by (rule kept_store [where a = "0x600000" and n = 32768, OF t(5) out _ top inv]) simp_all
  moreover have "?m x = mem t x" if "unat x < heap_top t" for x using that out top heap_step_fields(2) [OF t(7)] by simp
  note hm = heap_outside [OF t(1) this]
  ultimately have kt: "exec_keeps s (mem (t\<lparr>mem := ?m\<rparr>))" "heap_inv (t\<lparr>mem := ?m\<rparr>)" "heap_live (t\<lparr>mem := ?m\<rparr>) = insert (unat p, n) (heap_live s)"
    using t(2) by simp_all
  obtain bs j where w: "exec_ready fn nm ps u" "heap_step s u" "heap_rel u bs" "(j, False) \<in> set bs" "n \<le> j"
    "\<forall>x. heap_top s \<le> unat x \<longrightarrow> mem u x = mem (t\<lparr>mem := ?m\<rparr>) x" "exec_keeps s (mem u)"
    unfolding u_def by (rule exec_release [OF r heap_step_trans [OF t(7) heap_step_mem] kt t(3)])
  have "load_bytes (mem u) USER_LOAD_ADDR (length c) = load_bytes ?m USER_LOAD_ADDR (length c)"
    using w(6) top t(8) by (intro load_bytes_cong) (auto simp: USER_LOAD_ADDR_def)
  also have "\<dots> = c" unfolding m using t(8) by (intro load_store_bytes) (simp add: USER_LOAD_ADDR_def)
  finally show ?thesis using that w t(4) by fastforce
qed

lemma exec_found:
  fixes s :: "'a fs_state_scheme"
  assumes r: "exec_ready fn nm ps s" and rel: "heap_rel s bs" and f: "tab_find nm (file_tab s) = Some i"
  defines "c \<equiv> file_content (file_tab s ! i)"
  shows "if c \<noteq> [] \<and> (\<exists>n \<ge> 32768. (n, False) \<in> set bs)
    then \<exists>p s'. exec tramp fn s = Some (p, s') \<and> p \<noteq> 0 \<and> exec_loaded tramp c ps p s s'
    else \<exists>s'. exec tramp fn s = Some (0, s') \<and> exec_undone fn nm ps s s'"
proof -
  have inv: "heap_inv s" using r by (simp add: exec_ready_def)
  have sz: "0 < (32 * 1024 :: u32)" "(32 * 1024 :: u32) \<le> 0xFFFFFFFC" "unat (ALIGN4 (32 * 1024)) = 32768" by (simp_all add: unat_ALIGN4)
  obtain p s1 where k: "kmalloc (32 * 1024) s = Some (p, s1)" by (rule kmalloc_cases [OF inv sz(1,2)])
  have p0: "p = 0 \<longleftrightarrow> \<not> (\<exists>n \<ge> 32768. (n, False) \<in> set bs)" using kmalloc_null [OF rel sz(1,2) k] unfolding sz(3) by fastforce
  have op: "vfs_open fn s = Some (of_nat i)" "\<not> sint (of_nat i :: u32) < 0" using exec_openD(1,3) [OF r] f by (simp_all add: idx_ret_def)
  show ?thesis
  proof (cases "p = 0")
    case True
    then have s1: "heap_inv s1" "heap_live s1 = heap_live s" "mem s1 = mem s" by (rule_tac kmalloc_cases [OF inv sz(1,2)]; use k in simp)+
    let ?s = "kprintf ''[EXEC] Out of memory for temp buffer\<newline>'' [] s1"
    have "exec_undone fn nm ps s ?s" using s1
      by (intro exec_undoneI [OF r] heap_step_trans [OF heap_step_ops(1) [OF k] heap_step_ops(4)]) (simp_all add: kept_same)
    moreover have "exec tramp fn s = Some (0, ?s)" unfolding exec_def using op k True by simp
    ultimately show ?thesis using True p0 by simp
  next
    case False
    obtain n m where t: "vfs_read (of_nat i) p 0 (32 * 1024) s1 = (of_nat (length c), s1\<lparr>mem := m\<rparr>)" "heap_inv (s1\<lparr>mem := m\<rparr>)"
      "heap_live (s1\<lparr>mem := m\<rparr>) = insert (unat p, n) (heap_live s)" "(unat p, n) \<notin> heap_live s" "32768 \<le> n" "exec_keeps s m" "load_bytes m p (length c) = c"
      "heap_step s (s1\<lparr>mem := m\<rparr>)" "length c \<le> 32768" "unat p + n \<le> heap_top s" unfolding c_def by (rule exec_temp [OF r f k False])
    have z: "sint (of_nat (length c) :: u32) \<le> 0 \<longleftrightarrow> c = []" using sint_count [OF t(9)] by auto
    have tm: "exec_keeps s (mem (s1\<lparr>mem := m\<rparr>))" "load_bytes (mem (s1\<lparr>mem := m\<rparr>)) p (length c) = c" using t(6,7) by simp_all
    show ?thesis
    proof (cases "c = []")
      case True
      let ?t = "kprintf ''[EXEC] Empty or unreadable file: %s\<newline>'' [AStr (Some nm)] (s1\<lparr>mem := m\<rparr>)"
      have kt: "exec_keeps s (mem ?t)" "heap_inv ?t" "heap_live ?t = insert (unat p, n) (heap_live s)" using t(2,3,6) by simp_all
      obtain bs' j where u: "exec_ready fn nm ps (kfree p ?t)" "heap_step s (kfree p ?t)" "heap_live (kfree p ?t) = heap_live s" "exec_keeps s (mem (kfree p ?t))"
        by (rule exec_release [OF r heap_step_trans [OF t(8) heap_step_ops(4)] kt t(4)])
      have "c_string m fn = Some nm" using kept_state(4) [OF r t(8) tm(1)] by (simp add: c_string_at)
      then have "exec tramp fn s = Some (0, kfree p ?t)" unfolding exec_def using op k False t(1) z True by (simp add: print_name_def)
      moreover have "heap_inv (kfree p ?t)" using u(1) by (simp add: exec_ready_def)
      ultimately show ?thesis using exec_undoneI [OF r u(2,4) _ u(3)] True by auto
    next
      case nonempty: False
      let ?u = "kfree p (upd_mem (mem_copy_exec USER_LOAD_ADDR p (of_nat (length c))) (s1\<lparr>mem := m\<rparr>))"
      obtain bs' j where w: "exec_ready fn nm ps ?u" "heap_step s ?u" "exec_keeps s (mem ?u)" "heap_rel ?u bs'" "(j, False) \<in> set bs'" "8624 \<le> j"
        "load_bytes (mem ?u) USER_LOAD_ADDR (length c) = c" by (rule exec_copy [OF r t(2-5) tm t(8-10)])
      obtain q s' where q: "exec_spawn tramp fn (of_nat (length c)) ?u = Some (q, s')" "q \<noteq> 0" "exec_loaded tramp c ps q ?u s'"
        using exec_spawn_ok [OF w(1,4-7) t(9), of tramp "of_nat (length c)"] by blast
      have "exec tramp fn s = Some (q, s')" unfolding exec_def using op k False t(1) z nonempty q(1) by (simp add: Let_def)
      then show ?thesis using exec_loaded_start [OF r w(2,3) q(3)] q(2) nonempty False p0 by auto
    qed
  qed
qed

section \<open>Properties\<close>

text \<open>
  C1. Loading a program: \<open>exec\<close> always returns. It returns NULL exactly when there is no such file,
  the file is empty, or the heap has no free block of 32 KB, and then the heap, the files, the run
  queue and the process numbers are as before. Otherwise the bytes of the file stand at 0x600000,
  the temporary buffer is free again, and a new process with the next number is in the run queue, after its
  first member: ready, in the kernel's address space, about to start \<open>shell_trampoline\<close>, with the
  standard descriptors in use and the others free. Everything else of the other processes, the files and
  the current process are untouched.
\<close>

theorem exec_loads_program:
  fixes s :: "'a fs_state_scheme"
  assumes "exec_ready fn nm ps s" and "heap_rel s bs"
  shows "case tab_find nm (file_tab s) of
      None \<Rightarrow> \<exists>s'. exec tramp fn s = Some (0, s') \<and> exec_undone fn nm ps s s'
    | Some i \<Rightarrow>
        if file_content (file_tab s ! i) \<noteq> [] \<and> (\<exists>n \<ge> 32768. (n, False) \<in> set bs)
        then \<exists>p s'. exec tramp fn s = Some (p, s') \<and> p \<noteq> 0 \<and> exec_loaded tramp (file_content (file_tab s ! i)) ps p s s'
        else \<exists>s'. exec tramp fn s = Some (0, s') \<and> exec_undone fn nm ps s s'"
  using exec_missing [OF assms(1)] exec_found [OF assms] by (simp split: option.split del: nth_file_tab)

text \<open>The file system of the shell's example, with a heap of 128 KB at 2 MB and an empty queue.\<close>

definition exec_demo :: fs_state where
  "exec_demo = heap_init 0x200000 0x20000 (fs_hello\<lparr>run_queue := 0\<rparr>)"

lemma exec_demo_facts:
  "exec_ready 0x800 (str ''a.txt'') [] exec_demo" "heap_rel exec_demo [(131056, False)]"
  "tab_find (str ''a.txt'') (file_tab exec_demo) = Some 0" "file_content (file_tab exec_demo ! 0) = str ''hello''"
proof -
  note i = heap_init_rel [of "0x200000" "0x20000" "fs_hello\<lparr>run_queue := 0\<rparr>", folded exec_demo_def, simplified]
  show rel: "heap_rel exec_demo [(131056, False)]" using i(1) by simp
  then have inv: "heap_inv exec_demo" by (auto simp: heap_inv_def)
  have hs: "heap_start_addr exec_demo = 0x200000" "heap_end_addr exec_demo = 0x220000" using i by simp_all
  have f: "files_addr exec_demo = 0x300000" "mounted_fs exec_demo = Some Ramfs_ops" "run_queue exec_demo = 0"
    using table_step_fields [OF fs_hello_facts(1)] fs_file_demo_facts(2,5) heap_step_ops(4)
    by (auto simp: exec_demo_def heap_init_def Let_def kprintf_fs_fields io_step_fields [OF io_step_kprintf] io_step_fs [OF io_step_kprintf])
  have mm: "mem exec_demo x = mem fs_hello x" if "unat x < 0x200000 \<or> 0x220000 \<le> unat x" for x
    using that write_hdr_other [of "0x200000" x "0x20000 - HDR_SIZE" 0 0 "mem fs_hello"] by (auto simp: exec_demo_def heap_init_def Let_def)
  have "file_tab (fs_hello\<lparr>mem := mem exec_demo\<rparr>) = file_tab fs_hello"
    using fs_hello_facts(3) table_step_fields(1) [OF fs_hello_facts(1)] fs_file_demo_facts(5) mm by (intro file_tab_frame) (auto simp: fs_ok_def)
  then have tab: "file_tab exec_demo = file_tab fs_hello"
    using file_tab_cong [of exec_demo "fs_hello\<lparr>mem := mem exec_demo\<rparr>"] f(1) table_step_fields(1) [OF fs_hello_facts(1)] fs_file_demo_facts(5) by simp
  then show "tab_find (str ''a.txt'') (file_tab exec_demo) = Some 0" "file_content (file_tab exec_demo ! 0) = str ''hello''"
    using sh_demo_file unfolding sh_demo_state(4) by (simp_all del: nth_file_tab)
  have l: "Suc (length (str ''a.txt'')) = 6" "hd0 (str ''a.txt'') \<noteq> 0x2F" by (simp_all add: str_def)
  have "load_bytes (mem exec_demo) 0x800 6 = load_bytes (mem fs_hello) 0x800 6" using mm by (intro load_bytes_cong) auto
  also have "\<dots> = load_bytes (mem fs_file_demo) 0x800 6" by (rule table_step_out [OF fs_hello_facts(1) fs_file_demo_off]) simp
  finally have at: "str_at (mem exec_demo) 0x800 (str ''a.txt'')" using fs_file_demo_proc(5) unfolding str_at_load l(1) by simp
  have "fs_ok exec_demo" using fs_hello_facts(3) tab f(1) table_step_fields(1) [OF fs_hello_facts(1)] fs_file_demo_facts(5) by (simp add: fs_ok_def)
  then show "exec_ready 0x800 (str ''a.txt'') [] exec_demo" using inv f at l
    by (simp add: exec_ready_def hs off_table_def apart_ranges_def ramfs_consts USER_LOAD_ADDR_def queue_def)
qed

theorem exec_loads_program_witness:
  "\<exists>p s'. exec 0x101000 0x800 exec_demo = Some (p, s') \<and> p \<noteq> 0 \<and> exec_loaded 0x101000 (str ''hello'') [] p exec_demo s'"
proof -
  have "str ''hello'' \<noteq> []" by (simp add: str_def)
  then show ?thesis
    using exec_loads_program [OF exec_demo_facts(1,2), of "0x101000"] exec_demo_facts(3,4) by (auto simp del: nth_file_tab)
qed

end
