(* ===== verification/Kmain.thy ===== *)
theory Kmain
  imports Exec
begin

text \<open>
  kernel/kernel.c: \<open>kmain\<close>, from the boot loader to the shell. Addresses the linker chooses are
  fields of \<open>kernel_image\<close>; the shell is an argument. The result \<open>Returned\<close> stands for the
  idle loop at the end, which does nothing but wait for interrupts.
\<close>

section \<open>The source, part by part\<close>

record kernel_image =
  kernel_end :: u32
  stack_top :: u32
  trampoline :: u32
  hello_txt :: u32
  hello_msg :: u32
  shell_bin :: u32
  test_buf :: u32

definition MULTIBOOT_BOOTLOADER_MAGIC :: u32 where "MULTIBOOT_BOOTLOADER_MAGIC = 0x2BADB002"
definition IRQ_TIMER :: u8 where "IRQ_TIMER = 0"

text \<open>Stages 2 and 3.\<close>

definition boot_banner :: "'a fs_state_scheme \<Rightarrow> 'a fs_state_scheme" where
  "boot_banner s =
     (let s1 = vga_set_color (vga_make_color VGA_COLOR_GREEN VGA_COLOR_BLACK) (vga_init s);
          s2 = debug_print (str ''[serial] AnubhavOS booting...\<newline>'') (kprintf ''AnubhavOS booting...\<newline>'' [] s1)
      in vga_set_color (vga_make_color VGA_COLOR_LIGHT_GREY VGA_COLOR_BLACK) s2)"

definition boot_tables :: "kernel_image \<Rightarrow> u32 \<Rightarrow> 'a fs_state_scheme \<Rightarrow> 'a fs_state_scheme" where
  "boot_tables img magic s =
     (let s1 = debug_print (str ''[serial] Multiboot OK\<newline>'') (kprintf ''Multiboot magic OK (0x%x)\<newline>'' [AWord magic] s);
          s2 = debug_print (str ''[serial] GDT loaded\<newline>'') (gdt_init s1);
          s3 = debug_print (str ''[serial] TSS loaded\<newline>'') (tss_init (stack_top img) s2);
          s4 = debug_print (str ''[serial] IDT+IRQ loaded\<newline>'') (idt_init s3)
      in kprintf ''[GDT/TSS/IDT] Loaded. Interrupts enabled.\<newline>'' [] s4)"

text \<open>Stage 4: the end of the last module, and the heap after it.\<close>

definition has_mods :: "multiboot_info \<Rightarrow> bool" where
  "has_mods mbi \<longleftrightarrow> flags mbi AND push_bit 3 1 \<noteq> 0 \<and> 0 < mods_count mbi"

definition mod_at :: "mem \<Rightarrow> multiboot_info \<Rightarrow> nat \<Rightarrow> multiboot_mod" where
  "mod_at m mbi i = read_mod m (mods_addr mbi + 16 * of_nat i)"

definition safe_end :: "u32 \<Rightarrow> mem \<Rightarrow> multiboot_info \<Rightarrow> u32" where
  "safe_end kend m mbi =
     (if has_mods mbi
      then fold (\<lambda>i e. if e < mod_end (mod_at m mbi i) then mod_end (mod_at m mbi i) else e) [0..<unat (mods_count mbi)] kend
      else kend)"

definition boot_memory :: "kernel_image \<Rightarrow> u32 \<Rightarrow> 'a fs_state_scheme \<Rightarrow> 'a fs_state_scheme option" where
  "boot_memory img p s =
     (case pmm_init (kernel_end img) p s of
        None \<Rightarrow> None
      | Some s1 \<Rightarrow>
          let s2 = debug_print (str ''[serial] PMM ready\<newline>'') s1;
              s3 = debug_print (str ''[serial] Paging enabled\<newline>'') (vmm_init s2);
              heap_base = (safe_end (kernel_end img) (mem s3) (read_mbi (mem s3) p) + 0xFFF) AND NOT 0xFFF
          in Some (debug_print (str ''[serial] Heap ready\<newline>'') (heap_init heap_base (2 * 1024 * 1024) s3)))"

text \<open>Stages 5 and 6. A failed \<open>scheduler_init\<close> halts, which is \<open>None\<close> as it is there.\<close>

definition boot_tasks :: "'a fs_state_scheme \<Rightarrow> 'a fs_state_scheme option" where
  "boot_tasks s =
     (case scheduler_init (process_init s) of
        None \<Rightarrow> None
      | Some s1 \<Rightarrow>
          (case timer_init PIT_HZ_DEFAULT s1 of
             None \<Rightarrow> None
           | Some s2 \<Rightarrow> Some (syscall_init (debug_print (str ''[serial] Scheduler running\<newline>'') (irq_register IRQ_TIMER Timer_irq_tick s2)))))"

text \<open>Stage 7: the file system and its test.\<close>

definition vfs_test_read :: "kernel_image \<Rightarrow> 'a fs_state_scheme \<Rightarrow> 'a fs_state_scheme option" where
  "vfs_test_read img s =
     (case vfs_open (hello_txt img) s of
        None \<Rightarrow> None
      | Some idx \<Rightarrow>
          if sint idx < 0 then Some s
          else (case vfs_read idx (test_buf img) 0 127 s of (n, s1) \<Rightarrow>
            map_option (\<lambda>s2. snd (vfs_close idx s2))
              (if 0 < sint n
               then let s2 = upd_mem (\<lambda>m. m(test_buf img + n := 0)) s1
                    in print_name ''[VFS TEST] Read back: %s'' (test_buf img) [] s2
               else Some s1)))"

definition vfs_test :: "kernel_image \<Rightarrow> 'a fs_state_scheme \<Rightarrow> 'a fs_state_scheme option" where
  "vfs_test img s =
     (case vfs_create (hello_txt img) s of
        None \<Rightarrow> None
      | Some (_, s1) \<Rightarrow>
          (case vfs_open (hello_txt img) s1 of
             None \<Rightarrow> None
           | Some idx \<Rightarrow>
               map_option (debug_print (str ''[serial] VFS test OK\<newline>''))
                 (if sint idx < 0 then Some s1
                  else (case c_string (mem s1) (hello_msg img) of
                          None \<Rightarrow> None
                        | Some msg \<Rightarrow>
                            let s2 = snd (vfs_write idx (hello_msg img) 0 (of_nat (length msg)) s1)
                            in vfs_test_read img (snd (vfs_close idx s2))))))"

definition boot_files :: "kernel_image \<Rightarrow> 'a fs_state_scheme \<Rightarrow> 'a fs_state_scheme option" where
  "boot_files img s = vfs_test img (ramfs_init (vfs_init s))"

text \<open>Stage 8: the keyboard, the descriptors of the idle process, the image and the shell.\<close>

definition boot_input :: "'a fs_state_scheme \<Rightarrow> 'a fs_state_scheme" where
  "boot_input s =
     (let s1 = debug_print (str ''[serial] Keyboard ready\<newline>'') (keyboard_init s); idle = scheduler_current s1
      in if idle \<noteq> 0 then upd_mem (fd_table_init idle) s1 else s1)"

definition boot_load :: "kernel_image \<Rightarrow> multiboot_mod \<Rightarrow> 'a fs_state_scheme \<Rightarrow> 'a fs_state_scheme option" where
  "boot_load img md s =
     (let size = mod_end md - mod_start md; s1 = kprintf ''[INIT] Loading initramfs (%u bytes)\<newline>'' [AWord size] s in
      case initramfs_load (mod_start md) size s1 of
        None \<Rightarrow> None
      | Some s2 \<Rightarrow> map_option (\<lambda>(_, s3). kprintf ''[INIT] Launching shell...\<newline>'' [] s3) (exec (trampoline img) (shell_bin img) s2))"

definition kmain_idle :: "(unit, 'a) prog" where
  "kmain_idle irqs s = Some (Returned ((), irqs) ((kprintf ''[KMAIN] Entering idle loop.\<newline>'' [] s)\<lparr>interrupts_on := True\<rparr>))"

definition boot_shell :: "kernel_image \<Rightarrow> (unit, 'a) prog \<Rightarrow> u32 \<Rightarrow> (unit, 'a) prog" where
  "boot_shell img shell_entry p irqs s =
     (let mbi = read_mbi (mem s) p in
      if has_mods mbi then
        (case boot_load img (mod_at (mem s) mbi 0) s of
           None \<Rightarrow> None
         | Some s1 \<Rightarrow> andthen shell_entry (\<lambda>_ irqs s. kmain_idle irqs (kprintf ''[KMAIN] Shell exited.\<newline>'' [] s)) irqs s1)
      else kmain_idle irqs (kprintf ''[INIT] No initramfs module found.\<newline>'' [] s))"

text \<open>From the memory map on, and all of it.\<close>

definition boot_system :: "kernel_image \<Rightarrow> u32 \<Rightarrow> 'a fs_state_scheme \<Rightarrow> 'a fs_state_scheme option" where
  "boot_system img p s =
     (case boot_memory img p s of
        None \<Rightarrow> None
      | Some s1 \<Rightarrow>
          (case boot_tasks s1 of
             None \<Rightarrow> None
           | Some s2 \<Rightarrow> map_option boot_input (boot_files img s2)))"

definition kmain :: "kernel_image \<Rightarrow> (unit, 'a) prog \<Rightarrow> u32 \<Rightarrow> u32 \<Rightarrow> (unit, 'a) prog" where
  "kmain img shell_entry magic p irqs s =
     (let s1 = boot_banner s in
      if magic \<noteq> MULTIBOOT_BOOTLOADER_MAGIC
      then Some (khalt (kprintf ''ERROR: Bad Multiboot magic: 0x%x\<newline>'' [AWord magic] (vga_set_color (vga_make_color VGA_COLOR_RED VGA_COLOR_BLACK) s1)))
      else (case boot_system img p (boot_tables img magic s1) of
              None \<Rightarrow> None
            | Some s2 \<Rightarrow> boot_shell img shell_entry p irqs s2))"

end
