(* ===== verification/Spec2Isabelle.thy ===== *)
theory Spec2Isabelle
  imports Mkramfs Exec_laws Kmain
begin

text \<open>
  A verification development of AnubhavOS, a 32-bit x86 teaching kernel with a ramfs and a
  shell (sources under src/).
\<close>

end
